(* ===== verification/Omni_Prelude.thy ===== *)
theory Omni_Prelude
  imports Main "HOL-Library.Word" "HOL-Library.AList"
begin

text \<open>
  Shared vocabulary of the development.

  \<^item> PostgreSQL's scalar types at their C width (\<open>Oid\<close>, transaction ids), and the
    \<open>Datum\<close> of the calling convention: a word for a by-value type, or a pointer to bytes
    that live in a memory context.
  \<^item> The outcome of a C function that may leave through \<open>ereport(ERROR, ...)\<close>: a sum of
    an error and a result.  \<open>Crash\<close> stands for an access that C leaves undefined.
  \<^item> Hash tables (dynahash, dshash and simplehash are used through find, enter, remove and a
    sequential scan): association lists whose order is the order of the scan, with the
    interface \<open>hash_table\<close> and its interpretation.
  \<^item> Generic lemmas on lists, options and words.
\<close>

section \<open>Scalar types\<close>

type_synonym Oid = "32 word"
type_synonym TransactionId = "32 word"
type_synonym SubTransactionId = "32 word"
type_synonym byte = "8 word"

abbreviation InvalidOid :: Oid where "InvalidOid \<equiv> 0"
abbreviation InvalidTransactionId :: TransactionId where "InvalidTransactionId \<equiv> 0"

text \<open>The memory contexts that the modelled code allocates in.\<close>

datatype mcxt =
    CallerContext
  | PortalContext
  | TopTransactionContext
  | TopMemoryContext

datatype Datum =
    DWord "64 word"
  | DPointer mcxt "byte list"

section \<open>Outcomes\<close>

datatype sqlstate =
    ERRCODE_INTERNAL_ERROR
  | ERRCODE_INVALID_PARAMETER_VALUE
  | ERRCODE_INVALID_TEXT_REPRESENTATION
  | ERRCODE_FEATURE_NOT_SUPPORTED
  | ERRCODE_T_R_SERIALIZATION_FAILURE
  | ERRCODE_OTHER

datatype pg_error =
    Ereport sqlstate string
  | Crash string

type_synonym 'a outcome = "pg_error + 'a"

text \<open>\<open>elog(ERROR, ...)\<close> and an \<open>ereport\<close> with no \<open>errcode\<close> carry the internal error code.\<close>

abbreviation elog_error :: "string \<Rightarrow> 'a outcome" where
  "elog_error msg \<equiv> Inl (Ereport ERRCODE_INTERNAL_ERROR msg)"

fun bind_outcome :: "'a outcome \<Rightarrow> ('a \<Rightarrow> 'b outcome) \<Rightarrow> 'b outcome" where
  "bind_outcome (Inl e) f = Inl e"
| "bind_outcome (Inr x) f = f x"

fun mapM_outcome :: "('a \<Rightarrow> 'b outcome) \<Rightarrow> 'a list \<Rightarrow> 'b list outcome" where
  "mapM_outcome f [] = Inr []"
| "mapM_outcome f (x # xs) =
     bind_outcome (f x) (\<lambda>y. bind_outcome (mapM_outcome f xs) (\<lambda>ys. Inr (y # ys)))"

fun is_ok :: "'a outcome \<Rightarrow> bool" where
  "is_ok (Inr _) = True"
| "is_ok (Inl _) = False"

text \<open>
  Code that changes a state and may leave through an error: what it changed up to then stays
  changed.
\<close>

type_synonym ('s, 'a) state_action = "'s \<Rightarrow> 'a outcome \<times> 's"

definition return_action :: "'a \<Rightarrow> ('s, 'a) state_action" where
  "return_action x st = (Inr x, st)"

definition fail_action :: "pg_error \<Rightarrow> ('s, 'a) state_action" where
  "fail_action e st = (Inl e, st)"

definition bind_action ::
  "('s, 'a) state_action \<Rightarrow> ('a \<Rightarrow> ('s, 'b) state_action) \<Rightarrow> ('s, 'b) state_action" where
  "bind_action m f st = (case m st of (Inl e, st') \<Rightarrow> (Inl e, st') | (Inr x, st') \<Rightarrow> f x st')"

fun for_each :: "('a \<Rightarrow> ('s, unit) state_action) \<Rightarrow> 'a list \<Rightarrow> ('s, unit) state_action" where
  "for_each f [] = return_action ()"
| "for_each f (x # xs) = bind_action (f x) (\<lambda>_. for_each f xs)"

lemma bind_action_Inr:
  "bind_action m f st = (Inr y, st'') \<longleftrightarrow> (\<exists>x st'. m st = (Inr x, st') \<and> f x st' = (Inr y, st''))"
  by (auto simp: bind_action_def split: prod.splits sum.splits)

lemma for_each_append:
  "for_each f (xs @ ys) = bind_action (for_each f xs) (\<lambda>_. for_each f ys)"
  by (induction xs) (auto simp: fun_eq_iff bind_action_def return_action_def split: prod.splits sum.splits)

lemma for_each_mem:
  "for_each f xs st = (Inr (), st') \<Longrightarrow> x \<in> set xs \<Longrightarrow> \<exists>st1 st2. f x st1 = (Inr (), st2)"
  by (induction xs arbitrary: st) (auto simp: bind_action_Inr)

text \<open>The events that PostgreSQL reports to transaction callbacks.\<close>

datatype SubXactEvent =
    SUBXACT_EVENT_START_SUB
  | SUBXACT_EVENT_COMMIT_SUB
  | SUBXACT_EVENT_ABORT_SUB
  | SUBXACT_EVENT_PRE_COMMIT_SUB

datatype XactEvent =
    XACT_EVENT_COMMIT
  | XACT_EVENT_PARALLEL_COMMIT
  | XACT_EVENT_ABORT
  | XACT_EVENT_PARALLEL_ABORT
  | XACT_EVENT_PREPARE
  | XACT_EVENT_PRE_COMMIT
  | XACT_EVENT_PARALLEL_PRE_COMMIT
  | XACT_EVENT_PRE_PREPARE

section \<open>Hash tables\<close>

type_synonym ('k, 'v) htab = "('k \<times> 'v) list"

definition hash_find :: "('k, 'v) htab \<Rightarrow> 'k \<Rightarrow> 'v option" where
  "hash_find t k = map_of t k"

definition hash_enter :: "'k \<Rightarrow> 'v \<Rightarrow> ('k, 'v) htab \<Rightarrow> ('k, 'v) htab" where
  "hash_enter k v t = AList.update k v t"

definition hash_remove :: "'k \<Rightarrow> ('k, 'v) htab \<Rightarrow> ('k, 'v) htab" where
  "hash_remove k t = AList.delete k t"

text \<open>A sequential scan that may replace or remove the entry it is at.\<close>

definition hash_seq_update :: "('k \<Rightarrow> 'v \<Rightarrow> 'v option) \<Rightarrow> ('k, 'v) htab \<Rightarrow> ('k, 'v) htab" where
  "hash_seq_update f t =
     List.map_filter (\<lambda>(k, v). map_option (\<lambda>v'. (k, v')) (f k v)) t"

definition hash_wf :: "('k, 'v) htab \<Rightarrow> bool" where
  "hash_wf t \<longleftrightarrow> distinct (map fst t)"

named_theorems htab_simps

lemma hash_find_empty [htab_simps]: "hash_find [] k = None"
  by (simp add: hash_find_def)

lemma hash_find_enter [htab_simps]:
  "hash_find (hash_enter k v t) k' = (if k' = k then Some v else hash_find t k')"
  by (simp add: hash_find_def hash_enter_def update_conv')

lemma hash_find_remove [htab_simps]:
  "hash_find (hash_remove k t) k' = (if k' = k then None else hash_find t k')"
  by (simp add: hash_find_def hash_remove_def delete_conv')

lemma hash_wf_empty [htab_simps]: "hash_wf []"
  by (simp add: hash_wf_def)

lemma hash_wf_enter [htab_simps]: "hash_wf t \<Longrightarrow> hash_wf (hash_enter k v t)"
  by (simp add: hash_wf_def hash_enter_def distinct_update)

lemma hash_wf_remove [htab_simps]: "hash_wf t \<Longrightarrow> hash_wf (hash_remove k t)"
  by (simp add: hash_wf_def hash_remove_def distinct_delete)

lemma hash_find_Cons:
  "hash_find ((k, v) # t) k' = (if k' = k then Some v else hash_find t k')"
  by (simp add: hash_find_def)

lemma hash_find_None_notin: "hash_find t k = None \<longleftrightarrow> k \<notin> fst ` set t"
  by (simp add: hash_find_def map_of_eq_None_iff)

lemma hash_find_mem: "hash_wf t \<Longrightarrow> (k, v) \<in> set t \<longleftrightarrow> hash_find t k = Some v"
  by (simp add: hash_wf_def hash_find_def)

lemma hash_seq_update_Nil [simp]: "hash_seq_update f [] = []"
  by (simp add: hash_seq_update_def map_filter_simps)

lemma hash_seq_update_Cons:
  "hash_seq_update f ((k, v) # t) =
     (case f k v of None \<Rightarrow> hash_seq_update f t | Some v' \<Rightarrow> (k, v') # hash_seq_update f t)"
  by (simp add: hash_seq_update_def map_filter_simps split: option.splits)

lemma hash_seq_update_keys:
  "set (map fst (hash_seq_update f t)) \<subseteq> set (map fst t)"
proof (induction t)
  case (Cons a t)
  then show ?case
    by (cases a) (auto simp: hash_seq_update_Cons split: option.splits)
qed simp

lemma hash_wf_seq_update [htab_simps]: "hash_wf t \<Longrightarrow> hash_wf (hash_seq_update f t)"
proof (induction t)
  case (Cons a t)
  then show ?case
    using hash_seq_update_keys[of f t]
    by (cases a) (auto simp: hash_wf_def hash_seq_update_Cons split: option.splits)
qed (simp add: hash_wf_def)

lemma hash_find_seq_update:
  assumes "hash_wf t"
  shows "hash_find (hash_seq_update f t) k = Option.bind (hash_find t k) (f k)"
  using assms
proof (induction t)
  case Nil
  then show ?case by (simp add: hash_find_empty)
next
  case (Cons a t)
  obtain k0 v0 where a: "a = (k0, v0)" by force
  have wf: "hash_wf t" and notin: "k0 \<notin> fst ` set t"
    using Cons.prems by (auto simp: hash_wf_def a)
  have "hash_find (hash_seq_update f t) k0 = None"
    using hash_seq_update_keys[of f t] notin by (auto simp: hash_find_None_notin)
  with Cons.IH[OF wf] show ?case
    by (auto simp: a hash_seq_update_Cons hash_find_Cons split: option.splits)
qed

lemma map_of_filter_key: "map_of (filter (\<lambda>(k, _). P k) xs) k = (if P k then map_of xs k else None)"
  by (induction xs) auto

lemma hash_find_filter: "hash_find (filter (\<lambda>(p, _). P p) ps) p = (if P p then hash_find ps p else None)"
  by (simp add: hash_find_def map_of_filter_key)

lemma set_hash_enter: "set (hash_enter k v t) \<subseteq> insert (k, v) (set t)"
  unfolding hash_enter_def by (induction t) auto

lemma keys_hash_enter: "fst ` set (hash_enter k v t) = insert k (fst ` set t)"
  unfolding hash_enter_def by (induction t) auto

lemma hash_all_iff:
  "hash_wf t \<Longrightarrow> list_all (\<lambda>(_, v). P v) t \<longleftrightarrow> (\<forall>k v. hash_find t k = Some v \<longrightarrow> P v)"
  by (auto simp: list_all_iff hash_find_mem)

subsection \<open>The interface of a hash table\<close>

text \<open>What the clients of a hash table rely on.\<close>

locale hash_table =
  fixes find :: "'t \<Rightarrow> 'k \<Rightarrow> 'v option"
    and enter :: "'k \<Rightarrow> 'v \<Rightarrow> 't \<Rightarrow> 't"
    and remove :: "'k \<Rightarrow> 't \<Rightarrow> 't"
    and wf :: "'t \<Rightarrow> bool"
  assumes find_enter: "find (enter k v t) k' = (if k' = k then Some v else find t k')"
    and find_remove: "find (remove k t) k' = (if k' = k then None else find t k')"
    and wf_enter: "wf t \<Longrightarrow> wf (enter k v t)"
    and wf_remove: "wf t \<Longrightarrow> wf (remove k t)"
begin

lemma enter_overwrites: "find (enter k v (enter k w t)) = find (enter k v t)"
  by (rule ext) (simp add: find_enter)

lemma enter_commutes:
  "k \<noteq> k' \<Longrightarrow> find (enter k v (enter k' w t)) = find (enter k' w (enter k v t))"
  by (rule ext) (simp add: find_enter)

lemma remove_enter_fresh: "find t k = None \<Longrightarrow> find (remove k (enter k v t)) = find t"
  by (rule ext) (simp add: find_remove find_enter)

lemma dom_enter: "dom (find (enter k v t)) = insert k (dom (find t))"
  by (auto simp: find_enter dom_def)

lemma dom_remove: "dom (find (remove k t)) = dom (find t) - {k}"
  by (auto simp: find_remove dom_def split: if_splits)

end

interpretation htab: hash_table hash_find hash_enter hash_remove hash_wf
  by unfold_locales (simp_all add: htab_simps)

section \<open>Generic lemmas\<close>

lemma bind_outcome_Inr_iff:
  "bind_outcome m f = Inr y \<longleftrightarrow> (\<exists>x. m = Inr x \<and> f x = Inr y)"
  by (cases m) auto

lemma mapM_outcome_Inr:
  "(\<And>x. x \<in> set xs \<Longrightarrow> f x = Inr (g x)) \<Longrightarrow> mapM_outcome f xs = Inr (map g xs)"
  by (induction xs) auto

lemma mapM_outcome_list_all2: "mapM_outcome f xs = Inr ys \<longleftrightarrow> list_all2 (\<lambda>x y. f x = Inr y) xs ys"
  by (induction xs arbitrary: ys) (auto simp: bind_outcome_Inr_iff list_all2_Cons1)

lemma sint_of_int64: "- (2 ^ 63) \<le> k \<Longrightarrow> k < 2 ^ 63 \<Longrightarrow> sint (word_of_int k :: 64 word) = k"
  by (simp add: signed_of_int signed_take_bit_int_eq_self)

section \<open>Big-endian bytes\<close>

unbundle bit_operations_syntax

text \<open>The lower \<open>n\<close> bytes of a word, most significant first, and back.\<close>

fun be_bytes :: "nat \<Rightarrow> 'a::len word \<Rightarrow> byte list" where
  "be_bytes 0 w = []"
| "be_bytes (Suc n) w = be_bytes n (drop_bit 8 w) @ [ucast w]"

definition be_word :: "byte list \<Rightarrow> 'a::len word" where
  "be_word bs = foldl (\<lambda>acc b. push_bit 8 acc OR ucast b) 0 bs"

lemma length_be_bytes [simp]: "length (be_bytes n w) = n"
  by (induction n arbitrary: w) auto

lemma be_word_be_bytes: "be_word (be_bytes n w) = take_bit (8 * n) w"
proof (induction n arbitrary: w)
  case 0
  show ?case by (simp add: be_word_def)
next
  case (Suc n)
  have "be_word (be_bytes (Suc n) w) =
      push_bit 8 (be_word (be_bytes n (drop_bit 8 w))) OR ucast (ucast w :: byte)"
    by (simp add: be_word_def)
  also have "\<dots> = push_bit 8 (take_bit (8 * n) (drop_bit 8 w)) OR ucast (ucast w :: byte)"
    by (simp add: Suc.IH)
  also have "\<dots> = take_bit (8 * Suc n) w"
    by (rule bit_word_eqI) (auto simp: bit_simps)
  finally show ?case .
qed

text \<open>The number that a list of bytes denotes, and the comparison of lists by \<open>memcmp\<close>.\<close>

definition be_nat :: "byte list \<Rightarrow> nat" where
  "be_nat bs = foldl (\<lambda>acc b. 256 * acc + unat b) 0 bs"

fun memcmp_less :: "byte list \<Rightarrow> byte list \<Rightarrow> bool" where
  "memcmp_less (x # xs) (y # ys) = (x < y \<or> x = y \<and> memcmp_less xs ys)"
| "memcmp_less _ _ = False"

lemma foldl_be_nat:
  "foldl (\<lambda>acc b. 256 * acc + unat b) a bs = 256 ^ length bs * a + be_nat bs"
proof (induction bs arbitrary: a)
  case Nil
  show ?case by (simp add: be_nat_def)
next
  case (Cons b bs)
  have "be_nat (b # bs) = foldl (\<lambda>acc b. 256 * acc + unat b) (unat b) bs"
    unfolding be_nat_def by simp
  also have "\<dots> = 256 ^ length bs * unat b + be_nat bs" by (rule Cons.IH)
  finally have "be_nat (b # bs) = 256 ^ length bs * unat b + be_nat bs" .
  moreover have "foldl (\<lambda>acc b. 256 * acc + unat b) a (b # bs) =
      256 ^ length bs * (256 * a + unat b) + be_nat bs"
    using Cons.IH[of "256 * a + unat b"] by simp
  ultimately show ?case by (simp add: distrib_left mult_ac)
qed

lemma be_nat_Cons: "be_nat (b # bs) = 256 ^ length bs * unat b + be_nat bs"
proof -
  have "be_nat (b # bs) = foldl (\<lambda>acc b. 256 * acc + unat b) (unat b) bs"
    unfolding be_nat_def by simp
  then show ?thesis by (simp only: foldl_be_nat)
qed

lemma be_nat_append: "be_nat (xs @ ys) = 256 ^ length ys * be_nat xs + be_nat ys"
proof -
  have "be_nat (xs @ ys) = foldl (\<lambda>acc b. 256 * acc + unat b) (be_nat xs) ys"
    unfolding be_nat_def by simp
  then show ?thesis by (simp only: foldl_be_nat)
qed

lemma be_nat_less: "be_nat bs < 256 ^ length bs"
proof (induction bs)
  case (Cons b bs)
  have "unat b < 2 ^ LENGTH(8)" by (rule unsigned_less)
  then have "unat b \<le> 255" by simp
  then have "256 ^ length bs * unat b \<le> 256 ^ length bs * 255" by (rule mult_le_mono2)
  then have "256 ^ length bs * unat b + be_nat bs < 256 ^ length bs * 255 + 256 ^ length bs"
    using Cons.IH by (rule add_le_less_mono)
  then show ?case by (simp add: be_nat_Cons)
qed (simp add: be_nat_def)

lemma memcmp_less_be_nat:
  "length xs = length ys \<Longrightarrow> memcmp_less xs ys \<longleftrightarrow> be_nat xs < be_nat ys"
proof (induction xs ys rule: list_induct2)
  case (Cons x xs y ys)
  have *: "a < b \<Longrightarrow> p < n \<Longrightarrow> n * a + p < n * b + q" for a b p q n :: nat
  proof -
    assume "a < b" "p < n"
    then have "n * a + p < n * a + n" by simp
    also have "\<dots> = n * Suc a" by simp
    also have "\<dots> \<le> n * b" using \<open>a < b\<close> by (intro mult_le_mono2) simp
    finally show "n * a + p < n * b + q" by simp
  qed
  consider "x < y" | "x = y" | "y < x" by (rule linorder_cases)
  then show ?case
  proof cases
    case 1
    then show ?thesis
      using *[of "unat x" "unat y" "be_nat xs" "256 ^ length xs" "be_nat ys"] be_nat_less[of xs] Cons
      by (simp add: be_nat_Cons word_less_nat_alt)
  next
    case 2
    then show ?thesis using Cons by (simp add: be_nat_Cons)
  next
    case 3
    then show ?thesis
      using *[of "unat y" "unat x" "be_nat ys" "256 ^ length ys" "be_nat xs"] be_nat_less[of ys] Cons
      by (auto simp: be_nat_Cons word_less_nat_alt)
  qed
qed simp

lemma be_nat_be_bytes: "be_nat (be_bytes n w) = unat w mod 256 ^ n"
proof (induction n arbitrary: w)
  case 0
  show ?case by (simp add: be_nat_def)
next
  case (Suc n)
  have low: "unat (ucast w :: byte) = unat w mod 256" by (simp add: unsigned_ucast_eq take_bit_eq_mod)
  have high: "unat (drop_bit 8 w) = unat w div 256" by (simp only: unat_drop_bit_eq) (simp add: drop_bit_eq_div)
  have "be_nat (be_bytes (Suc n) w) = 256 * (unat w div 256 mod 256 ^ n) + unat w mod 256"
    by (simp add: be_nat_append Suc.IH high) (simp add: be_nat_def low)
  also have "\<dots> = unat w mod (256 * 256 ^ n)" by (simp only: mod_mult2_eq)
  finally show ?case by simp
qed

section \<open>The interface of an encoding\<close>

text \<open>A decoder that inverts an encoder on valid values.\<close>

locale codec =
  fixes enc :: "'a \<Rightarrow> 'b"
    and dec :: "'b \<Rightarrow> 'a outcome"
    and valid :: "'a \<Rightarrow> bool"
  assumes dec_enc: "valid x \<Longrightarrow> dec (enc x) = Inr x"
begin

lemma enc_inject: "valid x \<Longrightarrow> valid y \<Longrightarrow> enc x = enc y \<longleftrightarrow> x = y"
  by (metis dec_enc sum.inject(2))

lemma dec_map: "(\<And>x. x \<in> set xs \<Longrightarrow> valid x) \<Longrightarrow> mapM_outcome dec (map enc xs) = Inr xs"
  by (induction xs) (auto simp: dec_enc)

end

lemma list_all2_zip_mem: "list_all2 P xs ys \<Longrightarrow> (y, k) \<in> set (zip ys (map f xs)) \<Longrightarrow> \<exists>x\<in>set xs. k = f x \<and> P x y"
  by (induction rule: list_all2_induct) auto

lemma list_all2_zip_ex: "list_all2 P xs ys \<Longrightarrow> x \<in> set xs \<Longrightarrow> \<exists>y. (y, f x) \<in> set (zip ys (map f xs)) \<and> P x y"
  by (induction rule: list_all2_induct) auto

end
