(* ===== verification/Omni_Cstring.thy ===== *)
theory Omni_Cstring
  imports Omni_Prelude
begin

text \<open>
  Functions of the C library on strings, as the standard describes them: decimal numbers as \<open>printf\<close> writes and \<open>strtoll\<close> reads
  them, and comparison of the first characters of two strings.
\<close>

section \<open>Decimal numbers\<close>

fun show_nat :: "nat \<Rightarrow> string" where
  "show_nat n =
     (if n < 10 then [char_of (48 + n)] else show_nat (n div 10) @ [char_of (48 + n mod 10)])"

declare show_nat.simps [simp del]

text \<open>The conversion of \<open>printf\<close> for a signed integer.\<close>

definition show_int :: "int \<Rightarrow> string" where
  "show_int i = (if i < 0 then CHR ''-'' # show_nat (nat (- i)) else show_nat (nat i))"

definition is_digit :: "char \<Rightarrow> bool" where
  "is_digit c \<longleftrightarrow> 48 \<le> (of_char c :: nat) \<and> (of_char c :: nat) \<le> 57"

definition is_space :: "char \<Rightarrow> bool" where
  "is_space c \<longleftrightarrow> (of_char c :: nat) = 32 \<or> 9 \<le> (of_char c :: nat) \<and> (of_char c :: nat) \<le> 13"

definition digits_value :: "string \<Rightarrow> nat" where
  "digits_value ds = foldl (\<lambda>acc c. 10 * acc + (of_char c - 48)) 0 ds"

text \<open>
  \<open>strtoll(s, NULL, 10)\<close>: the value and whether the conversion set \<open>errno\<close> to \<open>ERANGE\<close>.
\<close>

definition strtoll :: "string \<Rightarrow> int \<times> bool" where
  "strtoll s =
     (let s1 = dropWhile is_space s;
          neg = (s1 \<noteq> [] \<and> hd s1 = CHR ''-'');
          s2 = (if s1 \<noteq> [] \<and> (hd s1 = CHR ''-'' \<or> hd s1 = CHR ''+'') then tl s1 else s1);
          n = int (digits_value (takeWhile is_digit s2));
          i = (if neg then - n else n)
      in if i > 2 ^ 63 - 1 then (2 ^ 63 - 1, True)
         else if i < - (2 ^ 63) then (- (2 ^ 63), True)
         else (i, False))"

section \<open>Comparison\<close>

text \<open>
  \<open>strncmp(a, b, n) == 0\<close> and \<open>strncasecmp(a, b, n) == 0\<close>.  A list stands for a string that is followed by a terminating null character.
\<close>

definition tolower :: "char \<Rightarrow> char" where
  "tolower c = (if 65 \<le> (of_char c :: nat) \<and> (of_char c :: nat) \<le> 90 then char_of (of_char c + 32 :: nat) else c)"

definition char_at :: "string \<Rightarrow> char" where
  "char_at s = (case s of [] \<Rightarrow> CHR 0x00 | c # _ \<Rightarrow> c)"

fun strn_equal :: "(char \<Rightarrow> char) \<Rightarrow> string \<Rightarrow> string \<Rightarrow> nat \<Rightarrow> bool" where
  "strn_equal f a b 0 = True"
| "strn_equal f a b (Suc n) =
     (f (char_at a) = f (char_at b) \<and> (char_at a = CHR 0x00 \<or> strn_equal f (tl a) (tl b) n))"

definition strncmp_equal :: "string \<Rightarrow> string \<Rightarrow> nat \<Rightarrow> bool" where
  "strncmp_equal = strn_equal id"

definition strncasecmp_equal :: "string \<Rightarrow> string \<Rightarrow> nat \<Rightarrow> bool" where
  "strncasecmp_equal = strn_equal tolower"

section \<open>Decimal numbers read back\<close>

lemma of_char_digit: "d < 10 \<Longrightarrow> (of_char (char_of (48 + d :: nat)) :: nat) = 48 + d"
  by (simp add: of_char_of)

lemma digits_value_snoc: "digits_value (ds @ [c]) = 10 * digits_value ds + (of_char c - 48)"
  by (simp add: digits_value_def)

lemma show_nat_digits: "list_all is_digit (show_nat n) \<and> show_nat n \<noteq> []"
proof (induction n rule: show_nat.induct)
  case (1 n)
  have "n mod 10 < 10" by simp
  then show ?case
    using 1 of_char_digit[of n] of_char_digit[of "n mod 10"]
    unfolding show_nat.simps[of n] by (auto simp: is_digit_def)
qed

lemma digits_value_show_nat: "digits_value (show_nat n) = n"
proof (induction n rule: show_nat.induct)
  case (1 n)
  have "n mod 10 < 10" by simp
  then show ?case
    using 1 of_char_digit[of n] of_char_digit[of "n mod 10"]
    unfolding show_nat.simps[of n] by (auto simp: digits_value_snoc digits_value_def[of "[_]"])
qed

lemma takeWhile_digits:
  "list_all is_digit ds \<Longrightarrow> rest = [] \<or> \<not> is_digit (hd rest) \<Longrightarrow> takeWhile is_digit (ds @ rest) = ds"
  by (induction ds) (auto simp: takeWhile_eq_Nil_iff)

lemma digit_not_special:
  "is_digit c \<Longrightarrow> \<not> is_space c \<and> c \<noteq> CHR ''-'' \<and> c \<noteq> CHR ''+'' \<and> c \<noteq> CHR '':''"
  by (auto simp: is_digit_def is_space_def)

lemma strtoll_show_int:
  assumes "- (2 ^ 63) \<le> i" "i < 2 ^ 63" "rest = [] \<or> \<not> is_digit (hd rest)"
  shows "strtoll (show_int i @ rest) = (i, False)"
proof -
  define ds where "ds = show_nat (nat \<bar>i\<bar>)"
  have ds: "list_all is_digit ds" "ds \<noteq> []" "int (digits_value ds) = \<bar>i\<bar>"
    using show_nat_digits[of "nat \<bar>i\<bar>"] by (auto simp: ds_def digits_value_show_nat)
  obtain d ds' where d: "ds = d # ds'" "is_digit d" using ds(1,2) by (cases ds) auto
  have tw: "takeWhile is_digit (ds @ rest) = ds" using takeWhile_digits[OF ds(1) assms(3)] .
  have "\<not> is_space (CHR ''-'')" by (simp add: is_space_def)
  moreover have "show_int i = (if i < 0 then CHR ''-'' # ds else ds)"
    by (simp add: show_int_def ds_def)
  ultimately show ?thesis
    using assms(1,2) tw ds(3) digit_not_special[OF d(2)] d(1)
    by (auto simp: strtoll_def Let_def)
qed

section \<open>Prefixes\<close>

definition null_free :: "string \<Rightarrow> bool" where
  "null_free s \<longleftrightarrow> CHR 0x00 \<notin> set s"

text \<open>Compared up to the length of one of them, strings without null characters are equal if this one is a prefix of the other.\<close>

lemma strn_equal_prefix:
  assumes "null_free a" "null_free b" "\<And>c. f c = f (CHR 0x00) \<Longrightarrow> c = CHR 0x00"
  shows "strn_equal f a b (length a) \<longleftrightarrow> (\<exists>r. map f b = map f a @ r)"
  using assms(1,2)
proof (induction a arbitrary: b)
  case (Cons x a)
  show ?case
  proof (cases b)
    case Nil
    have "f x \<noteq> f (CHR 0x00)" using assms(3)[of x] Cons.prems(1) by (auto simp: null_free_def)
    then show ?thesis using Nil by (simp add: char_at_def)
  next
    case (Cons y b')
    have "strn_equal f a b' (length a) \<longleftrightarrow> (\<exists>r. map f b' = map f a @ r)"
      using Cons.prems \<open>b = _\<close> by (intro Cons.IH) (auto simp: null_free_def)
    moreover have "x \<noteq> CHR 0x00" using Cons.prems(1) by (auto simp: null_free_def)
    ultimately show ?thesis using \<open>b = _\<close> by (auto simp: char_at_def)
  qed
qed simp

lemma strncmp_equal_prefix:
  "null_free a \<Longrightarrow> null_free b \<Longrightarrow> strncmp_equal a b (length a) \<longleftrightarrow> (\<exists>r. b = a @ r)"
  using strn_equal_prefix[of a b id] by (simp add: strncmp_equal_def)

lemma tolower_null: "tolower c = tolower (CHR 0x00) \<Longrightarrow> c = CHR 0x00"
proof -
  assume eq: "tolower c = tolower (CHR 0x00)"
  have null_code: "of_char (CHR 0x00) = (0 :: nat)" by simp
  have z: "tolower (CHR 0x00) = CHR 0x00" by (simp add: tolower_def)
  show ?thesis
  proof (cases "65 \<le> (of_char c :: nat) \<and> (of_char c :: nat) \<le> 90")
    case True
    then have "(of_char c + 32 :: nat) mod 256 = 0"
      using eq z null_code by (metis of_char_of tolower_def)
    then show ?thesis using True by simp
  next
    case False
    then have "tolower c = c" unfolding tolower_def by (rule if_not_P)
    then show ?thesis using eq z by simp
  qed
qed

lemma strncasecmp_equal_prefix:
  "null_free a \<Longrightarrow> null_free b \<Longrightarrow> strncasecmp_equal a b (length a) \<longleftrightarrow> (\<exists>r. map tolower b = map tolower a @ r)"
  unfolding strncasecmp_equal_def by (rule strn_equal_prefix) (auto dest: tolower_null)

end
