(* ===== verification/Omni_Var.thy ===== *)
theory Omni_Var
  imports Omni_Prelude
begin

text \<open>
  The variables of \<open>src/extensions/omni_var\<close>: transactional variables (\<open>txn.c\<close>), session
  variables (\<open>session.c\<close>) and statement variables (\<open>statement.c\<close>).

  A \<open>Variable\<close> is an entry of a hash table keyed by name; its value is a chain of
  \<open>VariableValue\<close>s linked by \<open>previous\<close>, youngest subtransaction first.  A call of a SQL
  function is a \<open>call\<close>: its arguments and what it reads from PostgreSQL (type properties,
  transaction ids, the active portal, and the contents of uninitialised memory).
\<close>

section \<open>Data\<close>

datatype VariableValue = VariableValue
  (vv_isnull: bool)
  (vv_oid: Oid)
  (vv_subxactid: SubTransactionId)
  (vv_value: Datum)
  (vv_previous: "VariableValue option")

type_synonym var_name = string
type_synonym var_tab = "(var_name, VariableValue) htab"

record call =
  arg_name :: "var_name option"
  arg_value :: Datum
  arg_isnull :: bool
  fn_expr_argtype :: Oid
  get_typbyval :: "Oid \<Rightarrow> bool"
  get_typlen :: "Oid \<Rightarrow> int"
  detoast_datum :: "byte list \<Rightarrow> byte list"
  top_xid :: TransactionId
  current_subxid :: SubTransactionId
  portal_creation_time :: int
  uninitialised :: VariableValue

section \<open>Storing a value\<close>

text \<open>
  The copy of a by-reference argument into a memory context.  A negative length other than
  \<open>-1\<close> reaches \<open>palloc\<close> as a huge size, which it rejects.
\<close>

fun copy_by_ref :: "call \<Rightarrow> mcxt \<Rightarrow> Datum outcome" where
  "copy_by_ref c cxt =
     (case arg_value c of
        DWord w \<Rightarrow> Inl (Crash ''not a pointer'')
      | DPointer _ bytes \<Rightarrow>
          (let typlen = get_typlen c (fn_expr_argtype c) in
           if typlen = -1 then Inr (DPointer cxt (detoast_datum c bytes))
           else if typlen < 0 then elog_error ''invalid memory alloc request size''
           else Inr (DPointer cxt (take (nat typlen) bytes))))"

definition store_value :: "call \<Rightarrow> mcxt \<Rightarrow> VariableValue \<Rightarrow> Datum outcome" where
  "store_value c cxt vvar =
     (if get_typbyval c (fn_expr_argtype c) then Inr (arg_value c)
      else if \<not> arg_isnull c then copy_by_ref c cxt
      else Inr (vv_value vvar))"

definition returned :: "call \<Rightarrow> Datum \<Rightarrow> Datum option" where
  "returned c v = (if arg_isnull c then None else Some v)"

text \<open>What \<open>get\<close> does with the entry it found, or with none.\<close>

definition read_variable :: "call \<Rightarrow> VariableValue option \<Rightarrow> Datum option outcome" where
  "read_variable c found =
     (case found of
        None \<Rightarrow> Inr (returned c (arg_value c))
      | Some vvar \<Rightarrow>
          if vv_isnull vvar then Inr None
          else if vv_oid vvar \<noteq> fn_expr_argtype c then elog_error ''type mismatch''
          else Inr (Some (vv_value vvar)))"

section \<open>Transactional variables\<close>

record txn_state =
  last_used_txnid :: TransactionId
  current_tab :: "var_tab option"
  subtransaction_callback_registered :: bool
  transaction_callback_registered :: bool

definition txn_init :: txn_state where
  "txn_init = \<lparr> last_used_txnid = InvalidTransactionId, current_tab = None,
     subtransaction_callback_registered = False, transaction_callback_registered = False \<rparr>"

text \<open>The inner loop of the abort handler: the value to keep, or \<open>None\<close> to remove the entry.\<close>

fun restore_chain :: "SubTransactionId \<Rightarrow> VariableValue \<Rightarrow> VariableValue option" where
  "restore_chain xact_id (VariableValue n t s v None) =
     (if s \<ge> xact_id then None else Some (VariableValue n t s v None))"
| "restore_chain xact_id (VariableValue n t s v (Some p)) =
     (if s \<ge> xact_id then restore_chain xact_id p
      else Some (VariableValue n t s v (Some p)))"

definition subtransaction_callback ::
  "SubXactEvent \<Rightarrow> SubTransactionId \<Rightarrow> txn_state \<Rightarrow> txn_state" where
  "subtransaction_callback event xact_id st =
     (if event = SUBXACT_EVENT_ABORT_SUB then
        (case current_tab st of
           None \<Rightarrow> st
         | Some tab \<Rightarrow>
             st \<lparr> current_tab := Some (hash_seq_update (\<lambda>_. restore_chain xact_id) tab) \<rparr>)
      else st)"

definition transaction_callback :: "nat \<Rightarrow> XactEvent \<Rightarrow> txn_state \<Rightarrow> txn_state" where
  "transaction_callback pg_majorversion event st =
     (if event \<in> {XACT_EVENT_ABORT, XACT_EVENT_COMMIT, XACT_EVENT_PARALLEL_ABORT,
                  XACT_EVENT_PARALLEL_COMMIT}
      then
        (let st = st \<lparr> subtransaction_callback_registered := False \<rparr> in
         if transaction_callback_registered st \<and> pg_majorversion \<ge> 16
         then st \<lparr> transaction_callback_registered := False \<rparr>
         else st)
      else st)"

text \<open>The \<open>vvar\<close> that \<open>set\<close> is about to fill in, with its \<open>previous\<close> field set.\<close>

definition txn_slot :: "call \<Rightarrow> VariableValue option \<Rightarrow> VariableValue" where
  "txn_slot c entry =
     (let fresh = uninitialised c in
      case entry of
        Some vvar \<Rightarrow>
          if vv_subxactid vvar < current_subxid c
          then VariableValue (vv_isnull fresh) (vv_oid fresh) (vv_subxactid fresh)
                 (vv_value fresh) (Some vvar)
          else VariableValue (vv_isnull vvar) (vv_oid vvar) (vv_subxactid vvar)
                 (vv_value vvar) None
      | None \<Rightarrow>
          VariableValue (vv_isnull fresh) (vv_oid fresh) (vv_subxactid fresh)
            (vv_value fresh) None)"

definition txn_prepare :: "call \<Rightarrow> txn_state \<Rightarrow> txn_state" where
  "txn_prepare c st =
     (let st = st \<lparr> transaction_callback_registered := True,
                    subtransaction_callback_registered := True \<rparr> in
      if last_used_txnid st \<noteq> top_xid c
      then st \<lparr> current_tab := Some [], last_used_txnid := top_xid c \<rparr>
      else st)"

text \<open>
  \<open>set\<close>: the state after the call is returned with its outcome, because an error raised
  while copying leaves the entry that has just been entered in the table.
\<close>

definition set_txn :: "call \<Rightarrow> txn_state \<Rightarrow> Datum option outcome \<times> txn_state" where
  "set_txn c st =
     (case arg_name c of
        None \<Rightarrow> (elog_error ''variable name must not be a null'', st)
      | Some name \<Rightarrow>
          if fn_expr_argtype c = InvalidOid
          then (elog_error ''value type can't be inferred'', st)
          else
            (let st = txn_prepare c st in
             case current_tab st of
               None \<Rightarrow> (Inl (Crash ''current_tab is NULL''), st)
             | Some tab \<Rightarrow>
                 (let vvar = txn_slot c (hash_find tab name) in
                  case store_value c TopTransactionContext vvar of
                    Inl e \<Rightarrow> (Inl e, st \<lparr> current_tab := Some (hash_enter name vvar tab) \<rparr>)
                  | Inr v \<Rightarrow>
                      (Inr (returned c v),
                       st \<lparr> current_tab := Some (hash_enter name
                         (VariableValue (arg_isnull c) (fn_expr_argtype c) (current_subxid c)
                            v (vv_previous vvar)) tab) \<rparr>))))"

definition get_txn :: "call \<Rightarrow> txn_state \<Rightarrow> Datum option outcome" where
  "get_txn c st =
     (case arg_name c of
        None \<Rightarrow> elog_error ''variable name must not be a null''
      | Some name \<Rightarrow>
          if fn_expr_argtype c = InvalidOid
          then elog_error ''default value type can't be inferred''
          else if top_xid c = InvalidTransactionId \<or> last_used_txnid st \<noteq> top_xid c
          then read_variable c None
          else
            (case current_tab st of
               None \<Rightarrow> Inl (Crash ''current_tab is NULL'')
             | Some tab \<Rightarrow> read_variable c (hash_find tab name)))"

section \<open>Session variables\<close>

type_synonym session_state = "var_tab option"

text \<open>The value that \<open>set_session\<close> and \<open>set_statement\<close> fill in is never an existing one.\<close>

definition new_slot :: "call \<Rightarrow> VariableValue option \<Rightarrow> VariableValue" where
  "new_slot c entry =
     (let fresh = uninitialised c in
      case entry of
        Some _ \<Rightarrow> fresh
      | None \<Rightarrow>
          VariableValue (vv_isnull fresh) (vv_oid fresh) (vv_subxactid fresh)
            (vv_value fresh) None)"

definition fill_slot :: "call \<Rightarrow> Datum \<Rightarrow> VariableValue \<Rightarrow> VariableValue" where
  "fill_slot c v vvar =
     VariableValue (arg_isnull c) (fn_expr_argtype c) (vv_subxactid vvar) v (vv_previous vvar)"

definition set_in_tab :: "call \<Rightarrow> mcxt \<Rightarrow> var_name \<Rightarrow> var_tab \<Rightarrow> Datum option outcome \<times> var_tab"
  where
  "set_in_tab c cxt name tab =
     (let vvar = new_slot c (hash_find tab name) in
      case store_value c cxt vvar of
        Inl e \<Rightarrow> (Inl e, hash_enter name vvar tab)
      | Inr v \<Rightarrow> (Inr (returned c v), hash_enter name (fill_slot c v vvar) tab))"

definition set_session :: "call \<Rightarrow> session_state \<Rightarrow> Datum option outcome \<times> session_state" where
  "set_session c session_tab =
     (case arg_name c of
        None \<Rightarrow> (elog_error ''variable name must not be a null'', session_tab)
      | Some name \<Rightarrow>
          if fn_expr_argtype c = InvalidOid
          then (elog_error ''value type can't be inferred'', session_tab)
          else
            (let tab = (case session_tab of None \<Rightarrow> [] | Some t \<Rightarrow> t);
                 (r, tab') = set_in_tab c TopMemoryContext name tab
             in (r, Some tab')))"

definition get_session :: "call \<Rightarrow> session_state \<Rightarrow> Datum option outcome" where
  "get_session c session_tab =
     (case arg_name c of
        None \<Rightarrow> elog_error ''variable name must not be a null''
      | Some name \<Rightarrow>
          if fn_expr_argtype c = InvalidOid
          then elog_error ''default value type can't be inferred''
          else
            (case session_tab of
               None \<Rightarrow> read_variable c None
             | Some tab \<Rightarrow> read_variable c (hash_find tab name)))"

section \<open>Statement variables\<close>

record statement_state =
  statement_tab :: "var_tab option"
  last_portal :: int

definition set_statement ::
  "call \<Rightarrow> statement_state \<Rightarrow> Datum option outcome \<times> statement_state" where
  "set_statement c st =
     (case arg_name c of
        None \<Rightarrow> (elog_error ''variable name must not be a null'', st)
      | Some name \<Rightarrow>
          if fn_expr_argtype c = InvalidOid
          then (elog_error ''value type can't be inferred'', st)
          else
            (let tab = (case statement_tab st of
                          None \<Rightarrow> []
                        | Some t \<Rightarrow> if last_portal st \<noteq> portal_creation_time c then [] else t);
                 (r, tab') = set_in_tab c PortalContext name tab
             in (r, st \<lparr> statement_tab := Some tab', last_portal := portal_creation_time c \<rparr>)))"

definition get_statement :: "call \<Rightarrow> statement_state \<Rightarrow> Datum option outcome" where
  "get_statement c st =
     (case arg_name c of
        None \<Rightarrow> elog_error ''variable name must not be a null''
      | Some name \<Rightarrow>
          if fn_expr_argtype c = InvalidOid
          then elog_error ''default value type can't be inferred''
          else
            (case statement_tab st of
               None \<Rightarrow> read_variable c None
             | Some tab \<Rightarrow>
                 if last_portal st \<noteq> portal_creation_time c then read_variable c None
                 else read_variable c (hash_find tab name)))"

section \<open>The contract of a variable scope\<close>

text \<open>A call that neither omits an argument nor passes a value that cannot be copied.\<close>

definition call_ok :: "call \<Rightarrow> bool" where
  "call_ok c \<longleftrightarrow>
     arg_name c \<noteq> None \<and> fn_expr_argtype c \<noteq> InvalidOid \<and> top_xid c \<noteq> InvalidTransactionId \<and>
     (arg_isnull c \<or>
      (case arg_value c of
         DWord _ \<Rightarrow> get_typbyval c (fn_expr_argtype c)
       | DPointer _ _ \<Rightarrow> \<not> get_typbyval c (fn_expr_argtype c) \<and>
           get_typlen c (fn_expr_argtype c) \<ge> -1))"

text \<open>The datum a scope that allocates in \<open>cxt\<close> keeps for a non-null argument.\<close>

definition kept_value :: "call \<Rightarrow> mcxt \<Rightarrow> Datum" where
  "kept_value c cxt =
     (if get_typbyval c (fn_expr_argtype c) then arg_value c
      else case arg_value c of
             DWord w \<Rightarrow> DWord w
           | DPointer _ bytes \<Rightarrow>
               DPointer cxt (if get_typlen c (fn_expr_argtype c) = -1 then detoast_datum c bytes
                             else take (nat (get_typlen c (fn_expr_argtype c))) bytes))"

definition kept :: "call \<Rightarrow> mcxt \<Rightarrow> Datum option" where
  "kept c cxt = returned c (kept_value c cxt)"

lemma store_value_ok:
  assumes "call_ok c"
  shows "\<exists>v. store_value c cxt vvar = Inr v \<and> (\<not> arg_isnull c \<longrightarrow> v = kept_value c cxt)"
  using assms
  by (auto simp: store_value_def call_ok_def kept_value_def split: Datum.splits)

lemma store_valueE:
  assumes "call_ok c"
  obtains v where "store_value c cxt vvar = Inr v" "returned c v = kept c cxt"
    "\<not> arg_isnull c \<Longrightarrow> v = kept_value c cxt"
  using store_value_ok[OF assms, of cxt vvar] by (auto simp: kept_def returned_def)

lemma read_variable_None: "read_variable c None = Inr (returned c (arg_value c))"
  by (simp add: read_variable_def)

lemma read_variable_Some:
  "read_variable g (Some (VariableValue n t x v p)) =
     (if n then Inr None else if t \<noteq> fn_expr_argtype g then elog_error ''type mismatch''
      else Inr (Some v))"
  by (simp add: read_variable_def)

locale variable_scope =
  fixes setv :: "call \<Rightarrow> 's \<Rightarrow> Datum option outcome \<times> 's"
    and getv :: "call \<Rightarrow> 's \<Rightarrow> Datum option outcome"
    and same_scope :: "call \<Rightarrow> call \<Rightarrow> bool"
    and wf :: "'s \<Rightarrow> bool"
    and cxt :: mcxt
  assumes set_returns: "call_ok c \<Longrightarrow> wf s \<Longrightarrow> fst (setv c s) = Inr (kept c cxt)"
    and set_wf: "call_ok c \<Longrightarrow> wf s \<Longrightarrow> wf (snd (setv c s))"
    and get_same: "call_ok c \<Longrightarrow> wf s \<Longrightarrow> same_scope c g \<Longrightarrow> arg_name g = arg_name c \<Longrightarrow>
      fn_expr_argtype g = fn_expr_argtype c \<Longrightarrow> getv g (snd (setv c s)) = Inr (kept c cxt)"
    and get_mismatch: "call_ok c \<Longrightarrow> wf s \<Longrightarrow> same_scope c g \<Longrightarrow> arg_name g = arg_name c \<Longrightarrow>
      fn_expr_argtype g \<noteq> fn_expr_argtype c \<Longrightarrow> fn_expr_argtype g \<noteq> InvalidOid \<Longrightarrow>
      \<not> arg_isnull c \<Longrightarrow> getv g (snd (setv c s)) = elog_error ''type mismatch''"
    and get_other: "call_ok c \<Longrightarrow> wf s \<Longrightarrow> same_scope c g \<Longrightarrow> arg_name g \<noteq> arg_name c \<Longrightarrow>
      getv g (snd (setv c s)) = getv g s"
begin

lemma last_write_wins:
  assumes "call_ok c1" "call_ok c2" "wf s" "same_scope c2 g"
    and "arg_name g = arg_name c2" "fn_expr_argtype g = fn_expr_argtype c2"
  shows "getv g (snd (setv c2 (snd (setv c1 s)))) = Inr (kept c2 cxt)"
  using assms by (simp add: get_same set_wf)

lemma write_survives_other:
  assumes "call_ok c1" "call_ok c2" "wf s" "same_scope c1 g" "same_scope c2 g"
    and "arg_name g = arg_name c1" "fn_expr_argtype g = fn_expr_argtype c1"
    and "arg_name c2 \<noteq> arg_name c1"
  shows "getv g (snd (setv c2 (snd (setv c1 s)))) = Inr (kept c1 cxt)"
  using assms by (simp add: get_same get_other set_wf)

lemma retyped:
  assumes "call_ok c1" "call_ok c2" "wf s" "same_scope c2 g" "\<not> arg_isnull c2"
    and "arg_name g = arg_name c2" "arg_name c1 = arg_name c2"
    and "fn_expr_argtype g = fn_expr_argtype c1" "fn_expr_argtype c2 \<noteq> fn_expr_argtype c1"
  shows "getv g (snd (setv c2 (snd (setv c1 s)))) = elog_error ''type mismatch''"
  using assms call_ok_def[of c1] by (simp add: get_mismatch set_wf)

end

section \<open>The three scopes satisfy the contract\<close>

definition tab_wf :: "var_tab option \<Rightarrow> bool" where
  "tab_wf t = (case t of None \<Rightarrow> True | Some tab \<Rightarrow> hash_wf tab)"

definition txn_wf :: "txn_state \<Rightarrow> bool" where
  "txn_wf st \<longleftrightarrow>
     (last_used_txnid st = InvalidTransactionId \<or> current_tab st \<noteq> None) \<and> tab_wf (current_tab st)"

lemma set_in_tab_ok:
  assumes "call_ok c"
  obtains v where "set_in_tab c cxt name tab =
      (Inr (kept c cxt), hash_enter name (fill_slot c v (new_slot c (hash_find tab name))) tab)"
    "returned c v = kept c cxt"
proof -
  obtain v where "store_value c cxt (new_slot c (hash_find tab name)) = Inr v"
    "returned c v = kept c cxt"
    using store_valueE[OF assms] by blast
  then show thesis by (intro that[of v]) (simp_all add: set_in_tab_def)
qed

interpretation session: variable_scope set_session get_session "\<lambda>_ _. True" tab_wf TopMemoryContext
proof unfold_locales
  fix c g :: call and s :: session_state
  assume ok: "call_ok c" and wf: "tab_wf s"
  define tab where "tab = (case s of None \<Rightarrow> [] | Some t \<Rightarrow> t)"
  obtain name where name: "arg_name c = Some name" and ty: "fn_expr_argtype c \<noteq> InvalidOid"
    using ok by (auto simp: call_ok_def)
  obtain v where v: "set_in_tab c TopMemoryContext name tab =
      (Inr (kept c TopMemoryContext),
       hash_enter name (fill_slot c v (new_slot c (hash_find tab name))) tab)"
    "returned c v = kept c TopMemoryContext"
    using set_in_tab_ok[OF ok] by blast
  have set: "set_session c s = (Inr (kept c TopMemoryContext),
      Some (hash_enter name (fill_slot c v (new_slot c (hash_find tab name))) tab))"
    by (simp add: set_session_def name ty flip: tab_def) (simp add: v)
  show "fst (set_session c s) = Inr (kept c TopMemoryContext)" by (simp add: set)
  show "tab_wf (snd (set_session c s))"
    using wf by (auto simp: set tab_wf_def tab_def htab_simps split: option.splits)
  show "get_session g (snd (set_session c s)) = Inr (kept c TopMemoryContext)"
    if "arg_name g = arg_name c" "fn_expr_argtype g = fn_expr_argtype c"
    using that v(2)
    by (auto simp: set get_session_def name ty htab_simps fill_slot_def read_variable_Some
        returned_def split: if_splits)
  show "get_session g (snd (set_session c s)) = elog_error ''type mismatch''"
    if "arg_name g = arg_name c" "fn_expr_argtype g \<noteq> fn_expr_argtype c"
      "fn_expr_argtype g \<noteq> InvalidOid" "\<not> arg_isnull c"
    using that by (simp add: set get_session_def name htab_simps fill_slot_def read_variable_Some)
  show "get_session g (snd (set_session c s)) = get_session g s"
    if "arg_name g \<noteq> arg_name c"
    using that unfolding set get_session_def
    by (cases "arg_name g") (simp_all add: name htab_simps tab_def hash_find_empty split: option.split)
qed

interpretation statement: variable_scope set_statement get_statement
  "\<lambda>c g. portal_creation_time c = portal_creation_time g" "\<lambda>st. tab_wf (statement_tab st)"
  PortalContext
proof unfold_locales
  fix c g :: call and s :: statement_state
  assume ok: "call_ok c" and wf: "tab_wf (statement_tab s)"
  define tab where "tab = (case statement_tab s of None \<Rightarrow> []
    | Some t \<Rightarrow> if last_portal s \<noteq> portal_creation_time c then [] else t)"
  obtain name where name: "arg_name c = Some name" and ty: "fn_expr_argtype c \<noteq> InvalidOid"
    using ok by (auto simp: call_ok_def)
  obtain v where v: "set_in_tab c PortalContext name tab =
      (Inr (kept c PortalContext),
       hash_enter name (fill_slot c v (new_slot c (hash_find tab name))) tab)"
    "returned c v = kept c PortalContext"
    using set_in_tab_ok[OF ok] by blast
  have set: "set_statement c s = (Inr (kept c PortalContext),
      s \<lparr> statement_tab := Some (hash_enter name (fill_slot c v (new_slot c (hash_find tab name))) tab),
          last_portal := portal_creation_time c \<rparr>)"
    by (simp add: set_statement_def name ty flip: tab_def) (simp add: v)
  show "fst (set_statement c s) = Inr (kept c PortalContext)" by (simp add: set)
  show "tab_wf (statement_tab (snd (set_statement c s)))"
    using wf by (auto simp: set tab_wf_def tab_def htab_simps split: option.splits)
  assume portal: "portal_creation_time c = portal_creation_time g"
  show "get_statement g (snd (set_statement c s)) = Inr (kept c PortalContext)"
    if "arg_name g = arg_name c" "fn_expr_argtype g = fn_expr_argtype c"
    using that v(2) portal
    by (auto simp: set get_statement_def name ty htab_simps fill_slot_def read_variable_Some
        returned_def split: if_splits)
  show "get_statement g (snd (set_statement c s)) = elog_error ''type mismatch''"
    if "arg_name g = arg_name c" "fn_expr_argtype g \<noteq> fn_expr_argtype c"
      "fn_expr_argtype g \<noteq> InvalidOid" "\<not> arg_isnull c"
    using that portal
    by (simp add: set get_statement_def name htab_simps fill_slot_def read_variable_Some)
  show "get_statement g (snd (set_statement c s)) = get_statement g s"
    if "arg_name g \<noteq> arg_name c"
    using that unfolding set get_statement_def
    by (cases "arg_name g") (simp_all add: name portal htab_simps tab_def split: option.split)
qed

subsection \<open>Transactional variables\<close>

text \<open>What transaction \<open>t\<close> sees: an entry of the table when the table is its own.\<close>

definition txn_view :: "TransactionId \<Rightarrow> txn_state \<Rightarrow> var_name \<Rightarrow> VariableValue option" where
  "txn_view t st name =
     (if t \<noteq> InvalidTransactionId \<and> last_used_txnid st = t
      then case current_tab st of None \<Rightarrow> None | Some tab \<Rightarrow> hash_find tab name
      else None)"

lemma txn_view_own:
  "last_used_txnid st = t \<Longrightarrow> t \<noteq> InvalidTransactionId \<Longrightarrow>
   txn_view t (st \<lparr> current_tab := Some tab \<rparr>) = hash_find tab"
  by (simp add: txn_view_def fun_eq_iff)

lemma get_txn_view:
  assumes "txn_wf st"
  shows "get_txn g st =
     (case arg_name g of
        None \<Rightarrow> elog_error ''variable name must not be a null''
      | Some name \<Rightarrow>
          if fn_expr_argtype g = InvalidOid
          then elog_error ''default value type can't be inferred''
          else read_variable g (txn_view (top_xid g) st name))"
  using assms
  by (cases "arg_name g"; cases "current_tab st") (simp_all add: get_txn_def txn_view_def txn_wf_def)

lemma get_txn_cong:
  assumes "txn_wf st" "txn_wf st'" "txn_view (top_xid g) st = txn_view (top_xid g) st'"
  shows "get_txn g st = get_txn g st'"
  using assms by (cases "arg_name g") (simp_all add: get_txn_view)

text \<open>The whole effect of a successful \<open>set\<close> on what the transaction sees.\<close>

lemma set_txn_ok:
  assumes ok: "call_ok c" and wf: "txn_wf st" and name: "arg_name c = Some name"
  obtains v where
    "fst (set_txn c st) = Inr (kept c TopTransactionContext)"
    "txn_wf (snd (set_txn c st))"
    "last_used_txnid (snd (set_txn c st)) = top_xid c"
    "txn_view (top_xid c) (snd (set_txn c st)) =
       (txn_view (top_xid c) st)(name \<mapsto> VariableValue (arg_isnull c) (fn_expr_argtype c)
          (current_subxid c) v (vv_previous (txn_slot c (txn_view (top_xid c) st name))))"
    "returned c v = kept c TopTransactionContext"
    "\<not> arg_isnull c \<Longrightarrow> v = kept_value c TopTransactionContext"
proof -
  have ty: "fn_expr_argtype c \<noteq> InvalidOid" and xid: "top_xid c \<noteq> InvalidTransactionId"
    using ok by (auto simp: call_ok_def)
  define st1 where "st1 = txn_prepare c st"
  have last: "last_used_txnid st1 = top_xid c"
    by (simp add: st1_def txn_prepare_def Let_def)
  obtain tab where tab: "current_tab st1 = Some tab" and htab: "hash_wf tab"
    and view: "\<And>n. hash_find tab n = txn_view (top_xid c) st n"
  proof (cases "last_used_txnid st = top_xid c")
    case True
    then show thesis
      using wf xid that
      by (auto simp: st1_def txn_prepare_def txn_wf_def tab_wf_def txn_view_def)
  next
    case False
    then show thesis
      using that[of "[]"] by (simp add: st1_def txn_prepare_def txn_view_def htab_simps)
  qed
  obtain v where v: "store_value c TopTransactionContext
      (txn_slot c (txn_view (top_xid c) st name)) = Inr v"
    "returned c v = kept c TopTransactionContext"
    "\<not> arg_isnull c \<Longrightarrow> v = kept_value c TopTransactionContext"
    using store_valueE[OF ok] by blast
  have set: "set_txn c st = (Inr (returned c v), st1 \<lparr> current_tab := Some (hash_enter name
      (VariableValue (arg_isnull c) (fn_expr_argtype c) (current_subxid c) v
         (vv_previous (txn_slot c (txn_view (top_xid c) st name)))) tab) \<rparr>)"
    by (simp add: set_txn_def name ty tab view v Let_def flip: st1_def)
  have st': "txn_wf (snd (set_txn c st))" "last_used_txnid (snd (set_txn c st)) = top_xid c"
    by (simp_all add: set txn_wf_def tab_wf_def htab last xid htab_simps)
  have view': "txn_view (top_xid c) (snd (set_txn c st)) =
       (txn_view (top_xid c) st)(name \<mapsto> VariableValue (arg_isnull c) (fn_expr_argtype c)
          (current_subxid c) v (vv_previous (txn_slot c (txn_view (top_xid c) st name))))"
    unfolding set snd_conv txn_view_own[OF last xid] by (rule ext) (simp add: htab_simps view)
  have ret: "fst (set_txn c st) = Inr (kept c TopTransactionContext)"
    by (simp add: set v(2))
  show thesis by (rule that[OF ret st' view' v(2,3)])
qed

lemma set_txn_sees:
  assumes "call_ok c" "txn_wf st" "arg_name c = Some name"
  shows "\<exists>v. txn_wf (snd (set_txn c st)) \<and> txn_view (top_xid c) (snd (set_txn c st)) name =
    Some (VariableValue (arg_isnull c) (fn_expr_argtype c) (current_subxid c) v
      (vv_previous (txn_slot c (txn_view (top_xid c) st name))))"
  by (rule set_txn_ok[OF assms]) simp

interpretation txn: variable_scope set_txn get_txn "\<lambda>c g. top_xid c = top_xid g" txn_wf
  TopTransactionContext
proof unfold_locales
  fix c g :: call and s :: txn_state
  assume ok: "call_ok c" and wf: "txn_wf s"
  obtain name where name: "arg_name c = Some name" and ty: "fn_expr_argtype c \<noteq> InvalidOid"
    using ok by (auto simp: call_ok_def)
  obtain v where ret: "fst (set_txn c s) = Inr (kept c TopTransactionContext)"
    and wf': "txn_wf (snd (set_txn c s))"
    and view: "txn_view (top_xid c) (snd (set_txn c s)) =
       (txn_view (top_xid c) s)(name \<mapsto> VariableValue (arg_isnull c) (fn_expr_argtype c)
          (current_subxid c) v (vv_previous (txn_slot c (txn_view (top_xid c) s name))))"
    and v: "returned c v = kept c TopTransactionContext"
    using set_txn_ok[OF ok wf name] by blast
  show "fst (set_txn c s) = Inr (kept c TopTransactionContext)" "txn_wf (snd (set_txn c s))"
    by (fact ret) (fact wf')
  assume xid: "top_xid c = top_xid g"
  note get = get_txn_view[OF wf', of g] get_txn_view[OF wf, of g] view[unfolded xid]
  show "get_txn g (snd (set_txn c s)) = Inr (kept c TopTransactionContext)"
    if "arg_name g = arg_name c" "fn_expr_argtype g = fn_expr_argtype c"
    using that v by (auto simp: get name ty read_variable_Some returned_def split: if_splits)
  show "get_txn g (snd (set_txn c s)) = elog_error ''type mismatch''"
    if "arg_name g = arg_name c" "fn_expr_argtype g \<noteq> fn_expr_argtype c"
      "fn_expr_argtype g \<noteq> InvalidOid" "\<not> arg_isnull c"
    using that by (simp add: get name read_variable_Some)
  show "get_txn g (snd (set_txn c s)) = get_txn g s" if "arg_name g \<noteq> arg_name c"
    using that by (cases "arg_name g") (simp_all add: get name)
qed

section \<open>Subtransactions\<close>

text \<open>
  The chain of a variable: subtransaction ids strictly decrease along \<open>previous\<close>, and a
  by-reference value of a variable that is not null lives as long as the table.
\<close>

fun chain_ok :: "VariableValue \<Rightarrow> bool" where
  "chain_ok (VariableValue n t s v None) = True"
| "chain_ok (VariableValue n t s v (Some p)) = (vv_subxactid p < s \<and> chain_ok p)"

fun chain_lives :: "VariableValue \<Rightarrow> bool" where
  "chain_lives (VariableValue n t s v p) =
     ((n \<or> (case v of DWord _ \<Rightarrow> True | DPointer cxt _ \<Rightarrow> cxt = TopTransactionContext)) \<and>
      (case p of None \<Rightarrow> True | Some q \<Rightarrow> chain_lives q))"

definition txn_inv :: "txn_state \<Rightarrow> bool" where
  "txn_inv st \<longleftrightarrow> txn_wf st \<and>
     (case current_tab st of
        None \<Rightarrow> True
      | Some tab \<Rightarrow> list_all (\<lambda>(_, vvar). chain_ok vvar \<and> chain_lives vvar) tab)"

lemma restore_chain_below:
  "restore_chain x vvar = Some w \<Longrightarrow> vv_subxactid w < x"
  by (induction x vvar rule: restore_chain.induct) (auto split: if_splits)

lemma restore_chain_keeps:
  "vv_subxactid vvar < x \<Longrightarrow> restore_chain x vvar = Some vvar"
  by (induction x vvar rule: restore_chain.induct) auto

lemma restore_chain_ok:
  "restore_chain x vvar = Some w \<Longrightarrow> chain_ok vvar \<and> chain_lives vvar \<Longrightarrow> chain_ok w \<and> chain_lives w"
  by (induction x vvar rule: restore_chain.induct) (auto split: if_splits)

lemma restore_chain_nested:
  assumes "x \<le> y"
  shows "Option.bind (restore_chain y vvar) (restore_chain x) = restore_chain x vvar"
  using assms by (induction y vvar rule: restore_chain.induct) auto

lemma restore_chain_push:
  "x \<le> s \<Longrightarrow> restore_chain x (VariableValue n t s v p) = Option.bind p (restore_chain x)"
  by (cases p) auto

definition abort_sub :: "SubTransactionId \<Rightarrow> txn_state \<Rightarrow> txn_state" where
  "abort_sub x st = subtransaction_callback SUBXACT_EVENT_ABORT_SUB x st"

lemma abort_sub_view:
  assumes "txn_wf st"
  shows "txn_view t (abort_sub x st) n = Option.bind (txn_view t st n) (restore_chain x)"
    and "txn_wf (abort_sub x st)"
  using assms
  by (auto simp: abort_sub_def subtransaction_callback_def txn_view_def txn_wf_def tab_wf_def
      hash_find_seq_update hash_wf_seq_update split: option.splits)

text \<open>
  Whether a \<open>set\<close> made in a subtransaction that started at \<open>x\<close> or later leaves the value that
  an abort of \<open>x\<close> has to restore in the chain.
\<close>

definition keeps_outer :: "SubTransactionId \<Rightarrow> call \<Rightarrow> txn_state \<Rightarrow> bool" where
  "keeps_outer x c st =
     (case arg_name c of
        None \<Rightarrow> True
      | Some name \<Rightarrow>
          (case txn_view (top_xid c) st name of
             None \<Rightarrow> True
           | Some vvar \<Rightarrow>
               vv_subxactid vvar < current_subxid c \<or> restore_chain x vvar = None))"

text \<open>What happens between the start of subtransaction \<open>x\<close> of transaction \<open>t\<close> and its abort.\<close>

inductive sub_run :: "TransactionId \<Rightarrow> SubTransactionId \<Rightarrow> txn_state \<Rightarrow> txn_state \<Rightarrow> bool"
  for t :: TransactionId and x :: SubTransactionId and s :: txn_state where
  sub_start: "sub_run t x s s"
| sub_set: "sub_run t x s s1 \<Longrightarrow> call_ok c \<Longrightarrow> top_xid c = t \<Longrightarrow> x \<le> current_subxid c \<Longrightarrow>
    keeps_outer x c s1 \<Longrightarrow> sub_run t x s (snd (set_txn c s1))"
| sub_abort: "sub_run t x s s1 \<Longrightarrow> x \<le> y \<Longrightarrow> sub_run t x s (abort_sub y s1)"

lemma set_then_abort:
  assumes ok: "call_ok c" and wf: "txn_wf s" and x: "x \<le> current_subxid c"
    and keeps: "keeps_outer x c s"
  shows "txn_view (top_xid c) (abort_sub x (snd (set_txn c s))) = txn_view (top_xid c) (abort_sub x s)"
proof -
  obtain name where name: "arg_name c = Some name" using ok by (auto simp: call_ok_def)
  obtain v where wf': "txn_wf (snd (set_txn c s))"
    and view: "txn_view (top_xid c) (snd (set_txn c s)) =
       (txn_view (top_xid c) s)(name \<mapsto> VariableValue (arg_isnull c) (fn_expr_argtype c)
          (current_subxid c) v (vv_previous (txn_slot c (txn_view (top_xid c) s name))))"
    using set_txn_ok[OF ok wf name] by blast
  have "Option.bind (vv_previous (txn_slot c (txn_view (top_xid c) s name))) (restore_chain x) =
        Option.bind (txn_view (top_xid c) s name) (restore_chain x)"
    using keeps
    by (cases "txn_view (top_xid c) s name") (auto simp: txn_slot_def Let_def keeps_outer_def name)
  then show ?thesis
    by (intro ext) (simp add: abort_sub_view wf wf' view restore_chain_push x)
qed

lemma sub_run_restores:
  assumes "sub_run t x s s'" "txn_wf s"
  shows "txn_wf s' \<and> txn_view t (abort_sub x s') = txn_view t (abort_sub x s)"
  using assms
proof (induction rule: sub_run.induct)
  case (sub_set s1 c)
  then show ?case using txn.set_wf set_then_abort by metis
next
  case (sub_abort s1 y)
  then have wf: "txn_wf s1" and IH: "txn_view t (abort_sub x s1) = txn_view t (abort_sub x s)"
    by auto
  have "txn_view t (abort_sub x (abort_sub y s1)) = txn_view t (abort_sub x s1)"
    by (intro ext)
      (simp add: abort_sub_view wf Option.bind_assoc restore_chain_nested[OF \<open>x \<le> y\<close>])
  with IH wf show ?case by (simp add: abort_sub_view)
qed simp

text \<open>Every state that calls and transaction events lead to.\<close>

inductive txn_reach :: "txn_state \<Rightarrow> bool" where
  reach_init: "txn_reach txn_init"
| reach_set: "txn_reach s \<Longrightarrow> call_ok c \<Longrightarrow> txn_reach (snd (set_txn c s))"
| reach_sub: "txn_reach s \<Longrightarrow> txn_reach (subtransaction_callback ev x s)"
| reach_xact: "txn_reach s \<Longrightarrow> txn_reach (transaction_callback pg ev' s)"

abbreviation value_ok :: "VariableValue \<Rightarrow> bool" where
  "value_ok vvar \<equiv> chain_ok vvar \<and> chain_lives vvar"

lemma txn_inv_view:
  assumes "last_used_txnid st \<noteq> InvalidTransactionId"
  shows "txn_inv st \<longleftrightarrow>
    txn_wf st \<and> (\<forall>n vvar. txn_view (last_used_txnid st) st n = Some vvar \<longrightarrow> value_ok vvar)"
  using assms
  by (cases "current_tab st") (auto simp: txn_inv_def txn_view_def txn_wf_def tab_wf_def hash_all_iff)

lemma txn_inv_value:
  "txn_inv st \<Longrightarrow> txn_view t st n = Some vvar \<Longrightarrow> value_ok vvar"
  by (auto simp: txn_inv_def txn_view_def txn_wf_def tab_wf_def hash_all_iff
      split: if_splits option.splits)

lemma txn_inv_set:
  assumes ok: "call_ok c" and inv: "txn_inv s"
  shows "txn_inv (snd (set_txn c s))"
proof -
  have wf: "txn_wf s" using inv by (simp add: txn_inv_def)
  obtain name where name: "arg_name c = Some name" and xid: "top_xid c \<noteq> InvalidTransactionId"
    using ok by (auto simp: call_ok_def)
  obtain v where wf': "txn_wf (snd (set_txn c s))"
    and last: "last_used_txnid (snd (set_txn c s)) = top_xid c"
    and view: "txn_view (top_xid c) (snd (set_txn c s)) =
       (txn_view (top_xid c) s)(name \<mapsto> VariableValue (arg_isnull c) (fn_expr_argtype c)
          (current_subxid c) v (vv_previous (txn_slot c (txn_view (top_xid c) s name))))"
    and v: "\<not> arg_isnull c \<Longrightarrow> v = kept_value c TopTransactionContext"
    using set_txn_ok[OF ok wf name] by blast
  have lives: "arg_isnull c \<or> (case v of DWord _ \<Rightarrow> True
      | DPointer cxt _ \<Rightarrow> cxt = TopTransactionContext)"
    using ok v
    by (cases "arg_isnull c") (auto simp: call_ok_def kept_value_def split: Datum.splits)
  have "value_ok (VariableValue (arg_isnull c) (fn_expr_argtype c) (current_subxid c) v
      (vv_previous (txn_slot c (txn_view (top_xid c) s name))))"
    using lives txn_inv_value[OF inv, of "top_xid c" name]
    by (cases "txn_view (top_xid c) s name") (auto simp: txn_slot_def Let_def)
  then show ?thesis
    using txn_inv_value[OF inv] by (auto simp: txn_inv_view last xid wf' view)
qed

lemma txn_inv_sub:
  assumes "txn_inv s"
  shows "txn_inv (subtransaction_callback ev x s)"
  using assms hash_wf_seq_update
  by (auto simp: txn_inv_def subtransaction_callback_def txn_wf_def tab_wf_def hash_all_iff
      hash_find_seq_update hash_wf_seq_update bind_eq_Some_conv dest: restore_chain_ok
      split: option.splits)

lemma txn_inv_xact:
  "txn_inv s \<Longrightarrow> txn_inv (transaction_callback pg ev s)"
  by (simp add: txn_inv_def transaction_callback_def txn_wf_def Let_def)

section \<open>Properties\<close>

text \<open>
  C6: rolling back to a savepoint restores the variables.  Let transaction \<open>t\<close> see only values
  set before subtransaction \<open>x\<close> started, then run any calls of \<open>set\<close> in \<open>x\<close> or in
  subtransactions started after it (and any aborts of the latter) where no call overwrites
  in place a value that hides an older one.  After the abort of \<open>x\<close>, every \<open>get\<close> in \<open>t\<close>
  answers what it answered before \<open>x\<close> started.
\<close>
theorem abort_restores_variables:
  assumes "txn_wf s" "\<forall>n vvar. txn_view t s n = Some vvar \<longrightarrow> vv_subxactid vvar < x"
    and "sub_run t x s s'" "top_xid g = t"
  shows "get_txn g (subtransaction_callback SUBXACT_EVENT_ABORT_SUB x s') = get_txn g s"
proof -
  have "Option.bind (txn_view t s n) (restore_chain x) = txn_view t s n" for n
    using assms(2) by (cases "txn_view t s n") (auto simp: restore_chain_keeps)
  then have "txn_view t (abort_sub x s) = txn_view t s"
    using assms(1) by (simp add: abort_sub_view fun_eq_iff)
  with sub_run_restores[OF assms(3,1)] show ?thesis
    unfolding abort_sub_def[symmetric] using assms by (intro get_txn_cong) (auto simp: abort_sub_view)
qed

text \<open>
  Two calls of \<open>set\<close> on the same variable in one subtransaction lose the value the variable
  had outside of it.  After one call the abort restores the outer value; after a second call
  in the same subtransaction the abort leaves no variable, and \<open>get\<close> answers its default.
\<close>
theorem second_set_loses_outer_value:
  assumes "txn_wf s" "call_ok c1" "call_ok c2" "top_xid c1 = t" "top_xid c2 = t" "top_xid g = t"
    and "arg_name c1 = Some n" "arg_name c2 = Some n" "arg_name g = Some n"
    and "current_subxid c1 = x" "current_subxid c2 = x" "fn_expr_argtype g \<noteq> InvalidOid"
    and "txn_view t s n = Some outer" "vv_subxactid outer < x"
  shows "get_txn g (abort_sub x (snd (set_txn c1 s))) = read_variable g (Some outer)
    \<and> get_txn g (abort_sub x (snd (set_txn c2 (snd (set_txn c1 s))))) = read_variable g None"
proof -
  let ?s1 = "snd (set_txn c1 s)"
  let ?s2 = "snd (set_txn c2 ?s1)"
  obtain v1 where wf1: "txn_wf ?s1" and view1: "txn_view t ?s1 n =
      Some (VariableValue (arg_isnull c1) (fn_expr_argtype c1) x v1
        (vv_previous (txn_slot c1 (txn_view t s n))))"
    using set_txn_sees[OF assms(2,1,7)] assms(4,10) by blast
  obtain v2 where wf2: "txn_wf ?s2" and view2: "txn_view t ?s2 n =
      Some (VariableValue (arg_isnull c2) (fn_expr_argtype c2) x v2
        (vv_previous (txn_slot c2 (txn_view t ?s1 n))))"
    using set_txn_sees[OF assms(3) wf1 assms(8)] assms(5,11) by blast
  note views = view1 view2[unfolded view1] txn_slot_def Let_def
  show ?thesis
    using assms by (simp add: get_txn_view abort_sub_view wf1 wf2 views restore_chain_keeps)
qed

text \<open>
  In every state that calls and transaction events lead to, the table of transactional
  variables has no duplicate names, exists whenever a transaction has used it, keeps the
  values of each variable in strictly decreasing order of subtransaction, and refers to no
  memory shorter-lived than the transaction.
\<close>
theorem txn_invariant: "txn_reach st \<Longrightarrow> txn_inv st"
proof (induction rule: txn_reach.induct)
  case reach_init
  show ?case by (simp add: txn_inv_def txn_init_def txn_wf_def tab_wf_def)
qed (auto intro: txn_inv_set txn_inv_sub txn_inv_xact)

text \<open>
  In each of the three scopes, the last \<open>set\<close> wins.  After any two calls of \<open>set\<close>, a \<open>get\<close>
  with the name and the type of the second one, made in the same transaction (the same
  portal for a statement variable), answers the value of the second one, copied into the
  memory context of the scope.
\<close>
theorem last_set_wins:
  assumes "call_ok c1" "call_ok c2" "txn_wf s" "tab_wf session" "tab_wf (statement_tab stmt)"
    and "top_xid c2 = top_xid g" "portal_creation_time c2 = portal_creation_time g"
    and "arg_name g = arg_name c2" "fn_expr_argtype g = fn_expr_argtype c2"
  shows "get_txn g (snd (set_txn c2 (snd (set_txn c1 s)))) = Inr (kept c2 TopTransactionContext)
    \<and> get_session g (snd (set_session c2 (snd (set_session c1 session)))) =
        Inr (kept c2 TopMemoryContext)
    \<and> get_statement g (snd (set_statement c2 (snd (set_statement c1 stmt)))) =
        Inr (kept c2 PortalContext)"
  using assms txn.last_write_wins session.last_write_wins statement.last_write_wins by simp

text \<open>
  In each of the three scopes, setting a variable does not disturb another one: the
  value of the first \<open>set\<close> is still there after a \<open>set\<close> of a variable with another name.
\<close>
theorem set_keeps_other_variables:
  assumes "call_ok c1" "call_ok c2" "txn_wf s" "tab_wf session" "tab_wf (statement_tab stmt)"
    and "top_xid c1 = top_xid g" "top_xid c2 = top_xid g"
    and "portal_creation_time c1 = portal_creation_time g"
    and "portal_creation_time c2 = portal_creation_time g"
    and "arg_name g = arg_name c1" "fn_expr_argtype g = fn_expr_argtype c1"
    and "arg_name c2 \<noteq> arg_name c1"
  shows "get_txn g (snd (set_txn c2 (snd (set_txn c1 s)))) = Inr (kept c1 TopTransactionContext)
    \<and> get_session g (snd (set_session c2 (snd (set_session c1 session)))) =
        Inr (kept c1 TopMemoryContext)
    \<and> get_statement g (snd (set_statement c2 (snd (set_statement c1 stmt)))) =
        Inr (kept c1 PortalContext)"
  using assms txn.write_survives_other session.write_survives_other
    statement.write_survives_other by simp

text \<open>
  Which transaction ends detach the subtransaction handler.  After a commit or an abort
  it is unregistered; after \<open>XACT_EVENT_PREPARE\<close> it stays registered together with the table
  of the transaction that has been prepared, whose memory is gone by then.
\<close>
theorem prepare_leaves_handler_registered:
  "(subtransaction_callback_registered (transaction_callback pg ev s) \<longleftrightarrow>
     subtransaction_callback_registered s \<and>
     ev \<notin> {XACT_EVENT_ABORT, XACT_EVENT_COMMIT, XACT_EVENT_PARALLEL_ABORT,
            XACT_EVENT_PARALLEL_COMMIT})
   \<and> transaction_callback pg XACT_EVENT_PREPARE s = s"
  by (simp add: transaction_callback_def Let_def)

section \<open>Witnesses\<close>

definition int4_call :: "var_name \<Rightarrow> 64 word \<Rightarrow> SubTransactionId \<Rightarrow> call" where
  "int4_call name w x = \<lparr> arg_name = Some name, arg_value = DWord w, arg_isnull = False,
     fn_expr_argtype = 23, get_typbyval = (\<lambda>_. True), get_typlen = (\<lambda>_. 4),
     detoast_datum = (\<lambda>bs. bs), top_xid = 7, current_subxid = x, portal_creation_time = 0,
     uninitialised = VariableValue False 0 0 (DWord 0) None \<rparr>"

definition txn_a1 :: txn_state where
  "txn_a1 = snd (set_txn (int4_call ''a'' 1 1) txn_init)"

lemma int4_call_ok: "call_ok (int4_call n w x)"
  by (simp add: call_ok_def int4_call_def)

lemma txn_a1_wf: "txn_wf txn_a1"
  unfolding txn_a1_def
  by (intro txn.set_wf int4_call_ok) (simp add: txn_init_def txn_wf_def tab_wf_def)

lemma txn_a1_view:
  "txn_view 7 txn_a1 n =
     (if n = ''a'' then Some (VariableValue False 23 1 (DWord 1) None) else None)"
  by (simp add: txn_view_def txn_a1_def set_txn_def int4_call_def txn_prepare_def txn_init_def
      txn_slot_def store_value_def Let_def htab_simps)

theorem abort_restores_variables_witness:
  "get_txn (int4_call ''a'' 0 1)
     (subtransaction_callback SUBXACT_EVENT_ABORT_SUB 2 (snd (set_txn (int4_call ''a'' 2 2) txn_a1)))
   = Inr (Some (DWord 1))"
proof -
  have "sub_run 7 2 txn_a1 (snd (set_txn (int4_call ''a'' 2 2) txn_a1))"
    by (intro sub_run.intros int4_call_ok)
      (simp_all add: keeps_outer_def int4_call_def txn_a1_view)
  from abort_restores_variables[OF txn_a1_wf _ this, of "int4_call ''a'' 0 1"] show ?thesis
    by (simp add: txn_a1_view get_txn_view txn_a1_wf int4_call_def read_variable_def)
qed

theorem second_set_loses_outer_value_witness:
  "get_txn (int4_call ''a'' 0 2)
     (abort_sub 2 (snd (set_txn (int4_call ''a'' 3 2) (snd (set_txn (int4_call ''a'' 2 2) txn_a1)))))
   = Inr (Some (DWord 0))"
  using second_set_loses_outer_value[where s = txn_a1 and t = 7 and x = 2 and n = "''a''"
      and ?c1.0 = "int4_call ''a'' 2 2" and ?c2.0 = "int4_call ''a'' 3 2"
      and g = "int4_call ''a'' 0 2", OF txn_a1_wf int4_call_ok int4_call_ok]
  by (simp add: int4_call_def txn_a1_view read_variable_def returned_def)

theorem txn_invariant_witness: "txn_inv txn_a1"
  unfolding txn_a1_def by (intro txn_invariant txn_reach.intros int4_call_ok)

theorem last_set_wins_witness:
  "get_session (int4_call ''a'' 0 1) (snd (set_session (int4_call ''a'' 5 1)
     (snd (set_session (int4_call ''a'' 4 1) None)))) = Inr (Some (DWord 5))"
  using last_set_wins[where ?c1.0 = "int4_call ''a'' 4 1" and ?c2.0 = "int4_call ''a'' 5 1"
      and session = None and stmt = "\<lparr> statement_tab = None, last_portal = 0 \<rparr>"
      and g = "int4_call ''a'' 0 1", OF int4_call_ok int4_call_ok txn_a1_wf]
  by (simp add: int4_call_def tab_wf_def kept_def returned_def kept_value_def)

theorem set_keeps_other_variables_witness:
  "get_session (int4_call ''a'' 0 1) (snd (set_session (int4_call ''b'' 5 1)
     (snd (set_session (int4_call ''a'' 4 1) None)))) = Inr (Some (DWord 4))"
  using set_keeps_other_variables[where ?c1.0 = "int4_call ''a'' 4 1" and ?c2.0 = "int4_call ''b'' 5 1"
      and session = None and stmt = "\<lparr> statement_tab = None, last_portal = 0 \<rparr>"
      and g = "int4_call ''a'' 0 1", OF int4_call_ok int4_call_ok txn_a1_wf]
  by (simp add: int4_call_def tab_wf_def kept_def returned_def kept_value_def)

end
