(* ===== verification/Omni_Hooks.thy ===== *)
theory Omni_Hooks
  imports Omni_Prelude
begin

text \<open>
  The hook harness of the \<open>omni\<close> loader: \<open>src/extensions/omni/hook_harness.c\<close>, with
  \<open>register_hook\<close> of \<open>omni.c\<close> and the default entry points set up by \<open>_PG_init\<close> in \<open>init.c\<close>.

  For each type of hook there is an array of entry points (\<open>None\<close> is the null pointer); the
  count kept beside it is the length of the list.  The function a hook points to is code of
  another module: hooks carry an identifier, and \<open>invoke\<close>, an argument of the operations that
  call hooks, says what the function with that identifier does to the hook handle and to
  the rest of the world \<open>'e\<close>.
\<close>

section \<open>Data\<close>

type_synonym fn_ptr = nat
type_synonym module_ptr = nat
type_synonym void_ptr = "64 word"

abbreviation NULL :: void_ptr where "NULL \<equiv> 0"

datatype hook_next_action = hook_next_action_finish | hook_next_action_next

record omni_hook_handle =
  hh_handle :: "module_ptr option"
  hh_ctx :: void_ptr
  hh_next_action :: hook_next_action
  hh_returns :: void_ptr

record hook_entry_point =
  ep_handle :: "module_ptr option"
  ep_fn :: fn_ptr
  ep_state_index :: int
  ep_name :: string

record omni_hook =
  hook_type :: nat
  hook_fn :: fn_ptr
  hook_name :: string
  hook_wrap :: bool

text \<open>The array of entry points of each hook type.\<close>

type_synonym hook_entry_points_t = "nat \<Rightarrow> hook_entry_point list option"

text \<open>The hook types that the harness dispatches, with their numbers in \<open>omni_v0.h\<close>.\<close>

definition omni_hook_emit_log :: nat where "omni_hook_emit_log = 0"
definition omni_hook_check_password :: nat where "omni_hook_check_password = 1"
definition omni_hook_needs_fmgr :: nat where "omni_hook_needs_fmgr = 6"
definition omni_hook_planner :: nat where "omni_hook_planner = 14"
definition omni_hook_executor_start :: nat where "omni_hook_executor_start = 20"
definition omni_hook_executor_run :: nat where "omni_hook_executor_run = 21"
definition omni_hook_executor_finish :: nat where "omni_hook_executor_finish = 22"
definition omni_hook_executor_end :: nat where "omni_hook_executor_end = 23"
definition omni_hook_process_utility :: nat where "omni_hook_process_utility = 24"
definition omni_hook_xact_callback :: nat where "omni_hook_xact_callback = 25"

lemmas hook_type_defs =
  omni_hook_emit_log_def omni_hook_check_password_def omni_hook_needs_fmgr_def
  omni_hook_planner_def omni_hook_executor_start_def omni_hook_executor_run_def
  omni_hook_executor_finish_def omni_hook_executor_end_def omni_hook_process_utility_def
  omni_hook_xact_callback_def

section \<open>Default entry points\<close>

text \<open>
  The types that get a default entry when the library is preloaded: the ones PostgreSQL has a
  standard implementation for, and three more if a hook of another library was saved.
\<close>

definition has_default_hook :: "(nat \<Rightarrow> fn_ptr option) \<Rightarrow> nat \<Rightarrow> bool" where
  "has_default_hook saved_hooks type \<longleftrightarrow>
     type \<in> {omni_hook_planner, omni_hook_executor_start, omni_hook_executor_run,
             omni_hook_executor_finish, omni_hook_executor_end, omni_hook_process_utility} \<or>
     type \<in> {omni_hook_needs_fmgr, omni_hook_emit_log, omni_hook_check_password} \<and>
       saved_hooks type \<noteq> None"

definition init_entry_points ::
  "(nat \<Rightarrow> fn_ptr option) \<Rightarrow> (nat \<Rightarrow> fn_ptr) \<Rightarrow> hook_entry_points_t" where
  "init_entry_points saved_hooks default_hooks type =
     (if has_default_hook saved_hooks type
      then Some [\<lparr> ep_handle = None, ep_fn = default_hooks type, ep_state_index = 0,
                   ep_name = ''default'' \<rparr>]
      else None)"

text \<open>What the default entry of a type calls.\<close>

datatype default_target =
    SavedHook fn_ptr
  | StandardFunction nat
  | NoFunction

definition default_hook_target :: "(nat \<Rightarrow> fn_ptr option) \<Rightarrow> nat \<Rightarrow> default_target" where
  "default_hook_target saved_hooks type =
     (case saved_hooks type of
        Some f \<Rightarrow> SavedHook f
      | None \<Rightarrow>
          if type \<in> {omni_hook_emit_log, omni_hook_check_password, omni_hook_needs_fmgr}
          then NoFunction else StandardFunction type)"

section \<open>Registering a hook\<close>

definition append_entry :: "module_ptr \<Rightarrow> omni_hook \<Rightarrow> hook_entry_point list \<Rightarrow> hook_entry_point list"
  where
  "append_entry handle hook eps =
     eps @ [\<lparr> ep_handle = Some handle, ep_fn = hook_fn hook, ep_state_index = int (length eps),
              ep_name = hook_name hook \<rparr>]"

text \<open>The front element of a wrapping hook and the shifted old elements.\<close>

definition prepend_entry :: "module_ptr \<Rightarrow> omni_hook \<Rightarrow> hook_entry_point list \<Rightarrow> hook_entry_point list"
  where
  "prepend_entry handle hook eps =
     \<lparr> ep_handle = Some handle, ep_fn = hook_fn hook, ep_state_index = int (length eps) + 1,
       ep_name = hook_name hook \<rparr> # map (ep_state_index_update (\<lambda>s. s + 1)) eps"

definition register_hook ::
  "module_ptr \<Rightarrow> omni_hook \<Rightarrow> hook_entry_points_t \<Rightarrow> hook_entry_points_t outcome" where
  "register_hook handle hook heps =
     (if hook_wrap hook then
        (case heps (hook_type hook) of
           None \<Rightarrow> Inl (Crash ''pfree of a null pointer'')
         | Some eps \<Rightarrow>
             Inr (heps(hook_type hook \<mapsto> append_entry handle hook (prepend_entry handle hook eps))))
      else
        (let eps = (case heps (hook_type hook) of None \<Rightarrow> [] | Some eps \<Rightarrow> eps) in
         Inr (heps(hook_type hook \<mapsto> append_entry handle hook eps))))"

section \<open>Removing the hooks of unloaded modules\<close>

definition unloaded :: "module_ptr list \<Rightarrow> hook_entry_point \<Rightarrow> bool" where
  "unloaded initialized_modules hook =
     (case ep_handle hook of None \<Rightarrow> False | Some h \<Rightarrow> h \<notin> set initialized_modules)"

definition reindex :: "nat \<times> hook_entry_point \<Rightarrow> hook_entry_point" where
  "reindex je =
     (case je of (j, e) \<Rightarrow>
        if ep_state_index e \<ge> int j then e \<lparr> ep_state_index := ep_state_index e - 1 \<rparr> else e)"

definition remove_entry :: "nat \<Rightarrow> hook_entry_point list \<Rightarrow> hook_entry_point list" where
  "remove_entry i eps = take i eps @ map reindex (List.enumerate (Suc i) (drop (Suc i) eps))"

lemma length_remove_entry [simp]:
  "i < length eps \<Longrightarrow> length (remove_entry i eps) = length eps - 1"
  by (simp add: remove_entry_def)

function reorganize_type ::
  "module_ptr list \<Rightarrow> nat \<Rightarrow> hook_entry_point list \<Rightarrow> hook_entry_point list" where
  "reorganize_type ms i eps =
     (if i < length eps then
        (if unloaded ms (eps ! i) then reorganize_type ms i (remove_entry i eps)
         else reorganize_type ms (Suc i) eps)
      else eps)"
  by pat_completeness auto
termination by (relation "measure (\<lambda>(_, i, eps). length eps - i)") auto

declare reorganize_type.simps [simp del]

definition reorganize_hooks :: "module_ptr list \<Rightarrow> hook_entry_points_t \<Rightarrow> hook_entry_points_t" where
  "reorganize_hooks initialized_modules heps =
     (\<lambda>type. map_option (reorganize_type initialized_modules 0) (heps type))"

section \<open>Running the hooks\<close>

text \<open>
  \<open>iterate_hooks\<close>: from the last entry to the first; \<open>ctxs\<close> is the array of contexts (its
  initial content is arbitrary), \<open>retval\<close> the return value carried from hook to hook.  The
  flag of the result says whether a hook asked to finish.
\<close>

type_synonym 'e invoke = "fn_ptr \<Rightarrow> omni_hook_handle \<Rightarrow> 'e \<Rightarrow> omni_hook_handle \<times> 'e"

fun iterate_from ::
  "'e invoke \<Rightarrow> hook_entry_point list \<Rightarrow> nat \<Rightarrow> void_ptr list \<Rightarrow> void_ptr \<Rightarrow> 'e \<Rightarrow>
   (bool \<times> void_ptr \<times> 'e) outcome" where
  "iterate_from invoke eps 0 ctxs retval e = Inr (False, retval, e)"
| "iterate_from invoke eps (Suc i) ctxs retval e =
     (let hook = eps ! i;
          ctxs = ctxs[i := NULL]
      in if ep_state_index hook < 0 \<or> ep_state_index hook \<ge> int (length ctxs)
         then Inl (Crash ''ctxs index out of bounds'')
         else
           (let (handle, e') = invoke (ep_fn hook)
                  \<lparr> hh_handle = ep_handle hook, hh_ctx = ctxs ! nat (ep_state_index hook),
                    hh_next_action = hook_next_action_next, hh_returns = retval \<rparr> e;
                ctxs = ctxs[i := hh_ctx handle]
            in case hh_next_action handle of
                 hook_next_action_next \<Rightarrow>
                   iterate_from invoke eps i ctxs (hh_returns handle) e'
               | hook_next_action_finish \<Rightarrow> Inr (True, hh_returns handle, e')))"

definition iterate_hooks ::
  "'e invoke \<Rightarrow> (nat \<Rightarrow> void_ptr) \<Rightarrow> hook_entry_point list option \<Rightarrow> 'e \<Rightarrow>
   (void_ptr \<times> 'e) outcome" where
  "iterate_hooks invoke stack entry_points e =
     (let eps = (case entry_points of None \<Rightarrow> [] | Some eps \<Rightarrow> eps) in
      bind_outcome
        (iterate_from invoke eps (length eps) (map stack [0..<length eps]) NULL e)
        (\<lambda>(_, retval, e'). Inr (retval, e')))"

section \<open>The state index\<close>

text \<open>
  An entry takes its context from its own slot, or from the slot of a later entry (which
  runs earlier) of the same module and function: the other half of a wrapping hook.
\<close>

definition entry_ok :: "hook_entry_point list \<Rightarrow> nat \<Rightarrow> bool" where
  "entry_ok eps i =
     (let e = eps ! i; s = ep_state_index e in
      int i \<le> s \<and> s < int (length eps) \<and>
      (let p = eps ! nat s in
       ep_state_index p = s \<and> ep_handle p = ep_handle e \<and> ep_fn p = ep_fn e))"

definition hooks_ok :: "hook_entry_point list \<Rightarrow> bool" where
  "hooks_ok eps = list_all (entry_ok eps) [0..<length eps]"

definition all_hooks_ok :: "hook_entry_points_t \<Rightarrow> bool" where
  "all_hooks_ok heps \<longleftrightarrow> (\<forall>type eps. heps type = Some eps \<longrightarrow> hooks_ok eps)"

lemma hooks_okI: "(\<And>i. i < length eps \<Longrightarrow> entry_ok eps i) \<Longrightarrow> hooks_ok eps"
  by (simp add: hooks_ok_def list_all_iff)

lemma hooks_okD: "hooks_ok eps \<Longrightarrow> i < length eps \<Longrightarrow> entry_ok eps i"
  by (simp add: hooks_ok_def list_all_iff)

lemma entry_okE:
  assumes "entry_ok eps i"
  obtains k where "ep_state_index (eps ! i) = int k" "i \<le> k" "k < length eps"
    "ep_state_index (eps ! k) = int k" "ep_handle (eps ! k) = ep_handle (eps ! i)"
    "ep_fn (eps ! k) = ep_fn (eps ! i)"
proof (rule that[of "nat (ep_state_index (eps ! i))"])
qed (use assms in \<open>auto simp: entry_ok_def Let_def\<close>)

lemma entry_okI:
  assumes "ep_state_index (eps ! i) = int k" "i \<le> k" "k < length eps"
    "ep_state_index (eps ! k) = int k" "ep_handle (eps ! k) = ep_handle (eps ! i)"
    "ep_fn (eps ! k) = ep_fn (eps ! i)"
  shows "entry_ok eps i"
  using assms by (simp add: entry_ok_def Let_def)

lemma entry_ok_append:
  assumes "entry_ok eps i" "i < length eps"
  shows "entry_ok (eps @ xs) i"
  using assms(1)
proof (rule entry_okE)
  fix k
  assume "ep_state_index (eps ! i) = int k" "i \<le> k" "k < length eps"
    "ep_state_index (eps ! k) = int k" "ep_handle (eps ! k) = ep_handle (eps ! i)"
    "ep_fn (eps ! k) = ep_fn (eps ! i)"
  with assms(2) show ?thesis by (intro entry_okI[of _ _ k]) (auto simp: nth_append)
qed

lemma append_entry_ok:
  assumes "hooks_ok eps"
  shows "hooks_ok (append_entry h hook eps)"
proof (rule hooks_okI)
  fix i assume "i < length (append_entry h hook eps)"
  then consider "i < length eps" | "i = length eps" by (force simp: append_entry_def)
  then show "entry_ok (append_entry h hook eps) i"
  proof cases
    case 1
    then show ?thesis
      unfolding append_entry_def by (intro entry_ok_append hooks_okD[OF assms])
  qed (auto intro!: entry_okI simp: append_entry_def)
qed

lemma wrap_entry_ok:
  assumes "hooks_ok eps"
  shows "hooks_ok (append_entry h hook (prepend_entry h hook eps))"
proof (rule hooks_okI)
  let ?new = "append_entry h hook (prepend_entry h hook eps)"
  fix i assume "i < length ?new"
  then consider "i = 0" | j where "i = Suc j" "j < length eps" | "i = Suc (length eps)"
    by (cases i) (force simp: append_entry_def prepend_entry_def)+
  then show "entry_ok ?new i"
  proof cases
    case (2 j)
    show ?thesis
    proof (rule entry_okE[OF hooks_okD[OF assms 2(2)]])
      fix k
      assume "ep_state_index (eps ! j) = int k" "j \<le> k" "k < length eps"
        "ep_state_index (eps ! k) = int k" "ep_handle (eps ! k) = ep_handle (eps ! j)"
        "ep_fn (eps ! k) = ep_fn (eps ! j)"
      then show ?thesis
        using 2 by (intro entry_okI[of _ _ "Suc k"])
          (auto simp: append_entry_def prepend_entry_def nth_append)
    qed
  qed (auto intro!: entry_okI[of _ _ "Suc (length eps)"]
      simp: append_entry_def prepend_entry_def nth_append)
qed

lemma register_hook_ok:
  assumes "register_hook h hook heps = Inr heps'" "all_hooks_ok heps"
  shows "all_hooks_ok heps'"
proof -
  have "hooks_ok []" by (simp add: hooks_ok_def)
  then show ?thesis
    using assms append_entry_ok wrap_entry_ok
    by (auto simp: register_hook_def all_hooks_ok_def Let_def split: if_splits option.splits)
qed

text \<open>With the indices in order, no run of the hooks leaves the array of contexts.\<close>

lemma iterate_from_total:
  assumes "hooks_ok eps" "i \<le> length eps" "length ctxs = length eps"
  shows "\<exists>r. iterate_from invoke eps i ctxs retval e = Inr r"
  using assms
proof (induction invoke eps i ctxs retval e rule: iterate_from.induct)
  case (2 invoke eps i ctxs retval e)
  from 2(2,3) have "entry_ok eps i" by (auto intro: hooks_okD)
  then have "\<not> (ep_state_index (eps ! i) < 0 \<or>
      ep_state_index (eps ! i) \<ge> int (length (ctxs[i := NULL])))"
    using 2(4) by (auto simp: entry_ok_def Let_def)
  then show ?case
    using 2 by (auto simp: Let_def split: prod.split hook_next_action.split)
qed auto

section \<open>Removal\<close>

lemma reindex_keeps [simp]:
  "ep_handle (reindex (j, e)) = ep_handle e" "ep_fn (reindex (j, e)) = ep_fn e"
  "ep_name (reindex (j, e)) = ep_name e"
  by (simp_all add: reindex_def)

lemma nth_remove_entry:
  assumes "k < length eps - 1" "i < length eps"
  shows "remove_entry i eps ! k = (if k < i then eps ! k else reindex (Suc k, eps ! Suc k))"
  using assms by (auto simp: remove_entry_def nth_append nth_enumerate_eq)

definition ident :: "hook_entry_point \<Rightarrow> module_ptr option \<times> fn_ptr \<times> string" where
  "ident e = (ep_handle e, ep_fn e, ep_name e)"

lemma ident_reindex [simp]: "ident (reindex (j, e)) = ident e"
  by (simp add: ident_def)

lemma map_ident_reindex: "map ident (map reindex (List.enumerate n xs)) = map ident xs"
  by (induction xs arbitrary: n) auto

lemma map_ident_remove:
  "map ident (remove_entry i eps) = take i (map ident eps) @ drop (Suc i) (map ident eps)"
  unfolding remove_entry_def map_append map_ident_reindex by (simp add: take_map drop_map)

definition gone :: "module_ptr list \<Rightarrow> module_ptr option \<times> fn_ptr \<times> string \<Rightarrow> bool" where
  "gone ms d = (case fst d of None \<Rightarrow> False | Some h \<Rightarrow> h \<notin> set ms)"

lemma gone_ident: "gone ms (ident e) = unloaded ms e"
  by (simp add: gone_def ident_def unloaded_def)

lemma reorganize_type_ident:
  "map ident (reorganize_type ms i eps) =
     take i (map ident eps) @ filter (\<lambda>d. \<not> gone ms d) (drop i (map ident eps))"
proof (induction ms i eps rule: reorganize_type.induct)
  case (1 ms i eps)
  show ?case
  proof (cases "i < length eps")
    case True
    have split: "drop i (map ident eps) = ident (eps ! i) # drop (Suc i) (map ident eps)"
      using True by (simp add: drop_map Cons_nth_drop_Suc[symmetric])
    show ?thesis
    proof (cases "unloaded ms (eps ! i)")
      case rem: True
      have "reorganize_type ms i eps = reorganize_type ms i (remove_entry i eps)"
        using True rem by (subst reorganize_type.simps) simp
      moreover have "take i (map ident (remove_entry i eps)) = take i (map ident eps)"
        "drop i (map ident (remove_entry i eps)) = drop (Suc i) (map ident eps)"
        using True by (simp_all only: map_ident_remove) simp_all
      ultimately show ?thesis
        using 1(1)[OF True rem] rem split by (simp add: gone_ident)
    next
      case False
      have "reorganize_type ms i eps = reorganize_type ms (Suc i) eps"
        using True False by (subst reorganize_type.simps) simp
      then show ?thesis
        using 1(2)[OF True False] False split True
        by (simp add: gone_ident take_Suc_conv_app_nth)
    qed
  next
    case False
    then show ?thesis by (subst reorganize_type.simps) simp
  qed
qed

text \<open>
  The removals that keep the indices in order: no entry that stays takes its context from
  behind an entry that goes.
\<close>

definition no_span :: "module_ptr list \<Rightarrow> hook_entry_point list \<Rightarrow> bool" where
  "no_span ms eps \<longleftrightarrow>
     (\<forall>i r. i < r \<and> r < length eps \<and> \<not> unloaded ms (eps ! i) \<and> unloaded ms (eps ! r) \<longrightarrow>
        ep_state_index (eps ! i) < int r)"

lemma unloaded_reindex [simp]: "unloaded ms (reindex (j, e)) = unloaded ms e"
  by (simp add: unloaded_def)

lemma reindex_index:
  "int j \<le> ep_state_index e \<Longrightarrow> ep_state_index (reindex (j, e)) = ep_state_index e - 1"
  by (simp add: reindex_def)

lemma remove_entry_ok:
  assumes ok: "hooks_ok eps" and r: "r < length eps"
    and below: "\<And>i. i < r \<Longrightarrow> ep_state_index (eps ! i) < int r"
  shows "hooks_ok (remove_entry r eps)"
proof (rule hooks_okI)
  fix k assume "k < length (remove_entry r eps)"
  then have k: "k < length eps - 1" using r by simp
  show "entry_ok (remove_entry r eps) k"
  proof (cases "k < r")
    case True
    with r have "entry_ok eps k" by (intro hooks_okD[OF ok]) simp
    then show ?thesis
    proof (rule entry_okE)
      fix j
      assume j: "ep_state_index (eps ! k) = int j" "k \<le> j" "j < length eps"
        "ep_state_index (eps ! j) = int j" "ep_handle (eps ! j) = ep_handle (eps ! k)"
        "ep_fn (eps ! j) = ep_fn (eps ! k)"
      then have "j < r" using below[OF True] by simp
      then show ?thesis
        using j k r True by (intro entry_okI[of _ _ j]) (simp_all add: nth_remove_entry)
    qed
  next
    case False
    from k have "entry_ok eps (Suc k)" by (intro hooks_okD[OF ok]) simp
    then show ?thesis
    proof (rule entry_okE)
      fix j
      assume j: "ep_state_index (eps ! Suc k) = int j" "Suc k \<le> j" "j < length eps"
        "ep_state_index (eps ! j) = int j" "ep_handle (eps ! j) = ep_handle (eps ! Suc k)"
        "ep_fn (eps ! j) = ep_fn (eps ! Suc k)"
      then obtain j' where j': "j = Suc j'" "k \<le> j'" "j' < length eps - 1" by (cases j) auto
      then show ?thesis
        using j k r False
        by (intro entry_okI[of _ _ j']) (simp_all add: nth_remove_entry reindex_index)
    qed
  qed
qed

lemma remove_entry_no_span:
  assumes ok: "hooks_ok eps" and r: "r < length eps" and gone: "unloaded ms (eps ! r)"
    and kept: "\<And>k. k < r \<Longrightarrow> \<not> unloaded ms (eps ! k)" and span: "no_span ms eps"
  shows "no_span ms (remove_entry r eps)"
  unfolding no_span_def
proof (intro allI impI, elim conjE)
  let ?new = "remove_entry r eps"
  fix i q
  assume iq: "i < q" "q < length ?new" and i: "\<not> unloaded ms (?new ! i)"
    and q: "unloaded ms (?new ! q)"
  have len: "q < length eps - 1" "i < length eps - 1" using iq r by auto
  have "r \<le> q" using q kept len r by (cases "q < r") (auto simp: nth_remove_entry)
  then have q': "unloaded ms (eps ! Suc q)" using q len r by (simp add: nth_remove_entry)
  show "ep_state_index (?new ! i) < int q"
  proof (cases "i < r")
    case True
    then have "ep_state_index (eps ! i) < int r"
      using span gone kept r by (auto simp: no_span_def)
    with True \<open>r \<le> q\<close> show ?thesis using len r by (simp add: nth_remove_entry)
  next
    case False
    then have "\<not> unloaded ms (eps ! Suc i)" using i len r by (simp add: nth_remove_entry)
    then have "ep_state_index (eps ! Suc i) < int (Suc q)"
      using span[unfolded no_span_def, rule_format, of "Suc i" "Suc q"] q' iq len by simp
    moreover have "int (Suc i) \<le> ep_state_index (eps ! Suc i)"
      using hooks_okD[OF ok, of "Suc i"] len by (auto simp: entry_ok_def Let_def)
    ultimately show ?thesis using False len r by (simp add: nth_remove_entry reindex_index)
  qed
qed

lemma reorganize_type_ok:
  assumes "hooks_ok eps" "no_span ms eps" "\<And>k. k < i \<Longrightarrow> k < length eps \<Longrightarrow> \<not> unloaded ms (eps ! k)"
  shows "hooks_ok (reorganize_type ms i eps)"
  using assms
proof (induction ms i eps rule: reorganize_type.induct)
  case (1 ms i eps)
  show ?case
  proof (cases "i < length eps")
    case True
    show ?thesis
    proof (cases "unloaded ms (eps ! i)")
      case rem: True
      have kept: "\<And>k. k < i \<Longrightarrow> \<not> unloaded ms (eps ! k)" using 1(5) True by simp
      have below: "\<And>k. k < i \<Longrightarrow> ep_state_index (eps ! k) < int i"
        using 1(4) rem kept True by (auto simp: no_span_def)
      have "hooks_ok (reorganize_type ms i (remove_entry i eps))"
        using True kept by (intro 1(1)[OF True rem] remove_entry_ok[OF 1(3) True below]
            remove_entry_no_span[OF 1(3) True rem kept 1(4)])
          (auto simp: nth_remove_entry)
      then show ?thesis using True rem by (subst reorganize_type.simps) simp
    next
      case False
      have "hooks_ok (reorganize_type ms (Suc i) eps)"
        using 1(5) False by (intro 1(2)[OF True False 1(3,4)]) (auto simp: less_Suc_eq)
      then show ?thesis using True False by (subst reorganize_type.simps) simp
    qed
  next
    case False
    then show ?thesis using 1(3) by (subst reorganize_type.simps) simp
  qed
qed

section \<open>A wrapping hook encloses the hooks before it\<close>

text \<open>One call of a hook function with a context, a return value and the world.\<close>

definition call_hook ::
  "'e invoke \<Rightarrow> module_ptr \<Rightarrow> fn_ptr \<Rightarrow> void_ptr \<Rightarrow> void_ptr \<Rightarrow> 'e \<Rightarrow> omni_hook_handle \<times> 'e" where
  "call_hook invoke h f ctx retval e =
     invoke f \<lparr> hh_handle = Some h, hh_ctx = ctx, hh_next_action = hook_next_action_next,
                hh_returns = retval \<rparr> e"

definition after_half ::
  "'e invoke \<Rightarrow> module_ptr \<Rightarrow> fn_ptr \<Rightarrow> void_ptr \<Rightarrow> bool \<times> void_ptr \<times> 'e \<Rightarrow> (bool \<times> void_ptr \<times> 'e)"
  where
  "after_half invoke h f ctx r =
     (case r of (finished, retval, e) \<Rightarrow>
        if finished then r
        else (let (handle, e') = call_hook invoke h f ctx retval e in
              (hh_next_action handle = hook_next_action_finish, hh_returns handle, e')))"

lemma after_half_finished [simp]: "after_half invoke h f c (True, r, e) = (True, r, e)"
  by (simp add: after_half_def)

lemma iterate_inside:
  assumes "hooks_ok eps" "i \<le> length eps" "length ctxs = length eps"
  shows "iterate_from invoke (append_entry h hook (prepend_entry h hook eps)) (Suc i)
           (c0 # ctxs @ [cw]) retval e =
         bind_outcome (iterate_from invoke eps i ctxs retval e)
           (\<lambda>r. Inr (after_half invoke h (hook_fn hook) cw r))"
  using assms(2,3)
proof (induction i arbitrary: ctxs retval e)
  case 0
  then show ?case
    by (auto simp: append_entry_def prepend_entry_def after_half_def call_hook_def Let_def
        nth_append nat_add_distrib split: prod.split hook_next_action.split)
next
  case (Suc i)
  let ?new = "append_entry h hook (prepend_entry h hook eps)"
  have i: "i < length eps" using Suc.prems by simp
  obtain k where k: "ep_state_index (eps ! i) = int k" "k < length eps"
    using hooks_okD[OF assms(1) i] by (rule entry_okE) blast
  have new: "?new ! Suc i = (eps ! i) \<lparr> ep_state_index := int (Suc k) \<rparr>"
    using i by (simp add: append_entry_def prepend_entry_def nth_append k)
  have nth: "(ctxs[i := NULL] @ [cw]) ! k = ctxs[i := NULL] ! k" "nat (1 + int k) = Suc k"
    using k Suc.prems by (simp_all add: nth_append)
  have upd: "(c0 # ctxs @ [cw])[Suc i := v] = c0 # ctxs[i := v] @ [cw]" for v
    using i Suc.prems by (simp add: list_update_append)
  have upd2: "(ctxs[i := w] @ [cw])[i := v] = ctxs[i := v] @ [cw]" for v w
    using i Suc.prems by (simp add: list_update_append)
  obtain hd e' where inv: "invoke (ep_fn (eps ! i))
      \<lparr> hh_handle = ep_handle (eps ! i), hh_ctx = ctxs[i := NULL] ! k,
        hh_next_action = hook_next_action_next, hh_returns = retval \<rparr> e = (hd, e')" by force
  show ?case
    using Suc.IH[of "ctxs[i := hh_ctx hd]" "hh_returns hd" e'] i Suc.prems k
    by (simp only: iterate_from.simps(2)[of _ ?new "Suc i"] iterate_from.simps(2)[of _ eps i]
        new upd Let_def)
      (simp add: nth inv upd2 del: iterate_from.simps split: hook_next_action.split)
qed

section \<open>One-shot transaction callbacks\<close>

text \<open>
  \<open>xact_oneshot_callbacks\<close> fire at the next transaction event; \<open>after_xact_oneshot_callbacks\<close>
  fire when the memory of the transaction is released, through a reset callback that each
  transaction event registers.  \<open>fired\<close> records the calls made (function, argument, event).
\<close>

datatype xact_event = PreCommit | Commit | Abort | PrePrepare | Prepare

record xact_oneshot_callback =
  cb_fn :: fn_ptr
  cb_arg :: void_ptr

record oneshot_state =
  xact_oneshot_callbacks :: "xact_oneshot_callback list"
  after_xact_oneshot_callbacks :: "xact_oneshot_callback list"
  reset_callbacks :: "xact_event list"
  fired :: "(xact_oneshot_callback \<times> xact_event) list"

definition on_xact_dealloc :: "xact_event \<Rightarrow> oneshot_state \<Rightarrow> oneshot_state" where
  "on_xact_dealloc event st =
     st \<lparr> fired := fired st @ map (\<lambda>cb. (cb, event)) (after_xact_oneshot_callbacks st),
          after_xact_oneshot_callbacks := [] \<rparr>"

text \<open>The part of \<open>omni_xact_callback_hook\<close> that follows the run of the registered hooks.\<close>

definition fire_oneshot :: "xact_event \<Rightarrow> oneshot_state \<Rightarrow> oneshot_state" where
  "fire_oneshot event st =
     (let st = st \<lparr> fired := fired st @ map (\<lambda>cb. (cb, event)) (xact_oneshot_callbacks st),
                    xact_oneshot_callbacks := [] \<rparr>
      in if after_xact_oneshot_callbacks st \<noteq> []
         then st \<lparr> reset_callbacks := event # reset_callbacks st \<rparr>
         else st)"

text \<open>
  \<open>omni_xact_callback_hook\<close>: the registered hooks see the event through \<open>invoke\<close>, whose world
  here includes the one-shot callbacks, which a hook may register.
\<close>

definition omni_xact_callback_hook ::
  "(xact_event \<Rightarrow> oneshot_state invoke) \<Rightarrow> (nat \<Rightarrow> void_ptr) \<Rightarrow> hook_entry_points_t \<Rightarrow>
   xact_event \<Rightarrow> oneshot_state \<Rightarrow> oneshot_state outcome" where
  "omni_xact_callback_hook invoke stack heps event st =
     bind_outcome (iterate_hooks (invoke event) stack (heps omni_hook_xact_callback) st)
       (\<lambda>(_, st'). Inr (fire_oneshot event st'))"

text \<open>Resetting a memory context runs its callbacks, the last registered first.\<close>

definition reset_context :: "oneshot_state \<Rightarrow> oneshot_state" where
  "reset_context st = fold on_xact_dealloc (reset_callbacks st) (st \<lparr> reset_callbacks := [] \<rparr>)"

lemma fold_on_xact_dealloc:
  "fold on_xact_dealloc evs st =
     (case evs of
        [] \<Rightarrow> st
      | ev # _ \<Rightarrow> st \<lparr> fired := fired st @ map (\<lambda>cb. (cb, ev)) (after_xact_oneshot_callbacks st),
                       after_xact_oneshot_callbacks := [] \<rparr>)"
proof (cases evs)
  case (Cons ev evs')
  have "after_xact_oneshot_callbacks s = [] \<Longrightarrow> fold on_xact_dealloc evs' s = s" for s
    by (induction evs' arbitrary: s) (auto simp: on_xact_dealloc_def)
  then show ?thesis by (simp add: Cons on_xact_dealloc_def)
qed simp

lemma fold_fire_oneshot:
  assumes "after_xact_oneshot_callbacks st \<noteq> []"
  shows "fold fire_oneshot evs st =
    (case evs of
       [] \<Rightarrow> st
     | ev # _ \<Rightarrow> st \<lparr> fired := fired st @ map (\<lambda>cb. (cb, ev)) (xact_oneshot_callbacks st),
                      xact_oneshot_callbacks := [],
                      reset_callbacks := rev evs @ reset_callbacks st \<rparr>)"
proof (cases evs)
  case (Cons ev evs')
  have "xact_oneshot_callbacks s = [] \<Longrightarrow> after_xact_oneshot_callbacks s \<noteq> [] \<Longrightarrow>
      fold fire_oneshot evs' s = s \<lparr> reset_callbacks := rev evs' @ reset_callbacks s \<rparr>" for s
    by (induction evs' arbitrary: s) (auto simp: fire_oneshot_def Let_def)
  then show ?thesis using assms by (simp add: Cons fire_oneshot_def Let_def)
qed simp

section \<open>Properties\<close>

text \<open>The entry points that registration leads to from the ones set up at preload.\<close>

inductive registered :: "(nat \<Rightarrow> fn_ptr option) \<Rightarrow> (nat \<Rightarrow> fn_ptr) \<Rightarrow> hook_entry_points_t \<Rightarrow> bool"
  for saved defaults where
  reg_init: "registered saved defaults (init_entry_points saved defaults)"
| reg_hook: "registered saved defaults heps \<Longrightarrow> register_hook h hook heps = Inr heps' \<Longrightarrow>
    registered saved defaults heps'"

lemma init_entry_points_ok: "all_hooks_ok (init_entry_points saved defaults)"
  by (auto simp: all_hooks_ok_def init_entry_points_def hooks_ok_def entry_ok_def
      split: if_splits)

lemma registered_ok: "registered saved defaults heps \<Longrightarrow> all_hooks_ok heps"
  by (induction rule: registered.induct) (auto intro: init_entry_points_ok register_hook_ok)

text \<open>
  C34: after any sequence of registrations, running the hooks of any type always returns: no
  entry reads or writes a context outside of the array, whatever the hook functions do.
\<close>
theorem registered_hooks_run:
  assumes "registered saved defaults heps"
  shows "\<exists>r. iterate_hooks invoke stack (heps type) e = Inr r"
proof -
  define eps where "eps = (case heps type of None \<Rightarrow> [] | Some eps \<Rightarrow> eps)"
  have "hooks_ok eps"
    using registered_ok[OF assms]
    by (auto simp: eps_def all_hooks_ok_def hooks_ok_def split: option.split)
  then obtain r where
    "iterate_from invoke eps (length eps) (map stack [0..<length eps]) NULL e = Inr r"
    using iterate_from_total[of eps "length eps" "map stack [0..<length eps]"] by fastforce
  then show ?thesis by (cases r) (simp add: iterate_hooks_def Let_def flip: eps_def)
qed

text \<open>
  C33: a wrapping hook encloses the hooks registered before it.  Running the hooks after the
  registration is: call the hook with an empty context; if it does not finish, run the hooks
  that were there before, exactly as they ran before, starting from its return value; and
  if none of them finishes, call the hook again with the context its first call left.
\<close>
theorem wrap_encloses:
  assumes "heps type = Some eps" "hooks_ok eps" "hook_type hook = type" "hook_wrap hook"
    and "register_hook h hook heps = Inr heps'"
    and "call_hook invoke h (hook_fn hook) NULL NULL e = (before, e1)"
  shows "iterate_hooks invoke stack (heps' type) e =
    (if hh_next_action before = hook_next_action_finish then Inr (hh_returns before, e1)
     else bind_outcome
       (iterate_from invoke eps (length eps) (map (\<lambda>i. stack (Suc i)) [0..<length eps])
          (hh_returns before) e1)
       (\<lambda>r. Inr (snd (after_half invoke h (hook_fn hook) (hh_ctx before) r))))"
proof -
  let ?new = "append_entry h hook (prepend_entry h hook eps)"
  let ?n = "length eps"
  have heps': "heps' type = Some ?new"
    using assms by (auto simp: register_hook_def)
  have len: "length ?new = Suc (Suc ?n)" by (simp add: append_entry_def prepend_entry_def)
  have last: "?new ! Suc ?n = \<lparr> ep_handle = Some h, ep_fn = hook_fn hook,
      ep_state_index = int (Suc ?n), ep_name = hook_name hook \<rparr>"
    by (simp add: append_entry_def prepend_entry_def nth_append)
  have stack: "map stack [0..<Suc (Suc ?n)] =
      stack 0 # map (\<lambda>i. stack (Suc i)) [0..<?n] @ [stack (Suc ?n)]"
    by (rule nth_equalityI) (auto simp: nth_append nth_Cons less_Suc_eq simp del: upt_Suc split: nat.split)
  let ?mid = "map (\<lambda>i. stack (Suc i)) [0..<?n]"
  have upd: "(stack 0 # ?mid @ [v])[Suc ?n := w] = stack 0 # ?mid @ [w]" for v w
    by (simp add: list_update_append)
  have nth: "(?mid @ [v]) ! (nat (1 + int ?n) - Suc 0) = v" for v
    by (simp add: nth_append nat_add_distrib)
  have bind: "bind_outcome (bind_outcome m (\<lambda>r. Inr (f r))) (\<lambda>(_, y). Inr y) =
      bind_outcome m (\<lambda>r. Inr (snd (f r)))" for m and f :: "bool \<times> void_ptr \<times> 'a \<Rightarrow> bool \<times> void_ptr \<times> 'a"
    by (cases m) (auto split: prod.split)
  show ?thesis
    unfolding iterate_hooks_def heps' option.case Let_def len stack
    using assms(6)
    by (simp only: iterate_from.simps(2)[where i = "Suc ?n"] Let_def last upd)
      (auto simp: nth call_hook_def bind iterate_inside[OF assms(2)] simp del: iterate_from.simps split: hook_next_action.splits)
qed

text \<open>
  C35: \<open>reorganize_hooks\<close> removes the hooks of the modules that are no longer initialized and
  nothing else: the default entries and the hooks of initialized modules stay, each with
  its module, function and name, in their order.
\<close>
theorem reorganize_removes_exactly:
  "map ident (reorganize_type ms 0 eps) = filter (\<lambda>d. \<not> gone ms d) (map ident eps)"
  using reorganize_type_ident[of ms 0 eps] by simp

text \<open>
  \<open>reorganize_hooks\<close> keeps the state indices in order, for every hook type, if no entry that
  stays takes its context from behind an entry that is removed.
\<close>
theorem reorganize_keeps_indices:
  assumes "all_hooks_ok heps" "\<forall>type eps. heps type = Some eps \<longrightarrow> no_span ms eps"
  shows "all_hooks_ok (reorganize_hooks ms heps)"
  using assms by (auto simp: all_hooks_ok_def reorganize_hooks_def intro!: reorganize_type_ok)

text \<open>
  Unloading a module whose hook lies inside a wrapping hook of another module breaks the
  wrapping hook.  With module \<open>a\<close> still loaded and module \<open>b\<close> gone, the front half of the
  wrapping hook keeps the index of the slot that no longer exists, and the next run of the
  hooks, unless a hook asks to finish, reads a context outside of the array.
\<close>
theorem unload_inside_wrap:
  assumes "register_hook b hook_b (\<lambda>_. None) = Inr heps1" "register_hook a hook_a heps1 = Inr heps2"
    and "hook_type hook_a = type" "hook_type hook_b = type" "hook_wrap hook_a" "\<not> hook_wrap hook_b"
    and "a \<in> set ms" "b \<notin> set ms"
    and "hh_next_action (fst (call_hook invoke a (hook_fn hook_a) NULL NULL e)) = hook_next_action_next"
  shows "iterate_hooks invoke stack (reorganize_hooks ms heps2 type) e =
    Inl (Crash ''ctxs index out of bounds'')"
proof -
  have heps2: "heps2 type = Some
      [\<lparr> ep_handle = Some a, ep_fn = hook_fn hook_a, ep_state_index = 2, ep_name = hook_name hook_a \<rparr>,
       \<lparr> ep_handle = Some b, ep_fn = hook_fn hook_b, ep_state_index = 1, ep_name = hook_name hook_b \<rparr>,
       \<lparr> ep_handle = Some a, ep_fn = hook_fn hook_a, ep_state_index = 2, ep_name = hook_name hook_a \<rparr>]"
    using assms(1-6)
    by (auto simp: register_hook_def Let_def append_entry_def prepend_entry_def)
  have "reorganize_hooks ms heps2 type = Some
      [\<lparr> ep_handle = Some a, ep_fn = hook_fn hook_a, ep_state_index = 2, ep_name = hook_name hook_a \<rparr>,
       \<lparr> ep_handle = Some a, ep_fn = hook_fn hook_a, ep_state_index = 1, ep_name = hook_name hook_a \<rparr>]"
    using assms(7,8)
    by (simp add: reorganize_hooks_def heps2 reorganize_type.simps unloaded_def remove_entry_def
        reindex_def)
  then show ?thesis
    using assms(9)
    by (auto simp: iterate_hooks_def Let_def numeral_2_eq_2 call_hook_def split: prod.splits)
qed

text \<open>
  Registering a wrapping hook of a type that has no entry points yet (the transaction
  callback, for one, has no default entry) frees a null pointer.
\<close>
theorem wrap_without_default_crashes:
  assumes "hook_wrap hook" "hook_type hook = omni_hook_xact_callback"
  shows "register_hook h hook (init_entry_points saved defaults) =
    Inl (Crash ''pfree of a null pointer'')"
  using assms
  by (simp add: register_hook_def init_entry_points_def has_default_hook_def hook_type_defs)

text \<open>
  Every one-shot callback fires exactly once: the \<open>xact\<close> ones at the first event, in order;
  the \<open>after_xact\<close> ones when the memory of the transaction is released, in order, with the
  last event the transaction went through.
\<close>
theorem oneshot_callbacks_fire_once:
  assumes "evs \<noteq> []" "after_xact_oneshot_callbacks st \<noteq> []" "reset_callbacks st = []"
  shows "reset_context (fold fire_oneshot evs st) =
    st \<lparr> fired := fired st @ map (\<lambda>cb. (cb, hd evs)) (xact_oneshot_callbacks st)
                @ map (\<lambda>cb. (cb, last evs)) (after_xact_oneshot_callbacks st),
         xact_oneshot_callbacks := [], after_xact_oneshot_callbacks := [] \<rparr>"
proof -
  obtain ev evs' where evs: "evs = ev # evs'" using assms(1) by (cases evs) auto
  obtain l rest where rev: "rev evs = l # rest" "last evs = l"
    using assms(1) by (metis hd_rev list.sel(1) neq_Nil_conv rev_is_Nil_conv)
  have "fold fire_oneshot evs st = st \<lparr> fired := fired st @ map (\<lambda>cb. (cb, hd evs))
      (xact_oneshot_callbacks st), xact_oneshot_callbacks := [], reset_callbacks := l # rest \<rparr>"
    using fold_fire_oneshot[OF assms(2), of evs] rev assms(3) by (simp add: evs)
  then show ?thesis
    by (simp only: reset_context_def fold_on_xact_dealloc rev(2)) (simp add: assms(3))
qed

section \<open>Witnesses\<close>

definition sample_hook :: "nat \<Rightarrow> bool \<Rightarrow> omni_hook" where
  "sample_hook f wrap =
     \<lparr> hook_type = omni_hook_planner, hook_fn = f, hook_name = ''h'', hook_wrap = wrap \<rparr>"

text \<open>A hook function that logs its number and context and leaves its number as context.\<close>

definition logging :: "(nat \<times> void_ptr) list invoke" where
  "logging f handle e = (handle \<lparr> hh_ctx := of_nat f \<rparr>, e @ [(f, hh_ctx handle)])"

definition no_saved :: "nat \<Rightarrow> fn_ptr option" where "no_saved _ = None"

definition sample_points :: hook_entry_points_t where
  "sample_points = (init_entry_points no_saved (\<lambda>_. 1))
     (omni_hook_planner \<mapsto> append_entry 7 (sample_hook 2 False)
        (the (init_entry_points no_saved (\<lambda>_. 1) omni_hook_planner)))"

lemmas sample_defs = sample_hook_def sample_points_def logging_def no_saved_def
  init_entry_points_def has_default_hook_def hook_type_defs append_entry_def prepend_entry_def

theorem registered_hooks_run_witness:
  "\<exists>r. iterate_hooks logging (\<lambda>_. 9) (sample_points omni_hook_planner) [] = Inr r"
proof (rule registered_hooks_run)
  show "registered no_saved (\<lambda>_. 1) sample_points"
    by (rule registered.intros(2)[OF registered.intros(1), where h = 7 and hook = "sample_hook 2 False"])
      (simp add: register_hook_def sample_points_def sample_hook_def init_entry_points_def
        has_default_hook_def)
qed

theorem wrap_encloses_witness:
  "\<exists>heps'. register_hook 8 (sample_hook 3 True) sample_points = Inr heps' \<and>
     iterate_hooks logging (\<lambda>_. 9) (heps' omni_hook_planner) [] =
       Inr (NULL, [(3, NULL), (2, NULL), (1, NULL), (3, 3)])"
proof -
  let ?eps = "the (sample_points omni_hook_planner)"
  obtain heps' where heps': "register_hook 8 (sample_hook 3 True) sample_points = Inr heps'"
    by (simp add: register_hook_def sample_defs)
  have "hooks_ok ?eps" by (simp add: sample_defs hooks_ok_def entry_ok_def upt_rec)
  from wrap_encloses[where type = omni_hook_planner, OF _ this _ _ heps', of logging "[]"
      "\<lparr> hh_handle = Some 8, hh_ctx = 3, hh_next_action = hook_next_action_next, hh_returns = NULL \<rparr>"
      "[(3, NULL)]" "\<lambda>_. 9"]
  have "iterate_hooks logging (\<lambda>_. 9) (heps' omni_hook_planner) [] =
      Inr (NULL, [(3, NULL), (2, NULL), (1, NULL), (3, 3)])"
    by (simp add: sample_defs call_hook_def after_half_def upt_rec numeral_2_eq_2)
  with heps' show ?thesis by blast
qed

theorem reorganize_keeps_indices_witness: "all_hooks_ok (reorganize_hooks [] sample_points)"
proof (rule reorganize_keeps_indices)
  show "all_hooks_ok sample_points"
    by (auto simp: all_hooks_ok_def sample_defs hooks_ok_def entry_ok_def upt_rec split: if_splits)
  show "\<forall>type eps. sample_points type = Some eps \<longrightarrow> no_span [] eps"
    by (auto simp: sample_defs no_span_def nth_Cons less_Suc_eq split: if_splits nat.splits)
qed

theorem unload_inside_wrap_witness:
  "\<exists>heps1 heps2. register_hook 7 (sample_hook 2 False) (\<lambda>_. None) = Inr heps1 \<and>
     register_hook 8 (sample_hook 3 True) heps1 = Inr heps2 \<and>
     iterate_hooks logging (\<lambda>_. 9) (reorganize_hooks [8] heps2 omni_hook_planner) [] =
       Inl (Crash ''ctxs index out of bounds'')"
proof -
  obtain heps1 heps2 where r: "register_hook 7 (sample_hook 2 False) (\<lambda>_. None) = Inr heps1"
    "register_hook 8 (sample_hook 3 True) heps1 = Inr heps2"
    by (simp add: register_hook_def sample_defs)
  from unload_inside_wrap[where type = omni_hook_planner and ms = "[8]" and invoke = logging
      and e = "[]" and stack = "\<lambda>_. 9", OF r] r show ?thesis
    by (auto simp: sample_hook_def logging_def call_hook_def)
qed

theorem wrap_without_default_crashes_witness:
  "register_hook 8 \<lparr> hook_type = omni_hook_xact_callback, hook_fn = 3, hook_name = ''h'',
     hook_wrap = True \<rparr> (init_entry_points no_saved (\<lambda>_. 1)) = Inl (Crash ''pfree of a null pointer'')"
  by (rule wrap_without_default_crashes) simp_all

theorem oneshot_callbacks_fire_once_witness:
  "fired (reset_context (fold fire_oneshot [PreCommit, Commit]
     \<lparr> xact_oneshot_callbacks = [\<lparr> cb_fn = 1, cb_arg = 0 \<rparr>],
       after_xact_oneshot_callbacks = [\<lparr> cb_fn = 2, cb_arg = 0 \<rparr>],
       reset_callbacks = [], fired = [] \<rparr>)) =
   [(\<lparr> cb_fn = 1, cb_arg = 0 \<rparr>, PreCommit), (\<lparr> cb_fn = 2, cb_arg = 0 \<rparr>, Commit)]"
  by (subst oneshot_callbacks_fire_once) simp_all

end
