(* ===== verification/Omni_Alloc.thy ===== *)
theory Omni_Alloc
  imports Omni_Prelude "HOL-Library.Multiset"
begin

text \<open>
  Shared memory for modules: \<open>find_or_allocate_shmem_dsa\<close>, \<open>find_or_allocate_shmem\<close>,
  \<open>allocate_shmem\<close>, \<open>lookup_shmem\<close>, \<open>deallocate_shmem\<close> and the handling of acquisitions in
  \<open>unload_module\<close> and \<open>deinitialize_backend\<close> (\<open>src/extensions/omni/omni.c\<close>).

  The shared state is the table of allocations (keyed by module and name, compared as raw
  memory) and the set of blocks of the dynamic shared area that are in use.  A backend
  keeps the list of the keys it has acquired.  The block that \<open>dsa_allocate0\<close> returns and the
  content of uninitialised memory are arguments of the operations.  Each operation changes the table
  under the allocation lock, so the operations of different backends are atomic steps; a block is freed
  after the lock was released, when no entry refers to it any more.
\<close>

section \<open>Data\<close>

abbreviation NAMEDATALEN :: nat where "NAMEDATALEN \<equiv> 64"

type_synonym dsa_pointer = nat

record ModuleAllocationKey =
  key_module_id :: nat
  key_name :: "byte list"

record ModuleAllocation =
  alloc_pointer :: dsa_pointer
  alloc_size :: nat
  alloc_refcounter :: "32 word"

record alloc_module =
  module_id :: nat
  module_revision :: nat

datatype HASHACTION = HASH_FIND | HASH_ENTER | HASH_REMOVE | HASH_ENTER_NULL

record dsa_ref =
  ref_pointer :: dsa_pointer
  ref_alloc :: bool

record shared_state =
  omni_allocations :: "(ModuleAllocationKey, ModuleAllocation) htab"
  dsa_live :: "dsa_pointer list"

text \<open>A call of the initialisation callback: the block and whether it is new.\<close>

type_synonym init_call = "dsa_pointer \<times> bool"

text \<open>\<open>strncpy\<close>: \<open>n\<close> bytes, padded with zeros.\<close>

definition strncpy :: "byte list \<Rightarrow> nat \<Rightarrow> byte list" where
  "strncpy name n = take n (name @ replicate n 0)"

definition allocation_key :: "nat \<Rightarrow> byte list \<Rightarrow> ModuleAllocationKey" where
  "allocation_key mid name = \<lparr> key_module_id = mid, key_name = strncpy name NAMEDATALEN \<rparr>"

text \<open>
  The key that a backend remembers: one byte less is copied into freshly allocated memory, so
  the last byte is whatever \<open>palloc\<close> returned.
\<close>

definition acquisition_key :: "nat \<Rightarrow> byte list \<Rightarrow> byte \<Rightarrow> ModuleAllocationKey" where
  "acquisition_key mid name garbage =
     \<lparr> key_module_id = mid, key_name = strncpy name (NAMEDATALEN - 1) @ [garbage] \<rparr>"

section \<open>Operations\<close>

definition is_enter :: "HASHACTION \<Rightarrow> bool" where
  "is_enter action \<longleftrightarrow> action = HASH_ENTER \<or> action = HASH_ENTER_NULL"

text \<open>The table part, under the allocation lock: the reference, the found flag, the table.\<close>

definition table_action ::
  "HASHACTION \<Rightarrow> ModuleAllocationKey \<Rightarrow> nat \<Rightarrow> dsa_pointer \<Rightarrow>
   (ModuleAllocationKey, ModuleAllocation) htab \<Rightarrow>
   (dsa_ref option \<times> bool) \<times> (ModuleAllocationKey, ModuleAllocation) htab" where
  "table_action action key sz ptr tab =
     (case hash_find tab key of
        None \<Rightarrow>
          if is_enter action
          then ((Some \<lparr> ref_pointer = ptr, ref_alloc = True \<rparr>, False),
                hash_enter key \<lparr> alloc_pointer = ptr, alloc_size = sz, alloc_refcounter = 1 \<rparr> tab)
          else ((None, False), tab)
      | Some alloc \<Rightarrow>
          if action = HASH_REMOVE
          then (if alloc_refcounter alloc - 1 = 0
                then ((Some \<lparr> ref_pointer = alloc_pointer alloc, ref_alloc = False \<rparr>, True),
                      hash_remove key tab)
                else ((Some \<lparr> ref_pointer = alloc_pointer alloc, ref_alloc = True \<rparr>, True),
                      hash_enter key (alloc \<lparr> alloc_refcounter := alloc_refcounter alloc - 1 \<rparr>) tab))
          else ((Some \<lparr> ref_pointer = alloc_pointer alloc, ref_alloc = True \<rparr>, True),
                hash_enter key (alloc \<lparr> alloc_refcounter := alloc_refcounter alloc + 1 \<rparr>) tab))"

text \<open>The calls of \<open>init\<close> that follow, by revision of the module's interface.\<close>

definition init_calls ::
  "alloc_module \<Rightarrow> bool \<Rightarrow> HASHACTION \<Rightarrow> dsa_ref option \<Rightarrow> bool \<Rightarrow> init_call list" where
  "init_calls m has_init action ref found =
     (case ref of
        None \<Rightarrow> []
      | Some r \<Rightarrow>
          if \<not> has_init then []
          else if \<not> found then (if is_enter action then [(ref_pointer r, True)] else [])
          else if action \<noteq> HASH_REMOVE \<and> module_revision m \<ge> 3 then [(ref_pointer r, False)]
          else [])"

definition find_or_allocate_shmem_dsa ::
  "alloc_module \<Rightarrow> byte list \<Rightarrow> nat \<Rightarrow> bool \<Rightarrow> HASHACTION \<Rightarrow> dsa_pointer \<Rightarrow> shared_state \<Rightarrow>
   (dsa_ref option \<times> bool \<times> init_call list) outcome \<times> shared_state" where
  "find_or_allocate_shmem_dsa m name sz has_init action new_ptr sh =
     (let sh = (if is_enter action then sh \<lparr> dsa_live := new_ptr # dsa_live sh \<rparr> else sh) in
      if length name > NAMEDATALEN - 1
      then (elog_error ''name must be under 64 bytes long'', sh)
      else if sz = 0 then (elog_error ''size must be larger than 0'', sh)
      else
        (let ((ref, found), tab) = table_action action (allocation_key (module_id m) name) sz
               new_ptr (omni_allocations sh)
         in (Inr (ref, found, init_calls m has_init action ref found),
             sh \<lparr> omni_allocations := tab \<rparr>)))"

text \<open>Result: the block (\<open>None\<close> for a null pointer), the found flag and the \<open>init\<close> calls.\<close>

definition find_or_allocate_shmem ::
  "alloc_module \<Rightarrow> byte list \<Rightarrow> nat \<Rightarrow> bool \<Rightarrow> bool \<Rightarrow> dsa_pointer \<Rightarrow> byte \<Rightarrow>
   shared_state \<times> ModuleAllocationKey list \<Rightarrow>
   (dsa_pointer option \<times> bool \<times> init_call list) outcome \<times> shared_state \<times> ModuleAllocationKey list"
  where
  "find_or_allocate_shmem m name sz has_init lookup new_ptr garbage st =
     (case st of (sh, acquisitions) \<Rightarrow>
      case find_or_allocate_shmem_dsa m name sz has_init
             (if lookup then HASH_FIND else HASH_ENTER) new_ptr sh of
        (Inl e, sh') \<Rightarrow> (Inl e, sh', acquisitions)
      | (Inr (ref, found, inits), sh') \<Rightarrow>
          (let ptr = (if \<not> found \<and> lookup then None else map_option ref_pointer ref) in
           (Inr (ptr, found, inits), sh',
            (if ptr \<noteq> None
             then acquisitions @ [acquisition_key (module_id m) name garbage]
             else acquisitions))))"

definition allocate_shmem where
  "allocate_shmem m name sz has_init new_ptr garbage st =
     find_or_allocate_shmem m name sz has_init False new_ptr garbage st"

definition lookup_shmem where
  "lookup_shmem m name garbage st = find_or_allocate_shmem m name 1 False True 0 garbage st"

text \<open>\<open>strcmp\<close> on the name of a remembered key stops at the first zero byte.\<close>

definition c_string :: "byte list \<Rightarrow> byte list" where
  "c_string bs = takeWhile (\<lambda>b. b \<noteq> 0) bs"

definition key_matches :: "alloc_module \<Rightarrow> byte list \<Rightarrow> ModuleAllocationKey \<Rightarrow> bool" where
  "key_matches m name key \<longleftrightarrow> key_module_id key = module_id m \<and> c_string (key_name key) = name"

definition deallocate_shmem ::
  "alloc_module \<Rightarrow> byte list \<Rightarrow> shared_state \<times> ModuleAllocationKey list \<Rightarrow>
   bool outcome \<times> shared_state \<times> ModuleAllocationKey list" where
  "deallocate_shmem m name st =
     (case st of (sh, acquisitions) \<Rightarrow>
      case find_or_allocate_shmem_dsa m name 1 False HASH_REMOVE 0 sh of
        (Inl e, sh') \<Rightarrow> (Inl e, sh', acquisitions)
      | (Inr (ref, found, _), sh') \<Rightarrow>
          (Inr found,
           (case ref of
              None \<Rightarrow> sh'
            | Some r \<Rightarrow> if found \<and> \<not> ref_alloc r
                       then sh' \<lparr> dsa_live := removeAll (ref_pointer r) (dsa_live sh') \<rparr>
                       else sh'),
           (if found then filter (\<lambda>key. \<not> key_matches m name key) acquisitions
            else acquisitions)))"

text \<open>The cleanup of \<open>unload_module\<close>: the keys of the module are forgotten.\<close>

definition unload_acquisitions ::
  "alloc_module \<Rightarrow> ModuleAllocationKey list \<Rightarrow> ModuleAllocationKey list" where
  "unload_acquisitions m acquisitions = filter (\<lambda>key. key_module_id key \<noteq> module_id m) acquisitions"

text \<open>The loops of \<open>deinitialize_backend\<close>.\<close>

definition release_key ::
  "ModuleAllocationKey \<Rightarrow> (ModuleAllocationKey, ModuleAllocation) htab \<Rightarrow>
   (ModuleAllocationKey, ModuleAllocation) htab" where
  "release_key key tab =
     (case hash_find tab key of
        None \<Rightarrow> tab
      | Some alloc \<Rightarrow> hash_enter key (alloc \<lparr> alloc_refcounter := alloc_refcounter alloc - 1 \<rparr>) tab)"

definition deinitialize_acquisitions ::
  "alloc_module list \<Rightarrow> shared_state \<times> ModuleAllocationKey list \<Rightarrow>
   shared_state \<times> ModuleAllocationKey list" where
  "deinitialize_acquisitions initialized_modules st =
     (case st of (sh, acquisitions) \<Rightarrow>
        (sh \<lparr> omni_allocations :=
           fold (\<lambda>m tab. fold release_key
                   (filter (\<lambda>key. key_module_id key = module_id m) acquisitions) tab)
             initialized_modules (omni_allocations sh) \<rparr>, []))"

section \<open>Keys\<close>

lemma strncpy_short:
  assumes "length name \<le> NAMEDATALEN - 1"
  shows "strncpy name NAMEDATALEN = name @ 0 # replicate (NAMEDATALEN - 1 - length name) 0"
    and "strncpy name (NAMEDATALEN - 1) = name @ replicate (NAMEDATALEN - 1 - length name) 0"
proof -
  have "NAMEDATALEN - length name = Suc (NAMEDATALEN - 1 - length name)" using assms by simp
  then show "strncpy name NAMEDATALEN = name @ 0 # replicate (NAMEDATALEN - 1 - length name) 0"
    using assms by (simp add: strncpy_def)
qed (use assms in \<open>simp add: strncpy_def\<close>)

lemma last_strncpy:
  "length name \<le> NAMEDATALEN - 1 \<Longrightarrow> last (strncpy name NAMEDATALEN) = 0"
  by (simp only: strncpy_short) simp

lemma acquisition_key_zero:
  "length name \<le> NAMEDATALEN - 1 \<Longrightarrow> acquisition_key mid name 0 = allocation_key mid name"
  unfolding acquisition_key_def allocation_key_def
  by (simp only: strncpy_short) (simp add: replicate_append_same)

lemma acquisition_key_garbage:
  assumes "length name' \<le> NAMEDATALEN - 1" "g \<noteq> 0"
  shows "acquisition_key mid name g \<noteq> allocation_key mid' name'"
proof
  assume "acquisition_key mid name g = allocation_key mid' name'"
  then have "last (strncpy name (NAMEDATALEN - 1) @ [g]) = last (strncpy name' NAMEDATALEN)"
    by (simp add: acquisition_key_def allocation_key_def)
  with assms show False by (simp add: last_strncpy)
qed

lemma c_string_strncpy:
  assumes "0 \<notin> set name" "length name \<le> NAMEDATALEN - 1"
  shows "c_string (strncpy name NAMEDATALEN) = name"
  using assms(1) unfolding c_string_def strncpy_short[OF assms(2)]
  by (subst takeWhile_append2) auto

text \<open>The keys that a backend remembers when the last byte happens to be zero.\<close>

definition clean_key :: "ModuleAllocationKey \<Rightarrow> bool" where
  "clean_key key \<longleftrightarrow> (\<exists>mid name. 0 \<notin> set name \<and> length name \<le> NAMEDATALEN - 1 \<and>
     key = allocation_key mid name)"

lemma key_matches_iff:
  assumes "clean_key key" "0 \<notin> set name" "length name \<le> NAMEDATALEN - 1"
  shows "key_matches m name key \<longleftrightarrow> key = allocation_key (module_id m) name"
  using assms by (auto simp: clean_key_def key_matches_def allocation_key_def c_string_strncpy)

section \<open>Use by backends\<close>

text \<open>
  A backend: the keys it remembers, and what its modules have acquired and not yet released, with the blocks they were given.
\<close>

record alloc_backend =
  remembered :: "ModuleAllocationKey list"
  in_use :: "(ModuleAllocationKey \<times> dsa_pointer) list"

type_synonym alloc_world = "shared_state \<times> alloc_backend list"

definition uses_of :: "alloc_backend \<Rightarrow> ModuleAllocationKey \<Rightarrow> nat" where
  "uses_of b key = count_list (map fst (in_use b)) key"

definition uses :: "alloc_backend list \<Rightarrow> ModuleAllocationKey \<Rightarrow> nat" where
  "uses bs key = sum_list (map (\<lambda>b. uses_of b key) bs)"

fun acquire :: "(dsa_pointer option \<times> 'a) outcome \<Rightarrow> ModuleAllocationKey \<Rightarrow> (ModuleAllocationKey \<times> dsa_pointer) list \<Rightarrow>
  (ModuleAllocationKey \<times> dsa_pointer) list" where
  "acquire (Inr (Some p, _)) key us = (key, p) # us"
| "acquire _ key us = us"

text \<open>
  Steps of the backends: allocation and lookup, with any contents of the uninitialised byte; an allocation whose callback
  raises an error; the release of something the backend has acquired and not released; unloading a module;
  and the exit of a backend, orderly or after a fatal error.  A block that the allocator returns is not in use, and a
  reference count at its maximum is not increased.
\<close>

inductive alloc_step :: "alloc_world \<Rightarrow> alloc_world \<Rightarrow> bool" where
  step_allocate: "b < length bs \<Longrightarrow> 0 \<notin> set name \<Longrightarrow> p \<notin> set (dsa_live sh) \<Longrightarrow>
    (\<And>a. hash_find (omni_allocations sh) (allocation_key (module_id m) name) = Some a \<Longrightarrow> alloc_refcounter a \<noteq> -1) \<Longrightarrow>
    allocate_shmem m name sz has_init p garbage (sh, remembered (bs ! b)) = (r, sh', acq') \<Longrightarrow>
    alloc_step (sh, bs) (sh', bs[b := \<lparr>remembered = acq',
      in_use = acquire r (allocation_key (module_id m) name) (in_use (bs ! b))\<rparr>])"
| step_init_raises: "0 \<notin> set name \<Longrightarrow> p \<notin> set (dsa_live sh) \<Longrightarrow>
    (\<And>a. hash_find (omni_allocations sh) (allocation_key (module_id m) name) = Some a \<Longrightarrow> alloc_refcounter a \<noteq> -1) \<Longrightarrow>
    find_or_allocate_shmem_dsa m name sz True HASH_ENTER p sh = (Inr (ref, found, call # calls), sh') \<Longrightarrow>
    alloc_step (sh, bs) (sh', bs)"
| step_lookup: "b < length bs \<Longrightarrow> 0 \<notin> set name \<Longrightarrow>
    (\<And>a. hash_find (omni_allocations sh) (allocation_key (module_id m) name) = Some a \<Longrightarrow> alloc_refcounter a \<noteq> -1) \<Longrightarrow>
    lookup_shmem m name garbage (sh, remembered (bs ! b)) = (r, sh', acq') \<Longrightarrow>
    alloc_step (sh, bs) (sh', bs[b := \<lparr>remembered = acq',
      in_use = acquire r (allocation_key (module_id m) name) (in_use (bs ! b))\<rparr>])"
| step_deallocate: "b < length bs \<Longrightarrow> 0 \<notin> set name \<Longrightarrow>
    (allocation_key (module_id m) name, p) \<in> set (in_use (bs ! b)) \<Longrightarrow>
    deallocate_shmem m name (sh, remembered (bs ! b)) = (r', sh', acq') \<Longrightarrow>
    alloc_step (sh, bs) (sh', bs[b := \<lparr>remembered = acq',
      in_use = remove1 (allocation_key (module_id m) name, p) (in_use (bs ! b))\<rparr>])"
| step_unload: "b < length bs \<Longrightarrow>
    alloc_step (sh, bs) (sh, bs[b := (bs ! b)\<lparr>remembered := unload_acquisitions m (remembered (bs ! b))\<rparr>])"
| step_exit: "b < length bs \<Longrightarrow> distinct (map module_id ms) \<Longrightarrow>
    deinitialize_acquisitions ms (sh, remembered (bs ! b)) = (sh', acq') \<Longrightarrow>
    alloc_step (sh, bs) (sh', bs[b := \<lparr>remembered = acq', in_use = []\<rparr>])"
| step_fatal: "b < length bs \<Longrightarrow> alloc_step (sh, bs) (sh, bs[b := \<lparr>remembered = [], in_use = []\<rparr>])"

inductive alloc_reach :: "nat \<Rightarrow> alloc_world \<Rightarrow> bool" for n where
  start: "alloc_reach n (\<lparr> omni_allocations = [], dsa_live = [] \<rparr>, replicate n \<lparr>remembered = [], in_use = []\<rparr>)"
| step: "alloc_reach n w \<Longrightarrow> alloc_step w w' \<Longrightarrow> alloc_reach n w'"

section \<open>Reference counts\<close>

text \<open>
  The invariant of the table: counts cover the uses, blocks are in use and belong to one entry.  Of a backend: what it uses is
  in the table, and it remembers no key more often than it uses it, so that its exit releases only what was its own.
\<close>

definition table_ok :: "shared_state \<Rightarrow> (ModuleAllocationKey \<Rightarrow> nat) \<Rightarrow> bool" where
  "table_ok sh n \<longleftrightarrow> hash_wf (omni_allocations sh) \<and>
     (\<forall>key a. hash_find (omni_allocations sh) key = Some a \<longrightarrow>
        clean_key key \<and> n key \<le> unat (alloc_refcounter a) \<and> alloc_pointer a \<in> set (dsa_live sh)) \<and>
     (\<forall>key key' a a'. hash_find (omni_allocations sh) key = Some a \<longrightarrow>
        hash_find (omni_allocations sh) key' = Some a' \<longrightarrow> alloc_pointer a = alloc_pointer a' \<longrightarrow> key = key')"

definition uses_ok :: "shared_state \<Rightarrow> (ModuleAllocationKey \<times> dsa_pointer) list \<Rightarrow> bool" where
  "uses_ok sh us \<longleftrightarrow> list_all (\<lambda>(key, p). map_option alloc_pointer (hash_find (omni_allocations sh) key) = Some p) us"

definition memory_ok :: "alloc_backend \<Rightarrow> bool" where
  "memory_ok b \<longleftrightarrow> (\<forall>key. clean_key key \<longrightarrow> count_list (remembered b) key \<le> uses_of b key)"

definition alloc_inv :: "alloc_world \<Rightarrow> bool" where
  "alloc_inv w \<longleftrightarrow> table_ok (fst w) (uses (snd w)) \<and> list_all (\<lambda>b. uses_ok (fst w) (in_use b) \<and> memory_ok b) (snd w)"

lemma table_okD:
  assumes "table_ok sh n"
  shows "hash_wf (omni_allocations sh)"
    and "hash_find (omni_allocations sh) key = Some a \<Longrightarrow> clean_key key"
    and "hash_find (omni_allocations sh) key = Some a \<Longrightarrow> n key \<le> unat (alloc_refcounter a)"
    and "hash_find (omni_allocations sh) key = Some a \<Longrightarrow> alloc_pointer a \<in> set (dsa_live sh)"
    and "hash_find (omni_allocations sh) key = Some a \<Longrightarrow> hash_find (omni_allocations sh) key' = Some a' \<Longrightarrow>
         alloc_pointer a = alloc_pointer a' \<Longrightarrow> key = key'"
  using assms by (auto simp: table_ok_def)

definition keeps :: "shared_state \<Rightarrow> shared_state \<Rightarrow> bool" where
  "keeps sh sh' \<longleftrightarrow> (\<forall>key p. map_option alloc_pointer (hash_find (omni_allocations sh) key) = Some p \<longrightarrow>
     map_option alloc_pointer (hash_find (omni_allocations sh') key) = Some p)"

lemma uses_ok_keeps: "keeps sh sh' \<Longrightarrow> uses_ok sh us \<Longrightarrow> uses_ok sh' us"
  unfolding keeps_def uses_ok_def by (auto simp: list_all_iff)

lemma alloc_invD:
  assumes "alloc_inv (sh, bs)"
  shows "table_ok sh (uses bs)" "b < length bs \<Longrightarrow> uses_ok sh (in_use (bs ! b))" "b < length bs \<Longrightarrow> memory_ok (bs ! b)"
  using assms by (auto simp: alloc_inv_def list_all_length)

lemma alloc_inv_update:
  assumes "alloc_inv (sh, bs)" "table_ok sh' (uses (bs[b := x]))" "uses_ok sh' (in_use x)" "memory_ok x"
    "\<And>c. c < length bs \<Longrightarrow> c \<noteq> b \<Longrightarrow> uses_ok sh' (in_use (bs ! c))"
  shows "alloc_inv (sh', bs[b := x])"
  unfolding alloc_inv_def list_all_length
proof (intro conjI allI impI)
  fix c assume "c < length (snd (sh', bs[b := x]))"
  then show "uses_ok (fst (sh', bs[b := x])) (in_use (snd (sh', bs[b := x]) ! c))" "memory_ok (snd (sh', bs[b := x]) ! c)"
    using assms(3-5) alloc_invD(3)[OF assms(1)] by (cases "c = b"; simp)+
qed (use assms(2) in simp)

lemma uses_update: "b < length bs \<Longrightarrow> uses (bs[b := x]) key + uses_of (bs ! b) key = uses bs key + uses_of x key"
proof (induction bs arbitrary: b)
  case (Cons y bs)
  then show ?case by (cases b) (auto simp: uses_def)
qed simp

lemma uses_of_le: "b < length bs \<Longrightarrow> uses_of (bs ! b) key \<le> uses bs key"
  using uses_update[of b bs "\<lparr>remembered = [], in_use = []\<rparr>" key] by (simp add: uses_of_def)

lemma uses_of_pos: "(key, p) \<in> set (in_use b) \<Longrightarrow> 0 < uses_of b key"
  unfolding uses_of_def by (metis count_list_0_iff fst_conv image_eqI list.set_map neq0_conv)

lemma uses_of_zero: "uses_ok sh us \<Longrightarrow> hash_find (omni_allocations sh) key = None \<Longrightarrow> key \<notin> fst ` set us"
  by (auto simp: uses_ok_def list_all_iff)

lemma uses_absent:
  assumes "alloc_inv (sh, bs)" "hash_find (omni_allocations sh) key = None"
  shows "uses bs key = 0"
proof -
  have "uses_of b key = 0" if "b \<in> set bs" for b
    using that assms uses_of_zero[of sh "in_use b" key]
    by (auto simp: alloc_inv_def list_all_iff uses_of_def count_list_0_iff)
  then show ?thesis by (simp add: uses_def)
qed

text \<open>One more reference to an entry.\<close>

lemma table_enter:
  assumes ok: "table_ok sh n" and clean: "clean_key key" and live: "set (dsa_live sh) \<subseteq> set live"
    and entry: "case hash_find (omni_allocations sh) key of
        None \<Rightarrow> alloc_refcounter a = 1 \<and> alloc_pointer a \<notin> set (dsa_live sh) \<and> alloc_pointer a \<in> set live \<and> n key = 0
      | Some old \<Rightarrow> alloc_refcounter a = alloc_refcounter old + 1 \<and> alloc_refcounter old \<noteq> -1 \<and> alloc_pointer a = alloc_pointer old"
    and n': "\<And>k. n' k \<le> n k + (if k = key then 1 else 0)"
  defines "sh' \<equiv> sh \<lparr> omni_allocations := hash_enter key a (omni_allocations sh), dsa_live := live \<rparr>"
  shows "table_ok sh' n'" "keeps sh sh'"
proof -
  note D = table_okD[OF ok]
  have find: "hash_find (omni_allocations sh') k = (if k = key then Some a else hash_find (omni_allocations sh) k)" for k
    by (simp add: sh'_def htab_simps)
  have ref: "n key + 1 \<le> unat (alloc_refcounter a)"
  proof (cases "hash_find (omni_allocations sh) key")
    case (Some old)
    then have a: "alloc_refcounter a = alloc_refcounter old + 1" "1 + alloc_refcounter old \<noteq> 0"
      using entry by (simp_all add: add_eq_0_iff)
    then have "unat (alloc_refcounter a) = Suc (unat (alloc_refcounter old))"
      using unatSuc[OF a(2)] by (simp add: add.commute)
    then show ?thesis using D(3)[OF Some] by linarith
  qed (use entry in simp)
  show "keeps sh sh'" using entry by (cases "hash_find (omni_allocations sh) key") (simp_all add: keeps_def find)
  have ptr: "k = key" if "hash_find (omni_allocations sh) k = Some x" "alloc_pointer x = alloc_pointer a" for k x
  proof (cases "hash_find (omni_allocations sh) key")
    case None
    then show ?thesis using entry that D(4)[OF that(1)] by simp
  next
    case (Some old)
    then show ?thesis using entry that(2) D(5)[OF that(1) Some] by simp
  qed
  have "alloc_pointer a \<in> set live"
  proof (cases "hash_find (omni_allocations sh) key")
    case (Some old)
    then show ?thesis using entry live D(4)[OF Some] by auto
  qed (use entry in simp)
  then have "clean_key k \<and> n' k \<le> unat (alloc_refcounter x) \<and> alloc_pointer x \<in> set live"
    if "hash_find (omni_allocations sh') k = Some x" for k x
    using that ref n'[of k] clean live D(2-4)[of k x] by (cases "k = key") (auto simp: find)
  moreover have "hash_wf (omni_allocations sh')" using D(1) by (simp add: sh'_def htab_simps)
  moreover have "k = k'" if "hash_find (omni_allocations sh') k = Some x" "hash_find (omni_allocations sh') k' = Some x'"
    "alloc_pointer x = alloc_pointer x'" for k k' x x'
    using that ptr D(5) unfolding find by (metis option.inject)
  ultimately show "table_ok sh' n'" unfolding table_ok_def sh'_def by simp
qed

lemma allocate_shmem_eq:
  fixes m :: alloc_module
  assumes "length name \<le> NAMEDATALEN - 1" "sz > 0"
  defines "key \<equiv> allocation_key (module_id m) name"
  shows "allocate_shmem m name sz has_init p garbage (sh, acq) =
    (let old = hash_find (omni_allocations sh) key;
         a = (case old of
                None \<Rightarrow> \<lparr> alloc_pointer = p, alloc_size = sz, alloc_refcounter = 1 \<rparr>
              | Some a \<Rightarrow> a \<lparr> alloc_refcounter := alloc_refcounter a + 1 \<rparr>)
     in (Inr (Some (alloc_pointer a), old \<noteq> None, init_calls m has_init HASH_ENTER
               (Some \<lparr> ref_pointer = alloc_pointer a, ref_alloc = True \<rparr>) (old \<noteq> None)),
         sh \<lparr> omni_allocations := hash_enter key a (omni_allocations sh),
              dsa_live := p # dsa_live sh \<rparr>,
         acq @ [acquisition_key (module_id m) name garbage]))"
  using assms
  by (cases "hash_find (omni_allocations sh) key")
    (simp_all add: allocate_shmem_def find_or_allocate_shmem_def find_or_allocate_shmem_dsa_def
      table_action_def is_enter_def Let_def)

lemma lookup_shmem_eq:
  fixes m :: alloc_module
  assumes "length name \<le> NAMEDATALEN - 1"
  defines "key \<equiv> allocation_key (module_id m) name"
  shows "lookup_shmem m name garbage (sh, acq) =
    (case hash_find (omni_allocations sh) key of
       None \<Rightarrow> (Inr (None, False, []), sh, acq)
     | Some a \<Rightarrow>
         (Inr (Some (alloc_pointer a), True, []),
          sh \<lparr> omni_allocations := hash_enter key
                 (a \<lparr> alloc_refcounter := alloc_refcounter a + 1 \<rparr>) (omni_allocations sh) \<rparr>,
          acq @ [acquisition_key (module_id m) name garbage]))"
  using assms
  by (cases "hash_find (omni_allocations sh) key")
    (simp_all add: lookup_shmem_def find_or_allocate_shmem_def find_or_allocate_shmem_dsa_def
      table_action_def is_enter_def Let_def init_calls_def)

lemma find_release_key:
  "hash_find (release_key key tab) k =
     map_option (\<lambda>a. if k = key then a \<lparr> alloc_refcounter := alloc_refcounter a - 1 \<rparr> else a)
       (hash_find tab k)"
  by (cases "k = key"; cases "hash_find tab key")
    (simp_all add: release_key_def htab_simps option.map_ident)

lemma find_fold_release:
  "hash_find (fold release_key keys tab) k =
     map_option (\<lambda>a. a \<lparr> alloc_refcounter := alloc_refcounter a - of_nat (count_list keys k) \<rparr>)
       (hash_find tab k)"
proof (induction keys arbitrary: tab)
  case (Cons key keys)
  show ?case
    by (cases "hash_find tab k") (auto simp: Cons.IH find_release_key algebra_simps)
qed (simp add: option.map_ident)

lemma wf_fold_release: "hash_wf tab \<Longrightarrow> hash_wf (fold release_key keys tab)"
  by (induction keys arbitrary: tab) (auto simp: release_key_def htab_simps split: option.split)

lemma count_filter_ids:
  assumes "distinct ids" "key_module_id k \<in> set ids"
  shows "count_list (concat (map (\<lambda>i. filter (\<lambda>key. key_module_id key = i) acq) ids)) k =
    count_list acq k"
proof -
  have one: "count_list (filter (\<lambda>key. key_module_id key = i) acq) k =
      (if key_module_id k = i then count_list acq k else 0)" for i
    by (induction acq) auto
  have none: "key_module_id k \<notin> set is \<Longrightarrow>
      count_list (concat (map (\<lambda>i. filter (\<lambda>key. key_module_id key = i) acq) is)) k = 0" for "is"
    by (induction "is") (auto simp: one)
  show ?thesis using assms by (induction ids) (auto simp: one none)
qed

lemma count_filter_neq:
  "count_list (filter (\<lambda>x. x \<noteq> y) xs) k = (if k = y then 0 else count_list xs k)"
  by (induction xs) auto

lemma fold_fold_concat:
  "fold (\<lambda>m tab. fold f (g m) tab) ms tab = fold f (concat (map g ms)) tab"
  by (induction ms arbitrary: tab) auto

lemma table_release:
  assumes ok: "table_ok sh n" and wf: "hash_wf tab"
    and find: "\<And>k. hash_find tab k = map_option
        (\<lambda>a. a \<lparr> alloc_refcounter := alloc_refcounter a - of_nat (c k) \<rparr>) (hash_find (omni_allocations sh) k)"
    and c: "\<And>k. clean_key k \<Longrightarrow> n' k + c k \<le> n k"
  shows "table_ok (sh \<lparr> omni_allocations := tab \<rparr>) n'" "keeps sh (sh \<lparr> omni_allocations := tab \<rparr>)"
proof -
  note D = table_okD[OF ok]
  have "clean_key k \<and> n' k \<le> unat (alloc_refcounter x) \<and> alloc_pointer x \<in> set (dsa_live sh)"
    if x: "hash_find tab k = Some x" for k x
  proof -
    obtain a where a: "hash_find (omni_allocations sh) k = Some a"
      "x = a \<lparr> alloc_refcounter := alloc_refcounter a - of_nat (c k) \<rparr>"
      using x unfolding find by auto
    have "c k \<le> unat (alloc_refcounter a)" "n' k + c k \<le> unat (alloc_refcounter a)"
      using D(3)[OF a(1)] c[OF D(2)[OF a(1)]] by linarith+
    moreover from this(1) have "unat (of_nat (c k) :: 32 word) = c k" by (metis le_unat_uoi)
    ultimately have "unat (alloc_refcounter a - of_nat (c k)) = unat (alloc_refcounter a) - c k"
      "n' k \<le> unat (alloc_refcounter a) - c k"
      by (simp_all add: unat_sub word_le_nat_alt)
    then show ?thesis using a(2) D(2,4)[OF a(1)] by simp
  qed
  moreover have "k = k'" if x: "hash_find tab k = Some x" "hash_find tab k' = Some x'" "alloc_pointer x = alloc_pointer x'"
    for k k' x x'
  proof -
    obtain a a' where "hash_find (omni_allocations sh) k = Some a" "alloc_pointer a = alloc_pointer x"
      "hash_find (omni_allocations sh) k' = Some a'" "alloc_pointer a' = alloc_pointer x'"
      using x unfolding find by auto
    then show ?thesis using x(3) D(5)[of k a k' a'] by simp
  qed
  ultimately show "table_ok (sh \<lparr> omni_allocations := tab \<rparr>) n'" using wf unfolding table_ok_def by simp
  show "keeps sh (sh \<lparr> omni_allocations := tab \<rparr>)" by (auto simp: keeps_def find)
qed

lemma table_weaken: "table_ok sh n \<Longrightarrow> (\<And>k. n' k \<le> n k) \<Longrightarrow> table_ok sh n'"
  unfolding table_ok_def by (meson order_trans)

lemma table_live: "table_ok sh n \<Longrightarrow> table_ok (sh \<lparr> dsa_live := p # dsa_live sh \<rparr>) n"
  by (auto simp: table_ok_def)

text \<open>Removing an entry that nobody uses, and freeing its block.\<close>

lemma table_drop:
  assumes "table_ok sh n" "hash_find (omni_allocations sh) key = Some a"
  defines "sh' \<equiv> sh \<lparr> omni_allocations := hash_remove key (omni_allocations sh),
    dsa_live := removeAll (alloc_pointer a) (dsa_live sh) \<rparr>"
  shows "table_ok sh' n" "key \<notin> fst ` set us \<Longrightarrow> uses_ok sh us \<Longrightarrow> uses_ok sh' us"
proof -
  note D = table_okD[OF assms(1)]
  have find: "hash_find (omni_allocations sh') k = (if k = key then None else hash_find (omni_allocations sh) k)" for k
    using D(1) by (simp add: sh'_def htab_simps)
  have "clean_key k \<and> n k \<le> unat (alloc_refcounter x) \<and> alloc_pointer x \<in> set (dsa_live sh')"
    if "hash_find (omni_allocations sh') k = Some x" for k x
  proof -
    have k: "k \<noteq> key" "hash_find (omni_allocations sh) k = Some x" using that by (auto simp: find split: if_splits)
    then have "alloc_pointer x \<noteq> alloc_pointer a" using D(5)[OF assms(2) k(2)] by auto
    then show ?thesis using D(2-4)[OF k(2)] by (simp add: sh'_def)
  qed
  moreover have "hash_wf (omni_allocations sh')" using D(1) by (simp add: sh'_def htab_simps)
  moreover have "k = k'" if "hash_find (omni_allocations sh') k = Some x" "hash_find (omni_allocations sh') k' = Some x'"
    "alloc_pointer x = alloc_pointer x'" for k k' x x'
    using that D(5)[of k x k' x'] unfolding find by (metis option.distinct(1))
  ultimately show "table_ok sh' n" unfolding table_ok_def by blast
  show "uses_ok sh' us" if "key \<notin> fst ` set us" "uses_ok sh us"
    using that by (force simp: uses_ok_def list_all_iff find)
qed

section \<open>Every step keeps the invariant\<close>

lemma clean_allocation_key:
  "0 \<notin> set name \<Longrightarrow> length name \<le> NAMEDATALEN - 1 \<Longrightarrow> clean_key (allocation_key mid name)"
  unfolding clean_key_def by blast

lemma clean_name_length:
  assumes "clean_key (allocation_key mid name)" "0 \<notin> set name"
  shows "length name \<le> NAMEDATALEN - 1"
proof (rule ccontr)
  assume long: "\<not> length name \<le> NAMEDATALEN - 1"
  then have eq: "strncpy name NAMEDATALEN = take NAMEDATALEN name" "take NAMEDATALEN name \<noteq> []"
    by (auto simp: strncpy_def)
  obtain mid' name' where "allocation_key mid name = allocation_key mid' name'" "length name' \<le> NAMEDATALEN - 1"
    using assms(1) unfolding clean_key_def by blast
  then have "last (take NAMEDATALEN name) = 0"
    using last_strncpy[of name'] eq(1) by (simp add: allocation_key_def)
  then show False using last_in_set[OF eq(2)] assms(2) set_take_subset[of NAMEDATALEN name] by auto
qed

lemma clean_acquisition_key:
  assumes "clean_key (acquisition_key mid name g)" "length name \<le> NAMEDATALEN - 1"
  shows "acquisition_key mid name g = allocation_key mid name"
proof (cases "g = 0")
  case False
  then have "\<not> clean_key (acquisition_key mid name g)"
    using acquisition_key_garbage[OF _ False] by (auto simp: clean_key_def)
  then show ?thesis using assms(1) by simp
qed (use acquisition_key_zero[OF assms(2)] in simp)

lemma memory_acquire:
  assumes "memory_ok b" "length name \<le> NAMEDATALEN - 1"
  shows "memory_ok \<lparr>remembered = remembered b @ [acquisition_key mid name g], in_use = (allocation_key mid name, p) # in_use b\<rparr>"
  using assms clean_acquisition_key[OF _ assms(2)] by (fastforce simp: memory_ok_def uses_of_def)

text \<open>An entry with one more reference, or a new one.\<close>

definition one_more :: "shared_state \<Rightarrow> ModuleAllocationKey \<Rightarrow> ModuleAllocation \<Rightarrow> dsa_pointer list \<Rightarrow> bool" where
  "one_more sh key a live \<longleftrightarrow> set (dsa_live sh) \<subseteq> set live \<and> (case hash_find (omni_allocations sh) key of
        None \<Rightarrow> alloc_refcounter a = 1 \<and> alloc_pointer a \<notin> set (dsa_live sh) \<and> alloc_pointer a \<in> set live
      | Some old \<Rightarrow> alloc_refcounter a = alloc_refcounter old + 1 \<and> alloc_refcounter old \<noteq> -1 \<and> alloc_pointer a = alloc_pointer old)"

lemma table_one_more:
  assumes inv: "alloc_inv (sh, bs)" and clean: "clean_key key" and more: "one_more sh key a live"
    and n': "\<And>k. n' k \<le> uses bs k + (if k = key then 1 else 0)"
  defines "sh' \<equiv> sh \<lparr> omni_allocations := hash_enter key a (omni_allocations sh), dsa_live := live \<rparr>"
  shows "table_ok sh' n'" "keeps sh sh'"
proof -
  have entry: "case hash_find (omni_allocations sh) key of
        None \<Rightarrow> alloc_refcounter a = 1 \<and> alloc_pointer a \<notin> set (dsa_live sh) \<and> alloc_pointer a \<in> set live \<and> uses bs key = 0
      | Some old \<Rightarrow> alloc_refcounter a = alloc_refcounter old + 1 \<and> alloc_refcounter old \<noteq> -1 \<and> alloc_pointer a = alloc_pointer old"
    using more uses_absent[OF inv, of key] by (cases "hash_find (omni_allocations sh) key") (simp_all add: one_more_def)
  have "set (dsa_live sh) \<subseteq> set live" using more by (simp add: one_more_def)
  from table_enter[OF alloc_invD(1)[OF inv] clean this entry n', folded sh'_def]
  show "table_ok sh' n'" "keeps sh sh'" .
qed

lemma alloc_inv_enter:
  assumes inv: "alloc_inv (sh, bs)" and clean: "clean_key key" and more: "one_more sh key a live"
  shows "alloc_inv (sh \<lparr> omni_allocations := hash_enter key a (omni_allocations sh), dsa_live := live \<rparr>, bs)"
proof -
  note T = table_one_more[OF inv clean more, of "uses bs"]
  show ?thesis
    using T uses_ok_keeps[OF T(2)] alloc_invD(2,3)[OF inv] by (simp add: alloc_inv_def list_all_length)
qed

lemma alloc_inv_acquire:
  assumes inv: "alloc_inv (sh, bs)" and b: "b < length bs" and name: "0 \<notin> set name" "length name \<le> NAMEDATALEN - 1"
    and more: "one_more sh (allocation_key mid name) a live"
  shows "alloc_inv (sh \<lparr> omni_allocations := hash_enter (allocation_key mid name) a (omni_allocations sh), dsa_live := live \<rparr>,
    bs[b := \<lparr>remembered = remembered (bs ! b) @ [acquisition_key mid name g],
       in_use = (allocation_key mid name, alloc_pointer a) # in_use (bs ! b)\<rparr>])"
proof -
  let ?key = "allocation_key mid name"
  let ?x = "\<lparr>remembered = remembered (bs ! b) @ [acquisition_key mid name g], in_use = (?key, alloc_pointer a) # in_use (bs ! b)\<rparr>"
  have "uses (bs[b := ?x]) k \<le> uses bs k + (if k = ?key then 1 else 0)" for k
    using uses_update[OF b, of ?x k] by (auto simp: uses_of_def)
  note T = table_one_more[OF inv clean_allocation_key[OF name] more this]
  note others = uses_ok_keeps[OF T(2) alloc_invD(2)[OF inv]]
  show ?thesis
    by (intro alloc_inv_update[OF inv] T(1) others memory_acquire alloc_invD(3)[OF inv b] name(2))
       (use others[OF b] in \<open>simp_all add: uses_ok_def htab_simps\<close>)
qed

lemma count_remove1_fst:
  "(key, p) \<in> set us \<Longrightarrow>
     count_list (map fst (remove1 (key, p) us)) k + (if k = key then 1 else 0) = count_list (map fst us) k"
  by (induction us) auto

lemma deallocate_shmem_eq:
  fixes m :: alloc_module
  assumes "length name \<le> NAMEDATALEN - 1" "hash_find (omni_allocations sh) (allocation_key (module_id m) name) = Some a"
  defines "key \<equiv> allocation_key (module_id m) name"
  shows "deallocate_shmem m name (sh, acq) =
    (Inr True,
     (if alloc_refcounter a - 1 = 0
      then sh \<lparr> omni_allocations := hash_remove key (omni_allocations sh),
                dsa_live := removeAll (alloc_pointer a) (dsa_live sh) \<rparr>
      else sh \<lparr> omni_allocations := hash_enter key (a \<lparr> alloc_refcounter := alloc_refcounter a - 1 \<rparr>) (omni_allocations sh) \<rparr>),
     filter (\<lambda>k. \<not> key_matches m name k) acq)"
  using assms
  by (simp add: deallocate_shmem_def find_or_allocate_shmem_dsa_def table_action_def is_enter_def Let_def)

lemma memory_forget:
  assumes "memory_ok b" "0 \<notin> set name" "length name \<le> NAMEDATALEN - 1" "(allocation_key (module_id m) name, p) \<in> set (in_use b)"
  shows "memory_ok \<lparr>remembered = filter (\<lambda>k. \<not> key_matches m name k) (remembered b),
    in_use = remove1 (allocation_key (module_id m) name, p) (in_use b)\<rparr>"
  unfolding memory_ok_def
proof (intro allI impI)
  fix k
  assume k: "clean_key k"
  have "count_list (filter P xs) k = (if P k then count_list xs k else 0)" for P xs
    by (induction xs) auto
  then show "count_list (remembered \<lparr>remembered = filter (\<lambda>k. \<not> key_matches m name k) (remembered b),
      in_use = remove1 (allocation_key (module_id m) name, p) (in_use b)\<rparr>) k
    \<le> uses_of \<lparr>remembered = filter (\<lambda>k. \<not> key_matches m name k) (remembered b),
      in_use = remove1 (allocation_key (module_id m) name, p) (in_use b)\<rparr> k"
    using assms(1) k count_remove1_fst[OF assms(4), of k] key_matches_iff[OF k assms(2,3), of m]
    by (auto simp: memory_ok_def uses_of_def)
qed

lemma alloc_inv_deallocate:
  assumes inv: "alloc_inv (sh, bs)" and b: "b < length bs" and name: "0 \<notin> set name"
    and held: "(allocation_key (module_id m) name, p) \<in> set (in_use (bs ! b))"
    and eq: "deallocate_shmem m name (sh, remembered (bs ! b)) = (r, sh', acq')"
  shows "alloc_inv (sh', bs[b := \<lparr>remembered = acq', in_use = remove1 (allocation_key (module_id m) name, p) (in_use (bs ! b))\<rparr>])"
proof -
  define key where "key = allocation_key (module_id m) name"
  define x where "x = \<lparr>remembered = acq', in_use = remove1 (key, p) (in_use (bs ! b))\<rparr>"
  note D = table_okD[OF alloc_invD(1)[OF inv]]
  obtain a where a: "hash_find (omni_allocations sh) key = Some a"
    using alloc_invD(2)[OF inv b] held by (auto simp: uses_ok_def list_all_iff key_def)
  have clean: "clean_key key" by (rule D(2)[OF a])
  then have len: "length name \<le> NAMEDATALEN - 1" using clean_name_length name by (simp add: key_def)
  have count: "uses_of x k + (if k = key then 1 else 0) = uses_of (bs ! b) k" for k
    using count_remove1_fst[OF held, of k] by (simp add: uses_of_def x_def key_def)
  have fewer: "uses (bs[b := x]) k + (if k = key then 1 else 0) = uses bs k" for k
    using uses_update[OF b, of x k] count[of k] by simp
  define tab where "tab = hash_enter key (a \<lparr> alloc_refcounter := alloc_refcounter a - 1 \<rparr>) (omni_allocations sh)"
  have find: "hash_find tab k = map_option (\<lambda>a. a \<lparr> alloc_refcounter := alloc_refcounter a - of_nat (if k = key then 1 else 0) \<rparr>)
      (hash_find (omni_allocations sh) k)" for k
    using a by (simp add: tab_def htab_simps option.map_ident)
  have wf: "hash_wf tab" using D(1) by (simp add: tab_def htab_simps)
  note T = table_release[OF alloc_invD(1)[OF inv] wf find, of "uses (bs[b := x])"]
  have T1: "table_ok (sh \<lparr> omni_allocations := tab \<rparr>) (uses (bs[b := x]))" "keeps sh (sh \<lparr> omni_allocations := tab \<rparr>)"
    using T fewer by simp_all
  note deq = deallocate_shmem_eq[OF len a[unfolded key_def], folded key_def]
  have mem: "memory_ok x"
    using memory_forget[OF alloc_invD(3)[OF inv b] name len held] eq by (simp add: x_def key_def deq)
  have own: "uses_ok s (in_use x)" if "uses_ok s (in_use (bs ! b))" for s
    using that by (auto simp: uses_ok_def list_all_iff x_def dest: set_remove1_subset[THEN subsetD])
  show ?thesis
  proof (cases "alloc_refcounter a - 1 = 0")
    case True
    let ?s = "sh \<lparr> omni_allocations := tab \<rparr>"
    have t: "hash_find (omni_allocations ?s) key = Some (a \<lparr> alloc_refcounter := 0 \<rparr>)"
      using True by (simp add: tab_def htab_simps)
    have zero: "uses (bs[b := x]) key = 0" using table_okD(3)[OF T1(1) t] by simp
    have unused: "key \<notin> fst ` set (in_use (bs[b := x] ! c))" if "c < length bs" for c
      using zero uses_of_pos[of key _ "bs[b := x] ! c"] uses_of_le[of c "bs[b := x]" key] that by force
    have "hash_remove key tab = hash_remove key (omni_allocations sh)"
      by (simp add: tab_def hash_remove_def hash_enter_def delete_update_same)
    then have sh': "sh' = ?s \<lparr> omni_allocations := hash_remove key (omni_allocations ?s),
        dsa_live := removeAll (alloc_pointer (a \<lparr> alloc_refcounter := 0 \<rparr>)) (dsa_live ?s) \<rparr>"
      using eq True by (simp add: deq)
    note drop = table_drop[OF T1(1) t, folded sh']
    have "uses_ok ?s (in_use (bs[b := x] ! c))" if "c < length bs" for c
      using that own uses_ok_keeps[OF T1(2) alloc_invD(2)[OF inv that]] by (cases "c = b") simp_all
    then have ok: "uses_ok sh' (in_use (bs[b := x] ! c))" if "c < length bs" for c
      using that drop(2)[OF unused] by blast
    have "alloc_inv (sh', bs[b := x])"
    proof (rule alloc_inv_update[OF inv drop(1) _ mem])
      show "uses_ok sh' (in_use x)" using ok[OF b] b by simp
      show "uses_ok sh' (in_use (bs ! c))" if "c < length bs" "c \<noteq> b" for c using ok[OF that(1)] that(2) by simp
    qed
    then show ?thesis by (simp only: x_def key_def)
  next
    case False
    then have "sh' = sh \<lparr> omni_allocations := tab \<rparr>"
      using eq by (simp add: deq tab_def)
    moreover have "alloc_inv (sh \<lparr> omni_allocations := tab \<rparr>, bs[b := x])"
      by (intro alloc_inv_update[OF inv T1(1) _ mem] own uses_ok_keeps[OF T1(2)] alloc_invD(2)[OF inv] b)
    ultimately show ?thesis by (simp only: x_def key_def)
  qed
qed

lemma alloc_inv_exit:
  assumes inv: "alloc_inv (sh, bs)" and b: "b < length bs" and dist: "distinct (map module_id ms)"
    and eq: "deinitialize_acquisitions ms (sh, remembered (bs ! b)) = (sh', acq')"
  shows "alloc_inv (sh', bs[b := \<lparr>remembered = acq', in_use = []\<rparr>])"
proof -
  define keys where "keys =
    concat (map (\<lambda>i. filter (\<lambda>key. key_module_id key = i) (remembered (bs ! b))) (map module_id ms))"
  define x where "x = \<lparr>remembered = acq', in_use = []\<rparr>"
  have sh': "sh' = sh \<lparr> omni_allocations := fold release_key keys (omni_allocations sh) \<rparr>" and acq': "acq' = []"
    using eq by (simp_all add: deinitialize_acquisitions_def fold_fold_concat keys_def comp_def)
  have "count_list keys k \<le> uses_of (bs ! b) k" if "clean_key k" for k
  proof (cases "key_module_id k \<in> set (map module_id ms)")
    case True
    have "count_list keys k = count_list (remembered (bs ! b)) k"
      unfolding keys_def by (rule count_filter_ids[OF dist True])
    then show ?thesis using alloc_invD(3)[OF inv b] that by (simp add: memory_ok_def)
  next
    case False
    then have "k \<notin> set keys" by (auto simp: keys_def)
    then show ?thesis by simp
  qed
  then have fewer: "uses (bs[b := x]) k + count_list keys k \<le> uses bs k" if "clean_key k" for k
    using uses_update[OF b, of x k] that by (fastforce simp: uses_of_def x_def)
  note T = table_release[OF alloc_invD(1)[OF inv] wf_fold_release[OF table_okD(1)[OF alloc_invD(1)[OF inv]]] find_fold_release
      fewer, folded sh']
  have "alloc_inv (sh', bs[b := x])"
    by (intro alloc_inv_update[OF inv T(1)] uses_ok_keeps[OF T(2)] alloc_invD(2)[OF inv])
       (simp_all add: x_def uses_ok_def memory_ok_def acq')
  then show ?thesis by (simp only: x_def)
qed

text \<open>Entering an allocation, remembered by the backend or not.\<close>

definition entered :: "shared_state \<Rightarrow> ModuleAllocationKey \<Rightarrow> nat \<Rightarrow> dsa_pointer \<Rightarrow> ModuleAllocation" where
  "entered sh key sz p = (case hash_find (omni_allocations sh) key of
      None \<Rightarrow> \<lparr> alloc_pointer = p, alloc_size = sz, alloc_refcounter = 1 \<rparr>
    | Some a \<Rightarrow> a \<lparr> alloc_refcounter := alloc_refcounter a + 1 \<rparr>)"

lemma entered_one_more:
  assumes "p \<notin> set (dsa_live sh)" "\<And>a. hash_find (omni_allocations sh) key = Some a \<Longrightarrow> alloc_refcounter a \<noteq> -1"
  shows "one_more sh key (entered sh key sz p) (p # dsa_live sh)"
  using assms by (cases "hash_find (omni_allocations sh) key") (auto simp: one_more_def entered_def)

lemma alloc_inv_live: "alloc_inv (sh, bs) \<Longrightarrow> alloc_inv (sh \<lparr> dsa_live := p # dsa_live sh \<rparr>, bs)"
  using table_live by (auto simp: alloc_inv_def uses_ok_def)

lemma alloc_inv_forget:
  assumes inv: "alloc_inv (sh, bs)" and b: "b < length bs"
    and x: "uses_ok sh (in_use x)" "memory_ok x" "\<And>k. uses_of x k \<le> uses_of (bs ! b) k"
  shows "alloc_inv (sh, bs[b := x])"
proof -
  have "uses (bs[b := x]) k \<le> uses bs k" for k using uses_update[OF b, of x k] x(3)[of k] by simp
  then show ?thesis
    by (intro alloc_inv_update[OF inv] table_weaken[OF alloc_invD(1)[OF inv]] x alloc_invD(2)[OF inv])
qed

lemma same_backend [simp]: "\<lparr>remembered = remembered x, in_use = in_use x\<rparr> = x"
  by (cases x) simp

lemma allocate_shmem_fails:
  assumes "NAMEDATALEN - 1 < length name \<or> sz = 0"
  shows "\<exists>e. allocate_shmem m name sz has_init p garbage (sh, acq) = (Inl e, sh \<lparr> dsa_live := p # dsa_live sh \<rparr>, acq)"
  using assms
  by (cases "NAMEDATALEN - 1 < length name")
     (simp_all add: allocate_shmem_def find_or_allocate_shmem_def find_or_allocate_shmem_dsa_def is_enter_def Let_def)

lemma lookup_shmem_fails:
  assumes "NAMEDATALEN - 1 < length name \<or> hash_find (omni_allocations sh) (allocation_key (module_id m) name) = None"
  shows "\<exists>r. lookup_shmem m name garbage (sh, acq) = (r, sh, acq) \<and> (\<forall>key us. acquire r key us = us)"
  using assms
  by (cases "NAMEDATALEN - 1 < length name")
     (simp_all add: lookup_shmem_def find_or_allocate_shmem_def find_or_allocate_shmem_dsa_def is_enter_def table_action_def Let_def)

lemma alloc_inv_step:
  assumes "alloc_step w w'" "alloc_inv w"
  shows "alloc_inv w'"
  using assms
proof (induction rule: alloc_step.induct)
  case (step_allocate b bs name p sh m sz has_init garbage r sh' acq')
  show ?case
  proof (cases "length name \<le> NAMEDATALEN - 1 \<and> sz > 0")
    case True
    let ?key = "allocation_key (module_id m) name"
    let ?a = "entered sh ?key sz p"
    have "sh' = sh \<lparr> omni_allocations := hash_enter ?key ?a (omni_allocations sh), dsa_live := p # dsa_live sh \<rparr>"
      "acq' = remembered (bs ! b) @ [acquisition_key (module_id m) name garbage]"
      "acquire r ?key (in_use (bs ! b)) = (?key, alloc_pointer ?a) # in_use (bs ! b)"
      using step_allocate(5) True by (auto simp: allocate_shmem_eq Let_def entered_def)
    then show ?thesis
      using alloc_inv_acquire[OF step_allocate(6,1,2) _ entered_one_more[OF step_allocate(3,4)]] True by simp
  next
    case False
    then have "NAMEDATALEN - 1 < length name \<or> sz = 0" by linarith
    from allocate_shmem_fails[OF this] obtain e where
      "sh' = sh \<lparr> dsa_live := p # dsa_live sh \<rparr>" "acq' = remembered (bs ! b)" "r = Inl e"
      using step_allocate(5) by (metis prod.inject)
    then show ?thesis using alloc_inv_live[OF step_allocate(6)] step_allocate(1) by (auto simp: list_update_id)
  qed
next
  case (step_init_raises name p sh m sz ref found call calls sh' bs)
  let ?key = "allocation_key (module_id m) name"
  have len: "length name \<le> NAMEDATALEN - 1"
    using step_init_raises(4) by (auto simp: find_or_allocate_shmem_dsa_def Let_def split: if_splits)
  have "sh' = sh \<lparr> omni_allocations := hash_enter ?key (entered sh ?key sz p) (omni_allocations sh), dsa_live := p # dsa_live sh \<rparr>"
    using step_init_raises(4)
    by (auto simp: find_or_allocate_shmem_dsa_def Let_def entered_def table_action_def is_enter_def
        split: if_splits option.splits)
  then show ?case
    using alloc_inv_enter[OF step_init_raises(5) clean_allocation_key[OF step_init_raises(1) len]
        entered_one_more[OF step_init_raises(2,3)]] by simp
next
  case (step_lookup b bs name sh m garbage r sh' acq')
  let ?key = "allocation_key (module_id m) name"
  show ?case
  proof (cases "length name \<le> NAMEDATALEN - 1 \<and> hash_find (omni_allocations sh) ?key \<noteq> None")
    case True
    then obtain a where a: "length name \<le> NAMEDATALEN - 1" "hash_find (omni_allocations sh) ?key = Some a" by auto
    let ?a = "a \<lparr> alloc_refcounter := alloc_refcounter a + 1 \<rparr>"
    have "sh' = sh \<lparr> omni_allocations := hash_enter ?key ?a (omni_allocations sh), dsa_live := dsa_live sh \<rparr>"
      "acq' = remembered (bs ! b) @ [acquisition_key (module_id m) name garbage]"
      "acquire r ?key (in_use (bs ! b)) = (?key, alloc_pointer ?a) # in_use (bs ! b)"
      using step_lookup(4) a by (auto simp: lookup_shmem_eq)
    moreover have more: "one_more sh ?key ?a (dsa_live sh)" using step_lookup(3) a(2) by (simp add: one_more_def)
    ultimately show ?thesis using alloc_inv_acquire[OF step_lookup(5,1,2) a(1) more, of garbage] by simp
  next
    case False
    then have "NAMEDATALEN - 1 < length name \<or> hash_find (omni_allocations sh) ?key = None" by linarith
    from lookup_shmem_fails[OF this, of garbage "remembered (bs ! b)"] obtain r1 where
      "lookup_shmem m name garbage (sh, remembered (bs ! b)) = (r1, sh, remembered (bs ! b))"
      "\<forall>key us. acquire r1 key us = us" by (elim exE conjE)
    then have "sh' = sh" "acq' = remembered (bs ! b)" "acquire r ?key (in_use (bs ! b)) = in_use (bs ! b)"
      using step_lookup(4) by auto
    then show ?thesis using step_lookup(1,5) by (simp add: list_update_id)
  qed
next
  case (step_unload b bs sh m)
  have "count_list (filter P xs) k \<le> count_list xs k" for P xs and k :: ModuleAllocationKey
    by (induction xs) auto
  then have "memory_ok ((bs ! b)\<lparr>remembered := unload_acquisitions m (remembered (bs ! b))\<rparr>)"
    using alloc_invD(3)[OF step_unload(2,1)] unfolding memory_ok_def unload_acquisitions_def
    by (simp add: uses_of_def) (meson order_trans)
  then show ?case
    using alloc_inv_forget[OF step_unload(2,1)] alloc_invD(2)[OF step_unload(2,1)] by (simp add: uses_of_def)
next
  case (step_fatal b bs sh)
  then show ?case using alloc_inv_forget[of sh bs b "\<lparr>remembered = [], in_use = []\<rparr>"]
    by (simp add: uses_of_def uses_ok_def memory_ok_def)
qed (auto intro: alloc_inv_deallocate alloc_inv_exit)

lemma alloc_inv_reach: "alloc_reach n w \<Longrightarrow> alloc_inv w"
proof (induction rule: alloc_reach.induct)
  case start
  show ?case by (auto simp: alloc_inv_def table_ok_def uses_ok_def memory_ok_def list_all_length htab_simps)
qed (rule alloc_inv_step)

section \<open>Properties\<close>


text \<open>
  Allocating under a name that exists returns the block that is there.  For a name that
  is not in the table, the first call gives the new block and has it initialised as new; a
  second call by any backend reports it as found, gives the same block, and has it
  initialised as an old one if the module's interface revision is at least 3.
\<close>
theorem allocate_is_idempotent:
  assumes "length name \<le> NAMEDATALEN - 1" "sz > 0" "sz' > 0"
    and "hash_find (omni_allocations sh) (allocation_key (module_id m) name) = None"
    and "allocate_shmem m name sz True p 0 (sh, acq) = (r, sh', acq')"
  shows "r = Inr (Some p, False, [(p, True)])
    \<and> fst (allocate_shmem m name sz' True p' 0 (sh', acq2)) =
        Inr (Some p, True, if module_revision m \<ge> 3 then [(p, False)] else [])"
  using assms(5)[unfolded allocate_shmem_eq[OF assms(1,2)]] assms(4)
  by (auto simp: allocate_shmem_eq[OF assms(1,3)] Let_def htab_simps init_calls_def is_enter_def)

text \<open>
  Acquiring an allocation twice and releasing it once leaks it.  \<open>deallocate_shmem\<close> takes one
  reference off the count but forgets every acquisition of the backend, so the count stays
  above the number of acquisitions, and the exit of the backend does not bring it down.
\<close>
theorem release_after_two_acquisitions_leaks:
  assumes "0 \<notin> set name" "length name \<le> NAMEDATALEN - 1" "sz > 0"
    and "hash_find (omni_allocations sh) (allocation_key (module_id m) name) = None"
    and "allocate_shmem m name sz has_init p 0 (sh, []) = (r1, sh1, acq1)"
    and "allocate_shmem m name sz has_init p' 0 (sh1, acq1) = (r2, sh2, acq2)"
    and "deallocate_shmem m name (sh2, acq2) = (r3, sh3, acq3)"
  shows "acq3 = [] \<and> map_option alloc_refcounter
    (hash_find (omni_allocations (fst (deinitialize_acquisitions [m] (sh3, acq3))))
      (allocation_key (module_id m) name)) = Some 1"
proof -
  let ?key = "allocation_key (module_id m) name"
  have clean: "clean_key ?key" using assms(1,2) by (rule clean_allocation_key)
  have 1: "hash_find (omni_allocations sh1) ?key =
      Some \<lparr> alloc_pointer = p, alloc_size = sz, alloc_refcounter = 1 \<rparr>" "acq1 = [?key]"
    using assms(4,5) by (auto simp: allocate_shmem_eq[OF assms(2,3)] acquisition_key_zero[OF assms(2)] Let_def htab_simps)
  have 2: "hash_find (omni_allocations sh2) ?key =
      Some \<lparr> alloc_pointer = p, alloc_size = sz, alloc_refcounter = 2 \<rparr>" "acq2 = [?key, ?key]"
    using assms(6) 1 by (auto simp: allocate_shmem_eq[OF assms(2,3)] acquisition_key_zero[OF assms(2)] Let_def htab_simps)
  have 3: "hash_find (omni_allocations sh3) ?key =
      Some \<lparr> alloc_pointer = p, alloc_size = sz, alloc_refcounter = 1 \<rparr>" "acq3 = []"
    using assms(2,7) 2
    by (auto simp: deallocate_shmem_def find_or_allocate_shmem_dsa_def table_action_def
        is_enter_def Let_def htab_simps key_matches_iff[OF clean assms(1,2)])
  then show ?thesis by (simp add: deinitialize_acquisitions_def)
qed

text \<open>
  A remembered key whose uninitialised last byte is not zero is never found again: when
  the backend exits, the reference counts of all allocations stay as they are.
\<close>
theorem uninitialised_key_byte_leaks:
  assumes "garbage \<noteq> 0" "length name \<le> NAMEDATALEN - 1"
    and "\<forall>key \<in> set (map fst (omni_allocations sh)). clean_key key"
  shows "deinitialize_acquisitions [m] (sh, [acquisition_key (module_id m) name garbage]) = (sh, [])"
proof -
  let ?k = "acquisition_key (module_id m) name garbage"
  have "\<not> clean_key ?k" using acquisition_key_garbage[OF _ assms(1)] by (auto simp: clean_key_def)
  then have "hash_find (omni_allocations sh) ?k = None"
    using assms(3) by (auto simp: hash_find_None_notin)
  then show ?thesis
    by (simp add: deinitialize_acquisitions_def release_key_def acquisition_key_def)
qed

text \<open>
  Allocating under a name that exists leaves the tentatively allocated block behind: it
  stays in use although no entry of the table refers to it.
\<close>
theorem tentative_block_leaks:
  assumes "alloc_reach n (sh, bs)" "length name \<le> NAMEDATALEN - 1" "sz > 0" "p \<notin> set (dsa_live sh)"
    and "hash_find (omni_allocations sh) (allocation_key (module_id m) name) = Some a"
    and "allocate_shmem m name sz has_init p 0 (sh, acq) = (r, sh', acq')"
  shows "p \<in> set (dsa_live sh')
    \<and> (\<nexists>key x. hash_find (omni_allocations sh') key = Some x \<and> alloc_pointer x = p)"
  using assms(6)[unfolded allocate_shmem_eq[OF assms(2,3)]] table_okD(4)[OF alloc_invD(1)[OF alloc_inv_reach[OF assms(1)]]] assms(4,5)
  by (auto simp: Let_def htab_simps split: if_splits)

section \<open>Witnesses\<close>

definition sample_module :: alloc_module where
  "sample_module = \<lparr> module_id = 4, module_revision = 7 \<rparr>"

definition sample_name :: "byte list" where "sample_name = [97, 98]"

definition empty_shared :: shared_state where
  "empty_shared = \<lparr> omni_allocations = [], dsa_live = [] \<rparr>"

definition one_shared :: shared_state where
  "one_shared = fst (snd (allocate_shmem sample_module sample_name 8 True 5 0 (empty_shared, [])))"

lemma sample_name_ok: "0 \<notin> set sample_name" "length sample_name \<le> NAMEDATALEN - 1"
  by (simp_all add: sample_name_def)

lemma one_shared_eq:
  "allocate_shmem sample_module sample_name 8 True 5 0 (empty_shared, []) =
     (Inr (Some 5, False, [(5, True)]), one_shared, [allocation_key 4 sample_name])"
  "one_shared = \<lparr> omni_allocations = [(allocation_key 4 sample_name,
     \<lparr> alloc_pointer = 5, alloc_size = 8, alloc_refcounter = 1 \<rparr>)], dsa_live = [5] \<rparr>"
  by (simp_all add: one_shared_def allocate_shmem_eq[OF sample_name_ok(2)] acquisition_key_zero[OF sample_name_ok(2)] Let_def empty_shared_def
      hash_find_empty hash_enter_def sample_module_def init_calls_def is_enter_def)

definition one_backend :: alloc_backend where
  "one_backend = \<lparr>remembered = [allocation_key 4 sample_name], in_use = [(allocation_key 4 sample_name, 5)]\<rparr>"

lemma one_reach: "alloc_reach 2 (one_shared, [one_backend, \<lparr>remembered = [], in_use = []\<rparr>])"
proof -
  let ?e = "\<lparr>remembered = [], in_use = []\<rparr>"
  have eq: "allocate_shmem sample_module sample_name 8 True 5 0 (empty_shared, remembered ([?e, ?e] ! 0)) =
     (Inr (Some 5, False, [(5, True)]), one_shared, [allocation_key 4 sample_name])"
    using one_shared_eq(1) by simp
  have "alloc_step (empty_shared, [?e, ?e]) (one_shared, [?e, ?e][0 := \<lparr>remembered = [allocation_key 4 sample_name],
      in_use = acquire (Inr (Some 5, False, [(5 :: nat, True)])) (allocation_key (module_id sample_module) sample_name) (in_use ([?e, ?e] ! 0))\<rparr>])"
    by (rule step_allocate[OF _ sample_name_ok(1) _ _ eq]) (auto simp: empty_shared_def htab_simps)
  then have "alloc_step (empty_shared, [?e, ?e]) (one_shared, [one_backend, ?e])"
    by (simp add: one_backend_def sample_module_def)
  then show ?thesis
    using alloc_reach.step[OF alloc_reach.start, of 2] by (simp add: empty_shared_def numeral_2_eq_2)
qed

text \<open>A second backend looks the allocation up, with another byte at the end of its key, and then the first one releases it and exits.\<close>

definition two_shared :: shared_state where
  "two_shared = \<lparr> omni_allocations = [(allocation_key 4 sample_name,
     \<lparr> alloc_pointer = 5, alloc_size = 8, alloc_refcounter = 2 \<rparr>)], dsa_live = [5] \<rparr>"

definition two_backend :: alloc_backend where
  "two_backend = \<lparr>remembered = [acquisition_key 4 sample_name 9], in_use = [(allocation_key 4 sample_name, 5)]\<rparr>"

lemma two_reach: "alloc_reach 2 (one_shared, [\<lparr>remembered = [], in_use = []\<rparr>, two_backend])"
proof -
  let ?e = "\<lparr>remembered = [], in_use = []\<rparr>"
  have find: "hash_find (omni_allocations one_shared) (allocation_key 4 sample_name) =
      Some \<lparr> alloc_pointer = 5, alloc_size = 8, alloc_refcounter = 1 \<rparr>"
    "hash_find (omni_allocations two_shared) (allocation_key 4 sample_name) =
      Some \<lparr> alloc_pointer = 5, alloc_size = 8, alloc_refcounter = 2 \<rparr>"
    by (simp_all add: one_shared_eq(2) two_shared_def hash_find_def)
  have eq: "lookup_shmem sample_module sample_name 9 (one_shared, remembered ([one_backend, ?e] ! 1)) =
      (Inr (Some 5, True, []), two_shared, [acquisition_key 4 sample_name 9])"
    using find(1) by (simp add: lookup_shmem_eq[OF sample_name_ok(2)] sample_module_def)
      (simp add: two_shared_def one_shared_eq(2) hash_enter_def)
  have "alloc_step (one_shared, [one_backend, ?e]) (two_shared, [one_backend, ?e][1 := \<lparr>remembered = [acquisition_key 4 sample_name 9],
      in_use = acquire (Inr (Some 5, True, [] :: init_call list)) (allocation_key (module_id sample_module) sample_name) (in_use ([one_backend, ?e] ! 1))\<rparr>])"
    by (rule step_lookup[OF _ sample_name_ok(1) _ eq]) (use find(1) in \<open>auto simp: sample_module_def\<close>)
  then have s1: "alloc_reach 2 (two_shared, [one_backend, two_backend])"
    using alloc_reach.step[OF one_reach] by (simp add: two_backend_def sample_module_def)
  have eq2: "deallocate_shmem sample_module sample_name (two_shared, remembered ([one_backend, two_backend] ! 0)) = (Inr True, one_shared, [])"
    using find(2) key_matches_iff[OF clean_allocation_key[OF sample_name_ok] sample_name_ok]
    by (simp add: deallocate_shmem_eq[OF sample_name_ok(2)] sample_module_def one_backend_def)
      (simp add: two_shared_def one_shared_eq(2) hash_enter_def)
  have "alloc_step (two_shared, [one_backend, two_backend]) (one_shared, [one_backend, two_backend][0 := \<lparr>remembered = [],
      in_use = remove1 (allocation_key (module_id sample_module) sample_name, 5) (in_use ([one_backend, two_backend] ! 0))\<rparr>])"
    by (rule step_deallocate[OF _ sample_name_ok(1) _ eq2]) (simp_all add: one_backend_def sample_module_def)
  then show ?thesis
    using alloc_reach.step[OF s1] by (simp add: one_backend_def sample_module_def)
qed


theorem allocate_is_idempotent_witness:
  "fst (allocate_shmem sample_module sample_name 8 True 6 0 (one_shared, [])) =
     Inr (Some 5, True, [(5, False)])"
  using allocate_is_idempotent[OF sample_name_ok(2) _ _ _ one_shared_eq(1), of 8 6 "[]"]
  by (simp add: empty_shared_def hash_find_empty sample_module_def)

theorem release_after_two_acquisitions_leaks_witness:
  "\<exists>sh2 acq2 sh3 acq3.
     allocate_shmem sample_module sample_name 8 True 6 0 (one_shared, [allocation_key 4 sample_name])
       = (Inr (Some 5, True, [(5, False)]), sh2, acq2)
     \<and> deallocate_shmem sample_module sample_name (sh2, acq2) = (Inr True, sh3, acq3)
     \<and> acq3 = [] \<and> map_option alloc_refcounter
         (hash_find (omni_allocations (fst (deinitialize_acquisitions [sample_module] (sh3, acq3))))
           (allocation_key 4 sample_name)) = Some 1"
proof -
  obtain sh2 acq2 where 2: "allocate_shmem sample_module sample_name 8 True 6 0
      (one_shared, [allocation_key 4 sample_name]) = (Inr (Some 5, True, [(5, False)]), sh2, acq2)"
    by (simp add: allocate_shmem_eq[OF sample_name_ok(2)] acquisition_key_zero[OF sample_name_ok(2)] Let_def one_shared_eq(2) hash_find_def
        sample_module_def init_calls_def is_enter_def)
  have found: "hash_find (omni_allocations sh2) (allocation_key 4 sample_name) =
      Some \<lparr> alloc_pointer = 5, alloc_size = 8, alloc_refcounter = 2 \<rparr>"
    using 2 by (auto simp: allocate_shmem_eq[OF sample_name_ok(2)] acquisition_key_zero[OF sample_name_ok(2)] Let_def one_shared_eq(2) hash_find_def
        sample_module_def hash_enter_def)
  obtain sh3 acq3 where 3: "deallocate_shmem sample_module sample_name (sh2, acq2) =
      (Inr True, sh3, acq3)"
    using found sample_name_ok by (simp add: deallocate_shmem_def find_or_allocate_shmem_dsa_def
        table_action_def is_enter_def Let_def sample_module_def)
  from release_after_two_acquisitions_leaks[OF sample_name_ok _ _ one_shared_eq(1) 2 3] 2 3
  show ?thesis by (auto simp: empty_shared_def hash_find_empty sample_module_def)
qed

theorem uninitialised_key_byte_leaks_witness:
  "deinitialize_acquisitions [sample_module]
     (one_shared, [acquisition_key (module_id sample_module) sample_name 1]) = (one_shared, [])"
  by (rule uninitialised_key_byte_leaks[OF _ sample_name_ok(2)])
    (simp_all add: one_shared_eq(2) clean_allocation_key[OF sample_name_ok])

theorem tentative_block_leaks_witness:
  "6 \<in> set (dsa_live (fst (snd (allocate_shmem sample_module sample_name 8 True 6 0 (one_shared, [])))))
   \<and> (\<nexists>key x. hash_find (omni_allocations (fst (snd
        (allocate_shmem sample_module sample_name 8 True 6 0 (one_shared, []))))) key = Some x
        \<and> alloc_pointer x = 6)"
proof -
  obtain r sh' acq' where eq: "allocate_shmem sample_module sample_name 8 True 6 0 (one_shared, []) =
      (r, sh', acq')" by (cases "allocate_shmem sample_module sample_name 8 True 6 0 (one_shared, [])")
  have "hash_find (omni_allocations one_shared) (allocation_key (module_id sample_module) sample_name)
      = Some \<lparr> alloc_pointer = 5, alloc_size = 8, alloc_refcounter = 1 \<rparr>"
    by (simp add: one_shared_eq(2) sample_module_def hash_find_def)
  from tentative_block_leaks[OF one_reach sample_name_ok(2) _ _ this eq]
  have "6 \<in> set (dsa_live sh') \<and>
      (\<nexists>key x. hash_find (omni_allocations sh') key = Some x \<and> alloc_pointer x = 6)"
    by (simp add: one_shared_eq(2))
  then show ?thesis unfolding eq fst_conv snd_conv .
qed

end
