(* ===== verification/Omni_Loader.thy ===== *)
theory Omni_Loader
  imports Omni_Hooks
begin

text \<open>
  Loading, initialising and unloading of modules (\<open>src/extensions/omni/omni.c\<close>) and the
  services a module gets through its handle: switches, locks and background workers.

  The state of the loader combines the shared part (module table, handles, module counter,
  locks on table entries) and the part of one backend.  The dynamic linker, the catalog
  \<open>pg_extension\<close>, control files, the allocator of the shared area and the callbacks of
  the modules are described by a \<open>loader_env\<close>; the calls of the callbacks are recorded in
  \<open>trace\<close>.  An action returns its outcome with the state it leaves, also when it raises.
\<close>

section \<open>Data\<close>

type_synonym dsa_handle_ptr = nat

record omni_magic =
  magic_size :: nat
  magic_version :: nat
  magic_revision :: nat
  magic_pg_version :: nat

record omni_module_information =
  info_name :: "string option"
  info_version :: "string option"
  info_identity :: "string option"

record omni_handle_private =
  hp_id :: "32 word"
  hp_path :: string
  hp_magic :: omni_magic
  hp_refcount :: "32 word"
  hp_loaded :: "32 word"
  hp_switchboard :: "64 word"
  hp_name :: string
  hp_version :: string
  hp_identity :: string

record ModuleEntry =
  me_id :: "32 word"
  me_pointer :: dsa_handle_ptr

text \<open>What the dynamic linker finds in a library: symbols that may be missing.\<close>

record dl_module =
  dl_magic :: "omni_magic option"
  dl_info :: "omni_module_information option"
  dl_has_worker_symbols :: bool
  dl_is_preloaded_omni :: bool
  dl_has_load :: bool
  dl_has_init :: bool
  dl_has_deinit :: bool
  dl_has_unload :: bool

datatype module_event =
    OmniLoad dsa_handle_ptr
  | OmniInit dsa_handle_ptr
  | OmniDeinit dsa_handle_ptr
  | OmniUnload dsa_handle_ptr

record loader_state =
  module_counter :: "32 word"
  omni_modules :: "(string, ModuleEntry) htab"
  handles :: "(dsa_handle_ptr, omni_handle_private) htab"
  entry_locks :: "string list"
  backend_initialized :: bool
  backend_force_reload :: bool
  initialized_modules :: "dsa_handle_ptr list"
  omni_self :: "dsa_handle_ptr option"
  module_contexts :: "string list"
  hook_entry_points :: hook_entry_points_t
  trace :: "module_event list"
  warnings :: "string list"

record pg_extension =
  extname :: string
  extversion :: "string option"
  ext_created_here :: bool

record loader_env =
  dl_open :: "string \<Rightarrow> dl_module option"
  omni_library_name :: string
  omni_version :: string
  omni_identity :: string
  server_version_num :: nat
  is_background_worker :: bool
  is_client_backend :: bool
  in_transaction :: bool
  pg_extensions :: "pg_extension list"
  extension_module_pathname :: "string \<Rightarrow> string \<Rightarrow> string option outcome"
  pkglib_path :: string
  dsa_allocate :: "dsa_handle_ptr list \<Rightarrow> dsa_handle_ptr"
  init_hooks :: "dsa_handle_ptr \<Rightarrow> hook_entry_points_t \<Rightarrow> hook_entry_points_t"

definition OMNI_INTERFACE_VERSION :: nat where "OMNI_INTERFACE_VERSION = 0"
definition sizeof_omni_magic :: nat where "sizeof_omni_magic = 12"

section \<open>Actions\<close>

type_synonym 'a action = "(loader_state, 'a) state_action"

text \<open>\<open>ereport(warn ? WARNING : ERROR, ...)\<close>\<close>

definition complain :: "bool \<Rightarrow> string \<Rightarrow> unit action" where
  "complain warn msg st =
     (if warn then (Inr (), st \<lparr> warnings := warnings st @ [msg] \<rparr>) else (elog_error msg, st))"

section \<open>Library paths\<close>

definition substitute_libpath_macro :: "string \<Rightarrow> string \<Rightarrow> string outcome" where
  "substitute_libpath_macro pkglib name =
     (if name = [] \<or> hd name \<noteq> CHR ''$'' then Inr name
      else
        (let macro = takeWhile (\<lambda>c. c \<noteq> CHR ''/'') name;
             rest = dropWhile (\<lambda>c. c \<noteq> CHR ''/'') name
         in if macro \<noteq> ''$libdir''
            then elog_error ''invalid macro name in dynamic library path''
            else Inr (pkglib @ rest)))"

section \<open>Loading a module\<close>

text \<open>
  The compatibility checks with a preloaded \<open>omni\<close>: \<open>True\<close> if the module is to be skipped.
\<close>

definition check_omni_010 ::
  "loader_env \<Rightarrow> dl_module \<Rightarrow> omni_magic \<Rightarrow> bool \<Rightarrow> bool action" where
  "check_omni_010 env dlm magic warn =
     (if magic_revision magic < 6 \<and> dl_info dlm = None \<and> dl_has_worker_symbols dlm \<and>
         \<not> dl_is_preloaded_omni dlm
      then bind_action
             (complain warn ''omni extension 0.1.0 is incompatible with a preloaded omni library'')
             (\<lambda>_. return_action True)
      else return_action False)"

definition check_other_omni ::
  "loader_env \<Rightarrow> string \<Rightarrow> dl_module \<Rightarrow> bool \<Rightarrow> bool action" where
  "check_other_omni env path dlm warn =
     (case dl_info dlm of
        None \<Rightarrow> return_action False
      | Some info \<Rightarrow>
          (case info_identity info of
             None \<Rightarrow> (\<lambda>st. (Inl (Crash ''strcmp of a null identity''), st))
           | Some identity \<Rightarrow>
               if identity = omni_identity env \<and> \<not> dl_is_preloaded_omni dlm
               then
                 bind_action
                   (case info_version info of
                      None \<Rightarrow> (\<lambda>st. (Inl (Crash ''strcmp of a null version''), st))
                    | Some ver \<Rightarrow>
                        if ver \<noteq> omni_version env
                        then complain warn
                          ''omni extension is incompatible with a preloaded omni library''
                        else return_action ())
                   (\<lambda>_. bind_action
                     (if path \<noteq> omni_library_name env
                      then complain warn ''attempting to loading omni extension from a different file''
                      else return_action ())
                     (\<lambda>_. bind_action
                       (complain warn ''attempting to loading omni extension from a different file'')
                       (\<lambda>_. return_action True)))
               else return_action False))"

definition name_field :: "string option \<Rightarrow> string" where
  "name_field s = (case s of None \<Rightarrow> [] | Some x \<Rightarrow> take 63 x)"

text \<open>Recording a module in the shared table, or finding its record.\<close>

definition record_module ::
  "loader_env \<Rightarrow> string \<Rightarrow> dl_module \<Rightarrow> omni_magic \<Rightarrow> dsa_handle_ptr action" where
  "record_module env path dlm magic st =
     (case hash_find (omni_modules st) path of
        Some entry \<Rightarrow> (Inr (me_pointer entry), st)
      | None \<Rightarrow>
          (case dl_info dlm of
             None \<Rightarrow> (Inl (Crash ''module_info is NULL''), st)
           | Some info \<Rightarrow>
               (let mid = module_counter st + 1;
                    ptr = dsa_allocate env (map fst (handles st))
                in (Inr ptr,
                    st \<lparr> module_counter := mid,
                         omni_modules := hash_enter path
                           \<lparr> me_id = mid, me_pointer = ptr \<rparr> (omni_modules st),
                         handles := hash_enter ptr
                           \<lparr> hp_id = mid, hp_path = path, hp_magic = magic, hp_refcount = 0,
                             hp_loaded = 0, hp_switchboard = 0,
                             hp_name = name_field (info_name info),
                             hp_version = name_field (info_version info),
                             hp_identity = name_field (info_identity info) \<rparr> (handles st) \<rparr>))))"

definition load_module :: "loader_env \<Rightarrow> string \<Rightarrow> bool \<Rightarrow> dsa_handle_ptr option action" where
  "load_module env path warning_preference =
     (case dl_open env path of
        None \<Rightarrow> return_action None
      | Some dlm \<Rightarrow>
          (case dl_magic dlm of
             None \<Rightarrow> return_action None
           | Some magic \<Rightarrow>
               (let warn = is_background_worker env \<or> warning_preference in
                bind_action (check_omni_010 env dlm magic warn) (\<lambda>skip.
                if skip then return_action None
                else bind_action (check_other_omni env path dlm warn) (\<lambda>skip.
                if skip then return_action None
                else if magic_size magic = sizeof_omni_magic \<and>
                        magic_version magic = OMNI_INTERFACE_VERSION
                then bind_action (record_module env path dlm magic) (\<lambda>ptr. return_action (Some ptr))
                else bind_action (complain True ''Incompatible magic version'')
                       (\<lambda>_. return_action None))))))"

definition consider_ext :: "loader_env \<Rightarrow> pg_extension \<Rightarrow> dsa_handle_ptr list action" where
  "consider_ext env ext st =
     (case extversion ext of
        None \<Rightarrow> (Inr [], st)
      | Some ver \<Rightarrow>
          (case extension_module_pathname env (extname ext) ver of
             Inl e \<Rightarrow> (Inl e, st)
           | Inr None \<Rightarrow> (Inr [], st)
           | Inr (Some pathname) \<Rightarrow>
               (case substitute_libpath_macro (pkglib_path env) pathname of
                  Inl e \<Rightarrow> (Inl e, st)
                | Inr path \<Rightarrow>
                    bind_action (load_module env path (\<not> ext_created_here ext))
                      (\<lambda>h. return_action (case h of None \<Rightarrow> [] | Some p \<Rightarrow> [p])) st)))"

section \<open>Unloading and initialising\<close>

definition log_event :: "module_event \<Rightarrow> bool \<Rightarrow> loader_state \<Rightarrow> loader_state" where
  "log_event ev present st = (if present then st \<lparr> trace := trace st @ [ev] \<rparr> else st)"

definition update_handle ::
  "dsa_handle_ptr \<Rightarrow> (omni_handle_private \<Rightarrow> omni_handle_private) \<Rightarrow> loader_state \<Rightarrow> loader_state"
  where
  "update_handle p f st =
     (case hash_find (handles st) p of
        None \<Rightarrow> st
      | Some h \<Rightarrow> st \<lparr> handles := hash_enter p (f h) (handles st) \<rparr>)"

definition dl_has :: "loader_env \<Rightarrow> string \<Rightarrow> (dl_module \<Rightarrow> bool) \<Rightarrow> bool" where
  "dl_has env path symbol = (case dl_open env path of None \<Rightarrow> False | Some dlm \<Rightarrow> symbol dlm)"

text \<open>
  \<open>unload_module\<close>.  \<open>dshash_find_or_insert\<close> inserts a missing entry and locks it.  (The removal
  of the module's shared memory acquisitions is \<open>unload_acquisitions\<close> of \<open>Omni_Alloc\<close>.)
\<close>

definition unload_module :: "loader_env \<Rightarrow> dsa_handle_ptr \<Rightarrow> bool \<Rightarrow> unit action" where
  "unload_module env p missing_ok st =
     (case hash_find (handles st) p of
        None \<Rightarrow> (Inl (Crash ''dangling module handle''), st)
      | Some h \<Rightarrow>
          (let path = hp_path h;
               found = hash_find (omni_modules st) path \<noteq> None;
               st = st \<lparr> entry_locks := path # entry_locks st \<rparr>
           in if \<not> found
              then (let st = st \<lparr> omni_modules :=
                              hash_enter path \<lparr> me_id = 0, me_pointer = 0 \<rparr> (omni_modules st) \<rparr>
                    in if missing_ok then (Inr (), st) else (elog_error ''module id not found'', st))
              else if path \<notin> set (module_contexts st)
              then (elog_error ''no module memory context found'', st)
              else
                (let st = update_handle p (\<lambda>h. h \<lparr> hp_refcount := hp_refcount h - 1 \<rparr>) st;
                     st = st \<lparr> initialized_modules := remove1 p (initialized_modules st) \<rparr>;
                     st = st \<lparr> hook_entry_points :=
                            reorganize_hooks (initialized_modules st) (hook_entry_points st) \<rparr>;
                     st = log_event (OmniDeinit p) (dl_has env path dl_has_deinit) st;
                     st = (if magic_revision (hp_magic h) < 5 \<and> hp_loaded h = 1
                           then update_handle p (\<lambda>h. h \<lparr> hp_loaded := 0 \<rparr>)
                                  (log_event (OmniUnload p) (dl_has env path dl_has_unload) st)
                           else st)
                 in (Inr (), st \<lparr> entry_locks := remove1 path (entry_locks st) \<rparr>))))"

text \<open>The body of the loop over the modules to load.\<close>

definition init_module :: "loader_env \<Rightarrow> dsa_handle_ptr \<Rightarrow> unit action" where
  "init_module env p st =
     (if p \<in> set (initialized_modules st) then (Inr (), st)
      else case hash_find (handles st) p of
        None \<Rightarrow> (Inl (Crash ''dangling module handle''), st)
      | Some h \<Rightarrow>
          (let path = hp_path h;
               st = st \<lparr> module_contexts := path # module_contexts st \<rparr>;
               st = (if magic_revision (hp_magic h) < 5
                     then
                       (let st = update_handle p (\<lambda>h. h \<lparr> hp_refcount := hp_refcount h + 1 \<rparr>) st in
                        if hp_refcount h + 1 = 1
                        then log_event (OmniLoad p) (dl_has env path dl_has_load)
                               (update_handle p (\<lambda>h. h \<lparr> hp_loaded := 1 \<rparr>) st)
                        else st)
                     else st);
               st = (if magic_revision (hp_magic h) \<ge> 7 \<and>
                        magic_pg_version (hp_magic h) \<noteq> server_version_num env
                     then st \<lparr> warnings := warnings st @ [''omni has been compiled against''] \<rparr>
                     else st);
               st = (if dl_has env path dl_has_init
                     then st \<lparr> trace := trace st @ [OmniInit p],
                               hook_entry_points := init_hooks env p (hook_entry_points st) \<rparr>
                     else st)
           in (Inr (), st \<lparr> initialized_modules := initialized_modules st @ [p] \<rparr>)))"

section \<open>Reconciling the modules with the catalog\<close>

definition ensure_backend_initialized :: "loader_env \<Rightarrow> bool action" where
  "ensure_backend_initialized env st =
     (if backend_initialized st then (Inr True, st)
      else if \<not> (is_client_backend env \<or> is_background_worker env) then (Inr False, st)
      else if \<not> in_transaction env then (Inr False, st)
      else (Inr True, st \<lparr> backend_initialized := True, initialized_modules := [] \<rparr>))"

text \<open>\<open>list_concat_unique_ptr\<close> and \<open>list_difference_ptr\<close>\<close>

definition list_concat_unique :: "'a list \<Rightarrow> 'a list \<Rightarrow> 'a list" where
  "list_concat_unique xs ys = fold (\<lambda>y acc. if y \<in> set acc then acc else acc @ [y]) ys xs"

definition list_difference :: "'a list \<Rightarrow> 'a list \<Rightarrow> 'a list" where
  "list_difference xs ys = filter (\<lambda>x. x \<notin> set ys) xs"

fun scan_extensions ::
  "loader_env \<Rightarrow> pg_extension list \<Rightarrow> dsa_handle_ptr list \<Rightarrow> dsa_handle_ptr list action" where
  "scan_extensions env [] loaded = return_action loaded"
| "scan_extensions env (ext # exts) loaded =
     bind_action (consider_ext env ext)
       (\<lambda>ps. scan_extensions env exts (list_concat_unique loaded ps))"

text \<open>\<open>omni\<close> itself is loaded once, and is then in the list of loaded modules that once.\<close>

definition load_self :: "loader_env \<Rightarrow> dsa_handle_ptr list \<Rightarrow> dsa_handle_ptr list action" where
  "load_self env loaded st =
     (case omni_self st of
        Some _ \<Rightarrow> (Inr loaded, st)
      | None \<Rightarrow>
          bind_action (load_module env (omni_library_name env) False)
            (\<lambda>h st. case h of
                      None \<Rightarrow> (Inl (Crash ''omni is not loadable''), st)
                    | Some self \<Rightarrow> (Inr (list_concat_unique loaded [self]),
                                    st \<lparr> omni_self := Some self \<rparr>)) st)"

definition apply_modules :: "loader_env \<Rightarrow> dsa_handle_ptr list \<Rightarrow> unit action" where
  "apply_modules env loaded st =
     (let to_remove = list_difference (initialized_modules st) loaded;
          to_load = list_difference loaded (initialized_modules st)
      in bind_action
           (for_each (\<lambda>p. unload_module env p True)
              (filter (\<lambda>p. Some p \<noteq> omni_self st) to_remove))
           (\<lambda>_. for_each (init_module env) to_load) st)"

definition load_pending_modules :: "loader_env \<Rightarrow> unit action" where
  "load_pending_modules env =
     bind_action (ensure_backend_initialized env) (\<lambda>initialized st.
       if initialized \<and> in_transaction env \<and> backend_force_reload st
       then bind_action (scan_extensions env (pg_extensions env) [])
              (\<lambda>loaded. bind_action (load_self env loaded) (apply_modules env))
              (st \<lparr> backend_force_reload := False \<rparr>)
       else (Inr (), st))"

section \<open>Hooks that trigger the reconciliation\<close>

text \<open>
  \<open>omni_executor_start_hook\<close> and \<open>omni_executor_end_hook\<close>: the registered hooks run after, or
  before, the modules are brought up to date; \<open>omni_process_utility_hook\<close> leaves that out for a
  transaction statement.  \<open>invoke\<close> says what the hook functions do to the state.
\<close>

definition run_hooks ::
  "loader_state invoke \<Rightarrow> (nat \<Rightarrow> void_ptr) \<Rightarrow> nat \<Rightarrow> unit action" where
  "run_hooks invoke stack type st =
     (case iterate_hooks invoke stack (hook_entry_points st type) st of
        Inl e \<Rightarrow> (Inl e, st)
      | Inr (_, st') \<Rightarrow> (Inr (), st'))"

definition omni_executor_start_hook where
  "omni_executor_start_hook env invoke stack =
     bind_action (load_pending_modules env) (\<lambda>_. run_hooks invoke stack omni_hook_executor_start)"

definition omni_executor_end_hook where
  "omni_executor_end_hook env invoke stack =
     bind_action (run_hooks invoke stack omni_hook_executor_end) (\<lambda>_. load_pending_modules env)"

definition omni_process_utility_hook where
  "omni_process_utility_hook env invoke stack is_transaction_stmt =
     bind_action (run_hooks invoke stack omni_hook_process_utility)
       (\<lambda>_. if is_transaction_stmt then return_action () else load_pending_modules env)"

section \<open>Services\<close>

datatype omni_switch_operation = omni_switch_off | omni_switch_on

unbundle bit_operations_syntax

text \<open>The new value of the switchboard and the switches that the call flipped.\<close>

definition atomic_switch ::
  "omni_switch_operation \<Rightarrow> 32 word \<Rightarrow> 64 word \<Rightarrow> 64 word \<Rightarrow> 64 word outcome \<times> 64 word" where
  "atomic_switch op switchboard msk m =
     (if switchboard > 0 then (Inl (Ereport ERRCODE_OTHER ''no more switchboards can be allocated''), m)
      else case op of
        omni_switch_on \<Rightarrow> (Inr ((m XOR msk) AND msk), m OR msk)
      | omni_switch_off \<Rightarrow> (Inr (m AND msk), m AND NOT msk))"

text \<open>Successive calls, in the order in which they reach the switchboard.\<close>

fun switch_all ::
  "(omni_switch_operation \<times> 64 word) list \<Rightarrow> 64 word \<Rightarrow> 64 word outcome list \<times> 64 word" where
  "switch_all [] m = ([], m)"
| "switch_all ((op, msk) # ops) m =
     (case atomic_switch op 0 msk m of (r, m') \<Rightarrow>
      case switch_all ops m' of (rs, m'') \<Rightarrow> (r # rs, m''))"

text \<open>Background workers are started and stopped through one-shot callbacks, or at once.\<close>

datatype omni_timing = omni_timing_after_commit | omni_timing_at_commit | omni_timing_immediately

datatype bgworker_op = do_start_bgworker | do_stop_bgworker

record bgworker_state =
  bgw_oneshot :: oneshot_state
  bgw_started :: "void_ptr list"
  bgw_stopped :: "void_ptr list"

text \<open>Identities of the two callback functions, as the one-shot lists store them.\<close>

fun op_fn :: "bgworker_op \<Rightarrow> fn_ptr" where
  "op_fn do_start_bgworker = 1"
| "op_fn do_stop_bgworker = 2"

fun run_bgworker_op :: "bgworker_op \<Rightarrow> xact_event \<Rightarrow> void_ptr \<Rightarrow> bgworker_state \<Rightarrow> bgworker_state" where
  "run_bgworker_op do_start_bgworker event payload st =
     (if event = Commit then st \<lparr> bgw_started := bgw_started st @ [payload] \<rparr> else st)"
| "run_bgworker_op do_stop_bgworker event payload st =
     (if event = Commit then st \<lparr> bgw_stopped := bgw_stopped st @ [payload] \<rparr> else st)"

definition request_bgworker_op ::
  "bgworker_op \<Rightarrow> void_ptr \<Rightarrow> omni_timing \<Rightarrow> bgworker_state \<Rightarrow> bgworker_state" where
  "request_bgworker_op op payload timing st =
     (let cb = \<lparr> cb_fn = op_fn op, cb_arg = payload \<rparr>; os = bgw_oneshot st in
      case timing of
        omni_timing_immediately \<Rightarrow> run_bgworker_op op Commit payload st
      | omni_timing_at_commit \<Rightarrow>
          st \<lparr> bgw_oneshot := os \<lparr> xact_oneshot_callbacks := xact_oneshot_callbacks os @ [cb] \<rparr> \<rparr>
      | omni_timing_after_commit \<Rightarrow>
          st \<lparr> bgw_oneshot :=
                os \<lparr> after_xact_oneshot_callbacks := after_xact_oneshot_callbacks os @ [cb] \<rparr> \<rparr>)"

text \<open>The effect of the callbacks that fired.\<close>

definition run_fired :: "(xact_oneshot_callback \<times> xact_event) list \<Rightarrow> bgworker_state \<Rightarrow> bgworker_state"
  where
  "run_fired calls st =
     fold (\<lambda>(cb, event) st.
             if cb_fn cb = op_fn do_start_bgworker
             then run_bgworker_op do_start_bgworker event (cb_arg cb) st
             else if cb_fn cb = op_fn do_stop_bgworker
             then run_bgworker_op do_stop_bgworker event (cb_arg cb) st
             else st) calls st"

text \<open>The end of a transaction that goes through the events \<open>evs\<close>.\<close>

definition end_transaction :: "xact_event list \<Rightarrow> bgworker_state \<Rightarrow> bgworker_state" where
  "end_transaction evs st =
     (let os = reset_context (fold fire_oneshot evs ((bgw_oneshot st) \<lparr> fired := [] \<rparr>)) in
      run_fired (fired os) (st \<lparr> bgw_oneshot := os \<rparr>))"

section \<open>Invariant of the loader\<close>

definition module_path :: "loader_state \<Rightarrow> dsa_handle_ptr \<Rightarrow> string option" where
  "module_path st p = map_option hp_path (hash_find (handles st) p)"

text \<open>A handle that the module table knows under its own path.\<close>

definition known :: "loader_state \<Rightarrow> dsa_handle_ptr \<Rightarrow> bool" where
  "known st p \<longleftrightarrow> (\<exists>path e. module_path st p = Some path \<and>
     hash_find (omni_modules st) path = Some e \<and> me_pointer e = p)"

definition hooks_owned :: "dsa_handle_ptr list \<Rightarrow> hook_entry_points_t \<Rightarrow> bool" where
  "hooks_owned ms heps \<longleftrightarrow>
     (\<forall>type eps e h. heps type = Some eps \<longrightarrow> e \<in> set eps \<longrightarrow> ep_handle e = Some h \<longrightarrow> h \<in> set ms)"

definition loader_inv :: "loader_state \<Rightarrow> bool" where
  "loader_inv st \<longleftrightarrow>
     (\<forall>path e. hash_find (omni_modules st) path = Some e \<longrightarrow>
        module_path st (me_pointer e) = Some path) \<and>
     distinct (initialized_modules st) \<and>
     (\<forall>p \<in> set (initialized_modules st). known st p \<and>
        (\<exists>path. module_path st p = Some path \<and> path \<in> set (module_contexts st))) \<and>
     entry_locks st = [] \<and>
     hooks_owned (initialized_modules st) (hook_entry_points st)"

lemma hooks_owned_reorganize: "hooks_owned ms (reorganize_hooks ms heps)"
  unfolding hooks_owned_def
proof (intro allI impI)
  fix type eps e h
  assume a: "reorganize_hooks ms heps type = Some eps" "e \<in> set eps" "ep_handle e = Some h"
  then obtain eps0 where "eps = reorganize_type ms 0 eps0"
    by (auto simp: reorganize_hooks_def)
  then have "set (map ident eps) \<subseteq> {d. \<not> gone ms d}"
    using reorganize_type_ident[of ms 0 eps0] by auto
  then have "\<not> gone ms (ident e)" using a(2) by auto
  then show "h \<in> set ms" using a(3) by (simp add: gone_def ident_def)
qed

lemma module_path_update_handle:
  "(\<And>h. hp_path (f h) = hp_path h) \<Longrightarrow> module_path (update_handle p f st) q = module_path st q"
  by (auto simp: module_path_def update_handle_def htab_simps split: option.split)

lemma update_handle_others [simp]:
  "omni_modules (update_handle p f st) = omni_modules st"
  "initialized_modules (update_handle p f st) = initialized_modules st"
  "module_contexts (update_handle p f st) = module_contexts st"
  "entry_locks (update_handle p f st) = entry_locks st"
  "hook_entry_points (update_handle p f st) = hook_entry_points st"
  "omni_self (update_handle p f st) = omni_self st"
  "trace (update_handle p f st) = trace st"
  by (simp_all add: update_handle_def split: option.split)

lemma log_event_others [simp]:
  "omni_modules (log_event ev b st) = omni_modules st"
  "handles (log_event ev b st) = handles st"
  "initialized_modules (log_event ev b st) = initialized_modules st"
  "module_contexts (log_event ev b st) = module_contexts st"
  "entry_locks (log_event ev b st) = entry_locks st"
  "hook_entry_points (log_event ev b st) = hook_entry_points st"
  "omni_self (log_event ev b st) = omni_self st"
  "trace (log_event ev b st) = trace st @ (if b then [ev] else [])"
  by (simp_all add: log_event_def)

lemma module_path_fields [simp]:
  "module_path (st \<lparr> initialized_modules := a \<rparr>) p = module_path st p"
  "module_path (st \<lparr> module_contexts := b \<rparr>) p = module_path st p"
  "module_path (st \<lparr> entry_locks := c \<rparr>) p = module_path st p"
  "module_path (st \<lparr> hook_entry_points := d \<rparr>) p = module_path st p"
  "module_path (st \<lparr> trace := t \<rparr>) p = module_path st p"
  "module_path (st \<lparr> warnings := w \<rparr>) p = module_path st p"
  "module_path (log_event ev present st) p = module_path st p"
  by (simp_all add: module_path_def)

definition same_modules :: "loader_state \<Rightarrow> loader_state \<Rightarrow> bool" where
  "same_modules st st' \<longleftrightarrow> omni_modules st' = omni_modules st \<and>
     (\<forall>p. module_path st' p = module_path st p) \<and> omni_self st' = omni_self st"

lemma same_modules_refl: "same_modules st st"
  by (simp add: same_modules_def)

lemma same_modules_trans: "same_modules a b \<Longrightarrow> same_modules b c \<Longrightarrow> same_modules a c"
  by (simp add: same_modules_def)

lemma known_same: "same_modules st st' \<Longrightarrow> known st' p = known st p"
  by (simp add: same_modules_def known_def)

text \<open>The calls of \<open>_Omni_init\<close> and \<open>_Omni_deinit\<close> in a trace.\<close>

definition lifecycle :: "module_event list \<Rightarrow> module_event list" where
  "lifecycle = filter (\<lambda>ev. case ev of OmniInit _ \<Rightarrow> True | OmniDeinit _ \<Rightarrow> True | _ \<Rightarrow> False)"

lemma lifecycle_append [simp]: "lifecycle (xs @ ys) = lifecycle xs @ lifecycle ys"
  by (simp add: lifecycle_def)

definition deinit_events :: "loader_env \<Rightarrow> loader_state \<Rightarrow> dsa_handle_ptr list \<Rightarrow> module_event list" where
  "deinit_events env st ps =
     map OmniDeinit (filter (\<lambda>p. dl_has env (the (module_path st p)) dl_has_deinit) ps)"

definition init_events :: "loader_env \<Rightarrow> loader_state \<Rightarrow> dsa_handle_ptr list \<Rightarrow> module_event list" where
  "init_events env st ps =
     map OmniInit (filter (\<lambda>p. dl_has env (the (module_path st p)) dl_has_init) ps)"

lemma calls_same:
  assumes "same_modules st st'"
  shows "deinit_events env st' ps = deinit_events env st ps"
    and "init_events env st' ps = init_events env st ps"
  using assms by (simp_all add: deinit_events_def init_events_def same_modules_def)

lemma loader_invD:
  assumes "loader_inv st"
  shows "hash_find (omni_modules st) path = Some e \<Longrightarrow> module_path st (me_pointer e) = Some path"
    and "distinct (initialized_modules st)"
    and "p \<in> set (initialized_modules st) \<Longrightarrow> known st p"
    and "p \<in> set (initialized_modules st) \<Longrightarrow>
         \<exists>path. module_path st p = Some path \<and> path \<in> set (module_contexts st)"
    and "entry_locks st = []"
    and "hooks_owned (initialized_modules st) (hook_entry_points st)"
  using assms by (auto simp: loader_inv_def)

lemma loader_inv_change:
  assumes inv: "loader_inv st" and same: "same_modules st st'"
    and dist: "distinct (initialized_modules st')"
    and init: "\<And>p. p \<in> set (initialized_modules st') \<Longrightarrow> known st p \<and>
      (\<exists>path. module_path st p = Some path \<and> path \<in> set (module_contexts st'))"
    and locks: "entry_locks st' = []"
    and hooks: "hooks_owned (initialized_modules st') (hook_entry_points st')"
  shows "loader_inv st'"
  using assms loader_invD(1)[OF inv]
  by (auto simp: loader_inv_def known_same[OF same]) (auto simp: same_modules_def)

lemma unload_module_ok:
  assumes inv: "loader_inv st" and p: "p \<in> set (initialized_modules st)"
  shows "\<exists>st'. unload_module env p True st = (Inr (), st') \<and> loader_inv st' \<and>
    initialized_modules st' = remove1 p (initialized_modules st) \<and> same_modules st st' \<and>
    lifecycle (trace st') = lifecycle (trace st) @ deinit_events env st [p]"
proof -
  note D = loader_invD[OF inv]
  obtain path e where path: "module_path st p = Some path" "hash_find (omni_modules st) path = Some e"
    using D(3)[OF p] by (auto simp: known_def)
  obtain h where h: "hash_find (handles st) p = Some h" "hp_path h = path"
    using path(1) by (auto simp: module_path_def)
  have ctx: "path \<in> set (module_contexts st)" using D(4)[OF p] path(1) by simp
  obtain st' where st': "unload_module env p True st = (Inr (), st')"
    and fields: "initialized_modules st' = remove1 p (initialized_modules st)"
      "omni_modules st' = omni_modules st" "\<And>q. module_path st' q = module_path st q"
      "omni_self st' = omni_self st" "module_contexts st' = module_contexts st" "entry_locks st' = []"
      "hook_entry_points st' =
         reorganize_hooks (remove1 p (initialized_modules st)) (hook_entry_points st)"
      "lifecycle (trace st') = lifecycle (trace st) @ deinit_events env st [p]"
    using h path ctx D(5)
    by (simp add: unload_module_def Let_def module_path_update_handle lifecycle_def deinit_events_def)
  have same: "same_modules st st'" using fields by (simp add: same_modules_def)
  have "loader_inv st'"
    by (rule loader_inv_change[OF inv same])
      (use D(2-4) in \<open>auto simp: fields hooks_owned_reorganize dest: notin_set_remove1\<close>)
  with st' fields(1,8) same show ?thesis by blast
qed

definition own_hooks :: "loader_env \<Rightarrow> bool" where
  "own_hooks env \<longleftrightarrow> (\<forall>p ms heps. hooks_owned ms heps \<longrightarrow> hooks_owned (ms @ [p]) (init_hooks env p heps))"

lemma hooks_owned_mono: "hooks_owned ms heps \<Longrightarrow> hooks_owned (ms @ [p]) heps"
  by (auto simp: hooks_owned_def)

lemma init_module_ok:
  assumes inv: "loader_inv st" and p: "p \<notin> set (initialized_modules st)" and kn: "known st p"
    and own: "own_hooks env"
  shows "\<exists>st'. init_module env p st = (Inr (), st') \<and> loader_inv st' \<and>
    initialized_modules st' = initialized_modules st @ [p] \<and> same_modules st st' \<and>
    lifecycle (trace st') = lifecycle (trace st) @ init_events env st [p]"
proof -
  note D = loader_invD[OF inv]
  obtain path e where path: "module_path st p = Some path" "hash_find (omni_modules st) path = Some e"
    using kn by (auto simp: known_def)
  obtain h where h: "hash_find (handles st) p = Some h" "hp_path h = path"
    using path(1) by (auto simp: module_path_def)
  obtain st' where st': "init_module env p st = (Inr (), st')"
    and fields: "initialized_modules st' = initialized_modules st @ [p]"
      "omni_modules st' = omni_modules st" "\<And>q. module_path st' q = module_path st q"
      "omni_self st' = omni_self st" "module_contexts st' = path # module_contexts st"
      "entry_locks st' = []"
      "hook_entry_points st' = (if dl_has env path dl_has_init
         then init_hooks env p (hook_entry_points st) else hook_entry_points st)"
      "lifecycle (trace st') = lifecycle (trace st) @ init_events env st [p]"
    using h path p D(5)
    by (simp add: init_module_def Let_def module_path_update_handle lifecycle_def init_events_def)
  have same: "same_modules st st'" using fields by (simp add: same_modules_def)
  have "loader_inv st'"
    by (rule loader_inv_change[OF inv same])
      (use D(2,3,6) p kn path(1) own in
        \<open>auto simp: fields own_hooks_def hooks_owned_mono dest: D(4)\<close>)
  with st' fields(1,8) same show ?thesis by blast
qed

lemma for_each_unload:
  assumes "loader_inv st" "distinct ps" "set ps \<subseteq> set (initialized_modules st)"
  shows "\<exists>st'. for_each (\<lambda>p. unload_module env p True) ps st = (Inr (), st') \<and> loader_inv st' \<and>
    set (initialized_modules st') = set (initialized_modules st) - set ps \<and> same_modules st st' \<and>
    lifecycle (trace st') = lifecycle (trace st) @ deinit_events env st ps"
  using assms
proof (induction ps arbitrary: st)
  case Nil
  then show ?case by (simp add: return_action_def same_modules_refl deinit_events_def)
next
  case (Cons p ps)
  obtain st1 where 1: "unload_module env p True st = (Inr (), st1)" "loader_inv st1"
    "initialized_modules st1 = remove1 p (initialized_modules st)" "same_modules st st1"
    "lifecycle (trace st1) = lifecycle (trace st) @ deinit_events env st [p]"
    using unload_module_ok[of st p env] Cons.prems by auto
  have set1: "set (initialized_modules st1) = set (initialized_modules st) - {p}"
    using 1(3) loader_invD(2)[OF Cons.prems(1)] by simp
  obtain st2 where 2: "for_each (\<lambda>p. unload_module env p True) ps st1 = (Inr (), st2)"
    "loader_inv st2" "set (initialized_modules st2) = set (initialized_modules st1) - set ps"
    "same_modules st1 st2" "lifecycle (trace st2) = lifecycle (trace st1) @ deinit_events env st1 ps"
    using Cons.IH[OF 1(2)] Cons.prems set1 by auto
  have "deinit_events env st [p] @ deinit_events env st ps = deinit_events env st (p # ps)"
    by (simp add: deinit_events_def)
  then show ?case
    using 1 2 set1 same_modules_trans[OF 1(4) 2(4)] calls_same(1)[OF 1(4)]
    by (intro exI[of _ st2]) (auto simp: bind_action_def)
qed

lemma for_each_init:
  assumes "loader_inv st" "distinct ps" "set ps \<inter> set (initialized_modules st) = {}"
    "\<And>p. p \<in> set ps \<Longrightarrow> known st p" "own_hooks env"
  shows "\<exists>st'. for_each (init_module env) ps st = (Inr (), st') \<and> loader_inv st' \<and>
    set (initialized_modules st') = set (initialized_modules st) \<union> set ps \<and> same_modules st st' \<and>
    lifecycle (trace st') = lifecycle (trace st) @ init_events env st ps"
  using assms
proof (induction ps arbitrary: st)
  case Nil
  then show ?case by (simp add: return_action_def same_modules_refl init_events_def)
next
  case (Cons p ps)
  obtain st1 where 1: "init_module env p st = (Inr (), st1)" "loader_inv st1"
    "initialized_modules st1 = initialized_modules st @ [p]" "same_modules st st1"
    "lifecycle (trace st1) = lifecycle (trace st) @ init_events env st [p]"
    using init_module_ok[of st p env] Cons.prems by auto
  obtain st2 where 2: "for_each (init_module env) ps st1 = (Inr (), st2)"
    "loader_inv st2" "set (initialized_modules st2) = set (initialized_modules st1) \<union> set ps"
    "same_modules st1 st2" "lifecycle (trace st2) = lifecycle (trace st1) @ init_events env st1 ps"
    using Cons.IH[OF 1(2)] Cons.prems 1(3) known_same[OF 1(4)] by auto
  have "init_events env st [p] @ init_events env st ps = init_events env st (p # ps)"
    by (simp add: init_events_def)
  then show ?case
    using 1 2 same_modules_trans[OF 1(4) 2(4)] calls_same(2)[OF 1(4)]
    by (intro exI[of _ st2]) (auto simp: bind_action_def)
qed

lemma record_module_found:
  assumes "record_module env path dlm magic st = (Inr p, st')"
  shows "\<exists>e. hash_find (omni_modules st') path = Some e \<and> me_pointer e = p"
  using assms by (auto simp: record_module_def Let_def htab_simps split: option.splits)

lemma load_module_SomeE:
  assumes "load_module env path w st = (Inr (Some p), st')"
  obtains dlm magic where "dl_open env path = Some dlm" "dl_magic dlm = Some magic"
    "\<And>w s. check_omni_010 env dlm magic w s = (Inr False, s)"
    "\<And>w s. check_other_omni env path dlm w s = (Inr False, s)"
    "magic_size magic = sizeof_omni_magic" "magic_version magic = OMNI_INTERFACE_VERSION"
    "record_module env path dlm magic st = (Inr p, st')"
proof -
  from assms obtain dlm magic where dl: "dl_open env path = Some dlm" "dl_magic dlm = Some magic"
    by (auto simp: load_module_def return_action_def split: option.splits)
  let ?w = "is_background_worker env \<or> w"
  from assms dl obtain s1 s2 where
    c1: "check_omni_010 env dlm magic ?w st = (Inr False, s1)"
    and c2: "check_other_omni env path dlm ?w s1 = (Inr False, s2)"
    and size: "magic_size magic = sizeof_omni_magic" "magic_version magic = OMNI_INTERFACE_VERSION"
    and rec: "record_module env path dlm magic s2 = (Inr p, st')"
    by (auto simp: load_module_def Let_def bind_action_Inr return_action_def split: if_splits)
  have 1: "check_omni_010 env dlm magic w s = (Inr False, s)" for w s
    using c1 by (auto simp: check_omni_010_def bind_action_Inr return_action_def split: if_splits)
  have 2: "check_other_omni env path dlm w s = (Inr False, s)" for w s
    using c2
    by (auto simp: check_other_omni_def bind_action_Inr return_action_def
        split: if_splits option.splits)
  have "s1 = st" "s2 = s1" using c1 c2 1 2 by simp_all
  with dl 1 2 size rec show thesis by (intro that) simp_all
qed

lemma load_module_again:
  assumes "load_module env path w st = (Inr (Some p), st')"
    and "hash_find (omni_modules s) path = Some e"
  shows "load_module env path w' s = (Inr (Some (me_pointer e)), s)"
  using assms(1)
proof (rule load_module_SomeE)
  fix dlm magic
  assume a: "dl_open env path = Some dlm" "dl_magic dlm = Some magic"
    "\<And>w s. check_omni_010 env dlm magic w s = (Inr False, s)"
    "\<And>w s. check_other_omni env path dlm w s = (Inr False, s)"
    "magic_size magic = sizeof_omni_magic" "magic_version magic = OMNI_INTERFACE_VERSION"
  have "record_module env path dlm magic s = (Inr (me_pointer e), s)"
    using assms(2) by (simp add: record_module_def)
  with a show ?thesis by (simp add: load_module_def Let_def return_action_def bind_action_def)
qed

section \<open>Properties\<close>

text \<open>
  A module has one handle.  Once \<open>load_module\<close> has returned a handle for a path, every
  later call for that path returns the same handle and changes nothing, whichever backend
  makes it and whatever it prefers about warnings.
\<close>
theorem load_module_once:
  assumes "load_module env path w st = (Inr (Some p), st')"
  shows "load_module env path w' st' = (Inr (Some p), st')"
  using assms
proof (rule load_module_SomeE)
  fix dlm magic
  assume "record_module env path dlm magic st = (Inr p, st')"
  from record_module_found[OF this] load_module_again[OF assms] show ?thesis by blast
qed


text \<open>
  Unloading a module that the table does not know, with \<open>missing_ok\<close>, reports success but
  leaves a new entry in the table and the lock on that entry held.
\<close>
theorem unload_missing_keeps_lock:
  assumes "hash_find (handles st) p = Some h" "hash_find (omni_modules st) (hp_path h) = None"
    and "entry_locks st = []"
  shows "fst (unload_module env p True st) = Inr ()
    \<and> entry_locks (snd (unload_module env p True st)) = [hp_path h]
    \<and> hash_find (omni_modules (snd (unload_module env p True st))) (hp_path h) \<noteq> None"
  using assms by (simp add: unload_module_def Let_def htab_simps)

text \<open>
  Each switch is flipped by exactly one caller.  When calls turn switches on, in any order,
  starting with all switches off, every switch in a mask is reported as flipped by exactly
  one call, the first that has it in its mask, and it is on at the end.
\<close>
theorem switch_leader_election:
  assumes "bit (foldr (OR) masks 0) n" "switch_all (map (\<lambda>k. (omni_switch_on, k)) masks) 0 = (rs, m)"
  shows "bit m n \<and> length (filter (\<lambda>r. case r of Inr x \<Rightarrow> bit x n | Inl _ \<Rightarrow> False) rs) = 1"
proof -
  have gen: "switch_all (map (\<lambda>k. (omni_switch_on, k)) masks) m0 = (rs, m) \<Longrightarrow>
      (bit m n \<longleftrightarrow> bit m0 n \<or> bit (foldr (OR) masks 0) n) \<and>
      length (filter (\<lambda>r. case r of Inr x \<Rightarrow> bit x n | Inl _ \<Rightarrow> False) rs) =
        (if \<not> bit m0 n \<and> bit (foldr (OR) masks 0) n then 1 else 0)" for m0 rs m
  proof (induction masks arbitrary: m0 rs m)
    case (Cons k masks)
    obtain rs' where rs': "switch_all (map (\<lambda>k. (omni_switch_on, k)) masks) (m0 OR k) = (rs', m)"
      "rs = Inr ((m0 XOR k) AND k) # rs'"
      using Cons.prems by (auto simp: atomic_switch_def split: prod.splits)
    have len: "bit k n \<Longrightarrow> n < 64" "bit m0 n \<Longrightarrow> n < 64"
      using bit_imp_le_length[of k n] bit_imp_le_length[of m0 n] by simp_all
    show ?case
      using Cons.IH[OF rs'(1)] len
      by (auto simp: rs'(2) bit_or_iff bit_and_iff bit_xor_iff)
  qed simp
  from gen[OF assms(2)] assms(1) show ?thesis by simp
qed

text \<open>
  When a background worker requested in a transaction starts.  Requested immediately, it
  starts at once; requested for after the commit, it starts once if the transaction commits
  and never if it aborts; requested for the commit itself, it never starts, because its
  callback is used up by the event before the commit.
\<close>
theorem bgworker_timing:
  fixes payload :: void_ptr
  defines "idle \<equiv> \<lparr> bgw_oneshot = \<lparr> xact_oneshot_callbacks = [], after_xact_oneshot_callbacks = [],
      reset_callbacks = [], fired = [] \<rparr>, bgw_started = [], bgw_stopped = [] \<rparr>"
  shows "bgw_started (request_bgworker_op do_start_bgworker payload omni_timing_immediately idle)
      = [payload]
    \<and> bgw_started (end_transaction [PreCommit, Commit]
        (request_bgworker_op do_start_bgworker payload omni_timing_after_commit idle)) = [payload]
    \<and> bgw_started (end_transaction [Abort]
        (request_bgworker_op do_start_bgworker payload omni_timing_after_commit idle)) = []
    \<and> bgw_started (end_transaction [PreCommit, Commit]
        (request_bgworker_op do_start_bgworker payload omni_timing_at_commit idle)) = []"
  by (simp add: idle_def request_bgworker_op_def end_transaction_def run_fired_def fire_oneshot_def
      reset_context_def on_xact_dealloc_def Let_def)

section \<open>Witnesses\<close>

definition sample_dl :: dl_module where
  "sample_dl = \<lparr> dl_magic = Some \<lparr> magic_size = 12, magic_version = 0, magic_revision = 7,
       magic_pg_version = 170004 \<rparr>,
     dl_info = Some \<lparr> info_name = Some ''m'', info_version = Some ''1'', info_identity = Some ''i'' \<rparr>,
     dl_has_worker_symbols = False, dl_is_preloaded_omni = False, dl_has_load = False,
     dl_has_init = True, dl_has_deinit = True, dl_has_unload = False \<rparr>"

definition sample_env :: loader_env where
  "sample_env = \<lparr> dl_open = (\<lambda>_. Some sample_dl), omni_library_name = ''omni'', omni_version = ''0'',
     omni_identity = ''o'', server_version_num = 170004, is_background_worker = False,
     is_client_backend = True, in_transaction = True, pg_extensions = [],
     extension_module_pathname = (\<lambda>_ _. Inr None), pkglib_path = ''/lib'',
     dsa_allocate = (\<lambda>ps. Suc (sum_list ps)), init_hooks = (\<lambda>_ heps. heps) \<rparr>"

definition fresh_loader :: loader_state where
  "fresh_loader = \<lparr> module_counter = 0, omni_modules = [], handles = [], entry_locks = [],
     backend_initialized = True, backend_force_reload = True, initialized_modules = [],
     omni_self = None, module_contexts = [], hook_entry_points = (\<lambda>_. None), trace = [],
     warnings = [] \<rparr>"

definition one_module :: loader_state where
  "one_module = snd (load_module sample_env ''m.so'' True fresh_loader)"

lemmas sample_simps = sample_dl_def sample_env_def fresh_loader_def load_module_def Let_def
  check_omni_010_def check_other_omni_def record_module_def bind_action_def return_action_def
  sizeof_omni_magic_def OMNI_INTERFACE_VERSION_def hash_find_def hash_enter_def name_field_def

lemma load_sample: "load_module sample_env ''m.so'' True fresh_loader = (Inr (Some 1), one_module)"
  by (simp add: one_module_def sample_simps)

lemma one_module_inv: "loader_inv one_module" "known one_module 1"
  by (simp_all add: loader_inv_def known_def one_module_def module_path_def sample_simps
      hooks_owned_def)

theorem load_module_once_witness:
  "load_module sample_env ''m.so'' False one_module = (Inr (Some 1), one_module)"
  by (rule load_module_once[OF load_sample])


theorem unload_missing_keeps_lock_witness:
  "entry_locks (snd (unload_module sample_env 1 True (one_module \<lparr> omni_modules := [] \<rparr>))) = [''m.so'']"
proof -
  obtain h where "hash_find (handles (one_module \<lparr> omni_modules := [] \<rparr>)) 1 = Some h" "hp_path h = ''m.so''"
    by (simp add: one_module_def sample_simps)
  with unload_missing_keeps_lock[of "one_module \<lparr> omni_modules := [] \<rparr>" 1 h sample_env] show ?thesis
    by (simp add: hash_find_empty loader_invD(5)[OF one_module_inv(1)])
qed

theorem switch_leader_election_witness:
  "bit (snd (switch_all [(omni_switch_on, 1), (omni_switch_on, 3), (omni_switch_on, 2)] 0)) 1
   \<and> length (filter (\<lambda>r. case r of Inr x \<Rightarrow> bit x 1 | Inl _ \<Rightarrow> False)
       (fst (switch_all [(omni_switch_on, 1), (omni_switch_on, 3), (omni_switch_on, 2)] 0))) = 1"
proof -
  obtain rs m where rm: "switch_all (map (\<lambda>k. (omni_switch_on, k)) [1, 3, 2]) 0 = (rs, m)" by force
  have "bit (foldr (OR) [1, 3, 2] (0 :: 64 word)) 1" by (simp add: bit_or_iff)
  from switch_leader_election[OF this rm] rm show ?thesis by simp
qed

end
