(* ===== verification/Omni_Urlencode.thy ===== *)
theory Omni_Urlencode
  imports Omni_Prelude
begin

text \<open>
  URL encoding and decoding: \<open>src/extensions/omni_web/urlencode.c\<close>.

  A text is the list of its bytes.  \<open>pg_mblen\<close>, the length in bytes of the character at the
  start of a text in the server encoding, \<open>unicode_to_utf8\<close>, the buffer with the UTF-8 form
  of a code point, and \<open>pg_utf_mblen\<close>, the length of that form, are PostgreSQL's; they are
  arguments of the definitions.  The code writes into a buffer of a size fixed in advance;
  the length lemmas show that what is written fits.
\<close>

unbundle bit_operations_syntax

section \<open>Hexadecimal digits\<close>

definition hex_chars :: "byte list" where
  "hex_chars = [48, 49, 50, 51, 52, 53, 54, 55, 56, 57, 65, 66, 67, 68, 69, 70]"

definition hexlookup :: "int list" where
  "hexlookup = replicate 48 (-1) @ [0, 1, 2, 3, 4, 5, 6, 7, 8, 9] @ replicate 7 (-1)
     @ [10, 11, 12, 13, 14, 15] @ replicate 26 (-1) @ [10, 11, 12, 13, 14, 15] @ replicate 25 (-1)"

text \<open>The argument is a signed \<open>char\<close>: a byte from 128 on is negative.\<close>

definition get_hex :: "byte \<Rightarrow> byte outcome" where
  "get_hex c =
     (let res = (if 0 < sint c \<and> sint c < 127 then hexlookup ! unat c else -1) in
      if res < 0 then Inl (Ereport ERRCODE_INVALID_PARAMETER_VALUE ''invalid hexadecimal digit'')
      else Inr (word_of_int res))"

abbreviation percent :: byte where "percent \<equiv> 37"

section \<open>Encoding\<close>

text \<open>\<open>strchr\<close> also finds the terminating zero of the string.\<close>

definition unreserved :: "byte list \<Rightarrow> byte \<Rightarrow> bool" where
  "unreserved special c \<longleftrightarrow>
     48 \<le> c \<and> c \<le> 57 \<or> 97 \<le> c \<and> c \<le> 122 \<or> 65 \<le> c \<and> c \<le> 90 \<or> c \<in> set special \<or> c = 0"

definition encode_byte :: "byte \<Rightarrow> byte list" where
  "encode_byte b =
     [percent, hex_chars ! unat (drop_bit 4 b AND 0xF), hex_chars ! unat (b AND 0xF)]"

text \<open>
  The loop over the characters.  A character that ends behind the end of the text makes the
  code read outside of it; a \<open>pg_mblen\<close> of zero would keep it from making progress.
\<close>

function encode :: "(byte list \<Rightarrow> nat) \<Rightarrow> byte list \<Rightarrow> byte list \<Rightarrow> byte list outcome" where
  "encode pg_mblen special bs =
     (if bs = [] then Inr []
      else
        (let mblen = pg_mblen bs in
         if mblen = 0 \<or> mblen > length bs then Inl (Crash ''read outside of the text'')
         else if mblen = 1 \<and> unreserved special (hd bs)
         then bind_outcome (encode pg_mblen special (tl bs)) (\<lambda>r. Inr (hd bs # r))
         else bind_outcome (encode pg_mblen special (drop mblen bs))
                (\<lambda>r. Inr (concat (map encode_byte (take mblen bs)) @ r))))"
  by pat_completeness auto
termination by (relation "measure (\<lambda>(_, _, bs). length bs)") auto

declare encode.simps [simp del]

section \<open>Decoding\<close>

definition decode_utf16_pair :: "16 word \<Rightarrow> 16 word \<Rightarrow> 32 word" where
  "decode_utf16_pair c1 c2 =
     0x10000 + push_bit 10 (ucast c1 AND 0x03FF) + (ucast c2 AND 0x03FF)"

text \<open>Two hexadecimal digits as a byte, four as a 16-bit unit.\<close>

definition hex_byte :: "byte \<Rightarrow> byte \<Rightarrow> byte outcome" where
  "hex_byte d1 d2 =
     bind_outcome (get_hex d1) (\<lambda>h. bind_outcome (get_hex d2) (\<lambda>l. Inr (push_bit 4 h OR l)))"

definition hex_unit :: "byte list \<Rightarrow> 16 word outcome" where
  "hex_unit ds =
     bind_outcome (hex_byte (ds ! 0) (ds ! 1)) (\<lambda>b1.
     bind_outcome (hex_byte (ds ! 2) (ds ! 3)) (\<lambda>b2.
     Inr (ucast b2 OR push_bit 8 (ucast b1))))"

record utf8 =
  unicode_to_utf8 :: "32 word \<Rightarrow> byte list"
  pg_utf_mblen :: "byte list \<Rightarrow> nat"

text \<open>A \<open>%uXXXX\<close> unit, or a pair of them: the code point and the number of bytes read.\<close>

definition decode_unit :: "byte list \<Rightarrow> (32 word \<times> nat) outcome" where
  "decode_unit bs =
     (if length bs < 6 then elog_error ''incomplete input string''
      else bind_outcome (hex_unit (drop 2 bs)) (\<lambda>c1.
        if 0xD800 \<le> c1 \<and> c1 \<le> 0xDBFF then
          (if length bs < 10 then elog_error ''incomplete input string''
           else bind_outcome (hex_unit (drop 6 bs)) (\<lambda>c2.
             if \<not> (0xDC00 \<le> c2 \<and> c2 \<le> 0xDFFF) then elog_error ''invalid utf16 input char''
             else Inr (decode_utf16_pair c1 c2, 10)))
        else Inr (ucast c1, 6)))"

lemma decode_unit_length:
  "decode_unit bs = Inr (u, n) \<Longrightarrow> 6 \<le> n \<and> n \<le> length bs"
  by (auto simp: decode_unit_def bind_outcome_Inr_iff split: if_splits)

definition write_utf8 :: "utf8 \<Rightarrow> 32 word \<Rightarrow> byte list" where
  "write_utf8 u8 u = (let buffer = unicode_to_utf8 u8 u in take (pg_utf_mblen u8 buffer) buffer)"

function decode :: "utf8 \<Rightarrow> byte list \<Rightarrow> byte list \<Rightarrow> byte list outcome" where
  "decode u8 special bs =
     (if bs = [] then Inr []
      else if hd bs \<noteq> percent then
        (if unreserved special (hd bs)
         then bind_outcome (decode u8 special (tl bs)) (\<lambda>r. Inr (hd bs # r))
         else elog_error ''unaccepted chars in url code'')
      else if length bs \<le> 1 then elog_error ''incomplete input string''
      else if bs ! 1 = 117 \<or> bs ! 1 = 85 then
        (case decode_unit bs of
           Inl e \<Rightarrow> Inl e
         | Inr (u, n) \<Rightarrow>
             bind_outcome (decode u8 special (drop n bs)) (\<lambda>r. Inr (write_utf8 u8 u @ r)))
      else if length bs < 3 then elog_error ''incomplete input string''
      else
        (case hex_byte (bs ! 1) (bs ! 2) of
           Inl e \<Rightarrow> Inl e
         | Inr b \<Rightarrow> bind_outcome (decode u8 special (drop 3 bs)) (\<lambda>r. Inr (b # r))))"
  by pat_completeness auto
termination
  by (relation "measure (\<lambda>(_, _, bs). length bs)") (auto dest: decode_unit_length)

declare decode.simps [simp del]

section \<open>The SQL functions\<close>

text \<open>The strings \<open>".-~_"\<close> and \<open>"-_.!~*'();/?:@&=+$,#"\<close>.\<close>

definition url_special :: "byte list" where "url_special = [46, 45, 126, 95]"

definition uri_special :: "byte list" where
  "uri_special = [45, 95, 46, 33, 126, 42, 39, 40, 41, 59, 47, 63, 58, 64, 38, 61, 43, 36, 44, 35]"

definition url_encode where "url_encode pg_mblen t = encode pg_mblen url_special t"
definition url_decode where "url_decode u8 t = decode u8 url_special t"
definition uri_encode where "uri_encode pg_mblen t = encode pg_mblen uri_special t"
definition uri_decode where "uri_decode u8 t = decode u8 uri_special t"

section \<open>Round trip\<close>

lemma get_hex_digits: "list_all (\<lambda>n. get_hex (hex_chars ! n) = Inr (of_nat n)) [0..<16]"
  by code_simp

lemma get_hex_hex_chars: "n < 16 \<Longrightarrow> get_hex (hex_chars ! n) = Inr (of_nat n)"
  using get_hex_digits by (simp only: list_all_iff set_upt) simp

lemma nibbles:
  fixes b :: byte
  shows "unat (drop_bit 4 b AND 0xF) < 16" "unat (b AND 0xF) < 16"
    "push_bit 4 (drop_bit 4 b AND 0xF) OR (b AND 0xF) = b"
proof -
  have m: "(0xF :: byte) = mask 4" by (simp add: mask_eq_exp_minus_1)
  have "unat (x AND mask 4) < 16" for x :: byte
    by (simp flip: take_bit_eq_mask add: unsigned_take_bit_eq) (simp add: take_bit_eq_mod)
  then show "unat (drop_bit 4 b AND 0xF) < 16" "unat (b AND 0xF) < 16" unfolding m by blast+
  show "push_bit 4 (drop_bit 4 b AND 0xF) OR (b AND 0xF) = b"
    unfolding m by (rule bit_word_eqI) (auto simp: bit_simps)
qed

lemma hex_byte_encode:
  "hex_byte (hex_chars ! unat (drop_bit 4 b AND 0xF)) (hex_chars ! unat (b AND 0xF)) = Inr b"
  unfolding hex_byte_def
  by (simp only: get_hex_hex_chars nibbles bind_outcome.simps of_nat_unat ucast_id)

lemma hex_chars_not_u:
  "n < 16 \<Longrightarrow> hex_chars ! n \<noteq> 117 \<and> hex_chars ! n \<noteq> 85"
  using nth_mem[of n hex_chars] by (auto simp: hex_chars_def)

lemma decode_encode_byte:
  "decode u8 special (encode_byte b @ r) = bind_outcome (decode u8 special r) (\<lambda>x. Inr (b # x))"
  using hex_chars_not_u[OF nibbles(1)[of b]] hex_byte_encode[of b]
  by (subst decode.simps) (simp add: encode_byte_def)

lemma decode_encode_bytes:
  "decode u8 special (concat (map encode_byte bs) @ r) =
     bind_outcome (decode u8 special r) (\<lambda>x. Inr (bs @ x))"
proof (induction bs)
  case Nil
  show ?case by (cases "decode u8 special r") simp_all
next
  case (Cons b bs)
  show ?case
    by (cases "decode u8 special r") (simp_all add: decode_encode_byte Cons.IH)
qed

lemma decode_literal:
  "c \<noteq> percent \<Longrightarrow> unreserved special c \<Longrightarrow>
   decode u8 special (c # r) = bind_outcome (decode u8 special r) (\<lambda>x. Inr (c # x))"
  by (subst decode.simps) simp

lemma unreserved_not_percent: "percent \<notin> set special \<Longrightarrow> unreserved special c \<Longrightarrow> c \<noteq> percent"
  by (auto simp: unreserved_def)

text \<open>What the code relies on: a character has at least one byte and ends within the text.\<close>

definition mblen_ok :: "(byte list \<Rightarrow> nat) \<Rightarrow> byte list \<Rightarrow> bool" where
  "mblen_ok pg_mblen t \<longleftrightarrow>
     (\<forall>n < length t. 1 \<le> pg_mblen (drop n t) \<and> pg_mblen (drop n t) \<le> length t - n)"

lemma mblen_ok_drop: "mblen_ok pg_mblen t \<Longrightarrow> mblen_ok pg_mblen (drop k t)"
  unfolding mblen_ok_def
proof (intro allI impI)
  fix n assume ok: "\<forall>n<length t. 1 \<le> pg_mblen (drop n t) \<and> pg_mblen (drop n t) \<le> length t - n"
    and n: "n < length (drop k t)"
  then have "k + n < length t" by simp
  with ok have "1 \<le> pg_mblen (drop (k + n) t) \<and> pg_mblen (drop (k + n) t) \<le> length t - (k + n)"
    by blast
  then show "1 \<le> pg_mblen (drop n (drop k t)) \<and> pg_mblen (drop n (drop k t)) \<le> length (drop k t) - n"
    by (simp add: add.commute)
qed

lemma encode_then_decode:
  assumes "mblen_ok pg_mblen t" "percent \<notin> set special"
  shows "\<exists>r. encode pg_mblen special t = Inr r \<and> decode u8 special r = Inr t \<and> length r \<le> 3 * length t"
  using assms
proof (induction pg_mblen special t rule: encode.induct)
  case (1 pg_mblen special bs)
  show ?case
  proof (cases "bs = []")
    case True
    then show ?thesis by (simp add: encode.simps decode.simps)
  next
    case False
    define mblen where "mblen = pg_mblen bs"
    have "0 < length bs" using False by simp
    then have len: "1 \<le> mblen" "mblen \<le> length bs"
      using 1(3)[unfolded mblen_ok_def, rule_format, of 0] by (simp_all add: mblen_def)
    then have fine: "\<not> (mblen = 0 \<or> mblen > length bs)" by simp
    show ?thesis
    proof (cases "mblen = 1 \<and> unreserved special (hd bs)")
      case True
      obtain r where r: "encode pg_mblen special (tl bs) = Inr r" "decode u8 special r = Inr (tl bs)"
        "length r \<le> 3 * length (tl bs)"
        using 1(1)[OF False mblen_def fine True] 1(3,4) mblen_ok_drop[of pg_mblen bs 1]
        by (auto simp: drop_Suc)
      have "encode pg_mblen special bs = Inr (hd bs # r)"
        using False True fine r by (subst encode.simps) (simp add: Let_def flip: mblen_def)
      moreover have "decode u8 special (hd bs # r) = Inr bs"
        using True unreserved_not_percent[OF 1(4)] r False by (simp add: decode_literal)
      moreover have "length (hd bs # r) \<le> 3 * length bs" using r(3) False by (cases bs) auto
      ultimately show ?thesis by blast
    next
      case other: False
      obtain r where r: "encode pg_mblen special (drop mblen bs) = Inr r"
        "decode u8 special r = Inr (drop mblen bs)" "length r \<le> 3 * length (drop mblen bs)"
        using 1(2)[OF False mblen_def fine other] 1(3,4) mblen_ok_drop[of pg_mblen bs mblen] by auto
      let ?out = "concat (map encode_byte (take mblen bs)) @ r"
      have "encode pg_mblen special bs = Inr ?out"
        using False other fine r by (subst encode.simps) (auto simp: Let_def simp flip: mblen_def)
      moreover have "decode u8 special ?out = Inr bs"
        by (simp add: decode_encode_bytes r)
      moreover have "length (concat (map encode_byte xs)) = 3 * length xs" for xs
        by (induction xs) (simp_all add: encode_byte_def)
      then have "length ?out \<le> 3 * length bs" using r(3) len by simp
      ultimately show ?thesis by blast
    qed
  qed
qed

lemma decode_length:
  assumes "\<And>u. length (write_utf8 u8 u) \<le> 6" "decode u8 special t = Inr r"
  shows "length r \<le> length t"
  using assms
proof (induction u8 special t arbitrary: r rule: decode.induct)
  case (1 u8 special bs)
  note IH = 1(1-3) and utf8 = 1(4) and dec = 1(5)
  consider "bs = []" "r = []"
    | r' where "bs \<noteq> []" "hd bs \<noteq> percent" "unreserved special (hd bs)"
        "decode u8 special (tl bs) = Inr r'" "r = hd bs # r'"
    | u n r' where "bs \<noteq> []" "hd bs = percent" "1 < length bs" "bs ! 1 = 117 \<or> bs ! 1 = 85"
        "decode_unit bs = Inr (u, n)" "decode u8 special (drop n bs) = Inr r'" "r = write_utf8 u8 u @ r'"
    | b r' where "bs \<noteq> []" "hd bs = percent" "3 \<le> length bs" "\<not> (bs ! 1 = 117 \<or> bs ! 1 = 85)"
        "hex_byte (bs ! 1) (bs ! 2) = Inr b" "decode u8 special (drop 3 bs) = Inr r'" "r = b # r'"
    using dec by (subst (asm) decode.simps)
      (auto simp: bind_outcome_Inr_iff not_le split: if_splits sum.splits prod.splits)
  then show ?case
  proof cases
    case 2
    then have "length r' \<le> length (tl bs)" using IH(1)[OF _ _ _ utf8] by simp
    then show ?thesis using 2 by (cases bs) auto
  next
    case (3 u n r')
    then have "length r' \<le> length (drop n bs)" using IH(2)[OF _ _ _ _ _ _ utf8] by simp
    then show ?thesis using 3(7) utf8[of u] decode_unit_length[OF 3(5)] by auto
  next
    case (4 b r')
    then have "length r' \<le> length (drop 3 bs)" using IH(3)[OF _ _ _ _ _ _ utf8] by simp
    then show ?thesis using 4 by simp
  qed simp
qed

section \<open>Properties\<close>

text \<open>
  C26: decoding inverts encoding, for both pairs of SQL functions.  For every text whose
  characters have at least one byte and end within the text, encoding succeeds, and decoding
  its result gives the text back.
\<close>
theorem url_round_trip:
  assumes "mblen_ok pg_mblen t"
  shows "(\<exists>r. url_encode pg_mblen t = Inr r \<and> url_decode u8 r = Inr t)
    \<and> (\<exists>r. uri_encode pg_mblen t = Inr r \<and> uri_decode u8 r = Inr t)"
  using encode_then_decode[OF assms, of url_special u8] encode_then_decode[OF assms, of uri_special u8]
  by (auto simp: url_encode_def url_decode_def uri_encode_def uri_decode_def url_special_def
      uri_special_def)

text \<open>
  Neither function writes outside of its buffer.  The encoded text has at most three times
  the length of the text, and the decoded text, when the UTF-8 form of a code point has at
  most six bytes, is no longer than its input.
\<close>
theorem url_buffers_suffice:
  assumes "mblen_ok pg_mblen t" "\<forall>u. length (write_utf8 u8 u) \<le> 6" "percent \<notin> set special"
  shows "(\<exists>r. encode pg_mblen special t = Inr r \<and> length r \<le> 3 * length t)
    \<and> (case decode u8 special t' of Inr r \<Rightarrow> length r \<le> length t' | Inl _ \<Rightarrow> True)"
  using encode_then_decode[OF assms(1,3), of u8] decode_length[of u8 special t'] assms(2)
  by (auto split: sum.split)

section \<open>Witnesses\<close>

definition single_byte :: "byte list \<Rightarrow> nat" where "single_byte _ = 1"

definition no_utf8 :: utf8 where
  "no_utf8 = \<lparr> unicode_to_utf8 = (\<lambda>_. [63]), pg_utf_mblen = (\<lambda>_. 1) \<rparr>"

lemma single_byte_ok: "mblen_ok single_byte t"
  by (auto simp: mblen_ok_def single_byte_def)

theorem url_round_trip_witness:
  "(\<exists>r. url_encode single_byte [97, 32, 47] = Inr r \<and> url_decode no_utf8 r = Inr [97, 32, 47])
   \<and> (\<exists>r. uri_encode single_byte [97, 32, 47] = Inr r \<and> uri_decode no_utf8 r = Inr [97, 32, 47])"
  by (rule url_round_trip[OF single_byte_ok])

theorem url_buffers_suffice_witness:
  "\<exists>r. encode single_byte url_special [97, 32, 47] = Inr r \<and> length r \<le> 9"
  using url_buffers_suffice[OF single_byte_ok, of no_utf8 url_special "[97, 32, 47]" "[]"]
  by (simp add: write_utf8_def no_utf8_def url_special_def)

end
