(* ===== verification/Omni_Seq_Id.thy ===== *)
theory Omni_Seq_Id
  imports Omni_Cstring
begin

text \<open>
  Prefixed identifiers: \<open>src/extensions/omni_seq/id.h\<close>, a template that is included once for each
  pair of a prefix width and a value width.  The definitions are polymorphic in the two widths:
  \<open>'p\<close> is the width of the prefix and \<open>'v\<close> the width of the value; both are signed.

  \<open>errno\<close> is a flag that says whether it holds \<open>ERANGE\<close>; the value of a sequence is an argument of \<open>id_nextval\<close>.
\<close>

section \<open>Data\<close>

record (overloaded) ('p, 'v) st =
  prefix :: "'p word"
  val :: "'v word"

section \<open>Input and output\<close>

text \<open>
  \<open>errno\<close> is not cleared before the conversions, so its value on entry matters.  The value is
  converted to the type of the prefix first.
\<close>

definition id_in :: "bool \<Rightarrow> string \<Rightarrow> ('p::len, 'v::len) st outcome" where
  "id_in errno_erange input =
     (if CHR '':'' \<notin> set input then elog_error ''invalid input format''
      else
        (let (p, e1) = strtoll input;
             split = dropWhile (\<lambda>c. c \<noteq> CHR '':'') input;
             (v, e2) = strtoll (tl split)
         in if errno_erange \<or> e1 then elog_error ''range error''
            else if e2 then elog_error ''range error''
            else Inr \<lparr> prefix = word_of_int p, val = scast (word_of_int v :: 'p word) \<rparr>))"

definition id_out :: "('p::len, 'v::len) st \<Rightarrow> string" where
  "id_out x = show_int (sint (prefix x)) @ CHR '':'' # show_int (sint (val x))"

definition id_recv :: "byte list \<Rightarrow> ('p::len, 'v::len) st outcome" where
  "id_recv input =
     (let np = LENGTH('p) div 8; nv = LENGTH('v) div 8 in
      if length input \<noteq> np + nv then elog_error ''input length is incorrect''
      else Inr \<lparr> prefix = be_word (take np input), val = be_word (drop np input) \<rparr>)"

definition id_send :: "('p::len, 'v::len) st \<Rightarrow> byte list" where
  "id_send x = be_bytes (LENGTH('p) div 8) (prefix x) @ be_bytes (LENGTH('v) div 8) (val x)"

section \<open>Comparison\<close>

definition id_eq :: "('p::len, 'v::len) st \<Rightarrow> ('p, 'v) st \<Rightarrow> bool" where
  "id_eq x y \<longleftrightarrow> prefix x = prefix y \<and> val x = val y"

definition id_neq :: "('p::len, 'v::len) st \<Rightarrow> ('p, 'v) st \<Rightarrow> bool" where
  "id_neq x y \<longleftrightarrow> \<not> (prefix x = prefix y \<and> val x = val y)"

definition id_leq :: "('p::len, 'v::len) st \<Rightarrow> ('p, 'v) st \<Rightarrow> bool" where
  "id_leq x y \<longleftrightarrow> sint (prefix x) \<le> sint (prefix y) \<and> sint (val x) \<le> sint (val y)"

definition id_lt :: "('p::len, 'v::len) st \<Rightarrow> ('p, 'v) st \<Rightarrow> bool" where
  "id_lt x y \<longleftrightarrow> sint (prefix x) < sint (prefix y) \<and> sint (val x) < sint (val y)"

definition id_geq :: "('p::len, 'v::len) st \<Rightarrow> ('p, 'v) st \<Rightarrow> bool" where
  "id_geq x y \<longleftrightarrow> sint (prefix x) \<ge> sint (prefix y) \<and> sint (val x) \<ge> sint (val y)"

definition id_gt :: "('p::len, 'v::len) st \<Rightarrow> ('p, 'v) st \<Rightarrow> bool" where
  "id_gt x y \<longleftrightarrow> sint (prefix x) > sint (prefix y) \<and> sint (val x) > sint (val y)"

definition id_cmp :: "('p::len, 'v::len) st \<Rightarrow> ('p, 'v) st \<Rightarrow> int" where
  "id_cmp x y =
     (if sint (prefix x) > sint (prefix y) \<and> sint (val x) > sint (val y) then 1
      else if sint (prefix x) < sint (prefix y) then -1
      else if sint (val x) > sint (val y) then 1
      else if sint (val x) < sint (val y) then -1
      else 0)"

section \<open>Construction\<close>

definition id_nextval :: "'p::len word \<Rightarrow> 64 word \<Rightarrow> ('p, 'v::len) st" where
  "id_nextval p nextval = \<lparr> prefix = p, val = ucast nextval \<rparr>"

definition id_make :: "'p::len word \<Rightarrow> 64 word \<Rightarrow> ('p, 'v::len) st" where
  "id_make p v = \<lparr> prefix = p, val = ucast v \<rparr>"

section \<open>Round trip of the text form\<close>

lemma sint_bounds64:
  fixes w :: "'a::len word"
  assumes "LENGTH('a) \<le> 64"
  shows "- (2 ^ 63) \<le> sint w" "sint w < 2 ^ 63"
proof -
  have "(2 :: int) ^ (LENGTH('a) - 1) \<le> 2 ^ 63" using assms by (intro power_increasing) auto
  then show "- (2 ^ 63) \<le> sint w" "sint w < 2 ^ 63"
    using sint_ge[of w] sint_lt[of w] by linarith+
qed

lemma colon_not_in_show_int: "CHR '':'' \<notin> set (show_int i)"
proof -
  have "CHR '':'' \<notin> set (show_nat n)" for n
    using show_nat_digits[of n] digit_not_special by (auto simp: list_all_iff)
  then show ?thesis by (simp add: show_int_def)
qed

lemma id_in_out_gen:
  fixes x :: "('p::len, 'v::len) st"
  assumes "LENGTH('p) \<le> 64" "LENGTH('v) \<le> 64"
  shows "(id_in False (id_out x) :: ('p, 'v) st outcome) =
    Inr \<lparr> prefix = prefix x, val = scast (scast (val x) :: 'p word) \<rparr>"
proof -
  have 1: "strtoll (id_out x) = (sint (prefix x), False)"
    unfolding id_out_def
    by (rule strtoll_show_int[OF sint_bounds64[OF assms(1)]]) (simp add: is_digit_def)
  have "dropWhile (\<lambda>c. c \<noteq> CHR '':'') (id_out x) = CHR '':'' # show_int (sint (val x))"
    unfolding id_out_def using colon_not_in_show_int
    by (subst dropWhile_append2) auto
  moreover have "strtoll (show_int (sint (val x))) = (sint (val x), False)"
    using strtoll_show_int[of "sint (val x)" "[]"] sint_bounds64[OF assms(2), of "val x"] by simp
  moreover have "CHR '':'' \<in> set (id_out x)" by (simp add: id_out_def)
  ultimately show ?thesis
    using 1 by (simp add: id_in_def)
qed

lemma scast_narrow:
  fixes v :: "'v::len word"
  assumes "- (2 ^ (LENGTH('p::len) - 1)) \<le> sint v" "sint v < 2 ^ (LENGTH('p) - 1)"
  shows "scast (scast v :: 'p word) = v"
proof -
  have "sint (word_of_int (sint v) :: 'p word) = sint v"
    unfolding sint_sbintrunc' using assms by (rule signed_take_bit_int_eq_self)
  then have "sint (scast v :: 'p word) = sint v" by simp
  then have "word_of_int (sint (scast v :: 'p word)) = (word_of_int (sint v) :: 'v word)" by simp
  then show ?thesis by simp
qed

section \<open>Encodings\<close>

definition fits_prefix :: "('p::len, 'v::len) st \<Rightarrow> bool" where
  "fits_prefix x \<longleftrightarrow> LENGTH('p) \<le> 64 \<and> LENGTH('v) \<le> 64 \<and>
     - (2 ^ (LENGTH('p) - 1)) \<le> sint (val x) \<and> sint (val x) < 2 ^ (LENGTH('p) - 1)"

definition whole_bytes :: "('p::len, 'v::len) st \<Rightarrow> bool" where
  "whole_bytes x \<longleftrightarrow> 8 dvd LENGTH('p) \<and> 8 dvd LENGTH('v)"

interpretation text_form: codec id_out "id_in False" fits_prefix
proof
  fix x :: "('p::len, 'v::len) st"
  assume "fits_prefix x"
  then show "id_in False (id_out x) = Inr x"
    using id_in_out_gen[of x] scast_narrow[of "val x", where ?'p = 'p]
    by (simp add: fits_prefix_def)
qed

interpretation binary_form: codec id_send id_recv whole_bytes
proof
  fix x :: "('p::len, 'v::len) st"
  assume "whole_bytes x"
  then have "8 * (LENGTH('p) div 8) = LENGTH('p)" "8 * (LENGTH('v) div 8) = LENGTH('v)"
    by (simp_all add: whole_bytes_def)
  then show "id_recv (id_send x) = Inr x"
    by (simp add: id_recv_def id_send_def Let_def be_word_be_bytes)
qed

section \<open>Properties\<close>

text \<open>
  C36: both external forms of an identifier can be read back.  The binary form always gives
  the identifier back; the text form does if the value fits the type of the prefix and
  \<open>errno\<close> does not hold \<open>ERANGE\<close> on entry.
\<close>
theorem id_round_trips:
  fixes x y :: "('p::len, 'v::len) st"
  assumes "fits_prefix x" "whole_bytes y"
  shows "id_in False (id_out x) = Inr x \<and> id_recv (id_send y) = Inr y"
  using text_form.dec_enc[OF assms(1)] binary_form.dec_enc[OF assms(2)] by simp

text \<open>
  Reading the text form truncates the value to the width of the prefix.  What is read back
  is the value cut to the prefix type; and an \<open>ERANGE\<close> left in \<open>errno\<close> by an earlier call makes
  every input fail.
\<close>
theorem id_in_truncates:
  fixes x :: "('p::len, 'v::len) st"
  assumes "LENGTH('p) \<le> 64" "LENGTH('v) \<le> 64"
  shows "(id_in False (id_out x) :: ('p, 'v) st outcome) =
      Inr \<lparr> prefix = prefix x, val = scast (scast (val x) :: 'p word) \<rparr>
    \<and> (id_in True (id_out x) :: ('p, 'v) st outcome) = elog_error ''range error''"
  using id_in_out_gen[OF assms, of x] by (simp add: id_in_def id_out_def split: prod.split)

text \<open>
  The comparison function of identifiers is not an order.  For two identifiers where the
  first has the larger prefix: with equal values they compare as equal although they are
  different, and with a smaller value of the first each is reported as smaller than the
  other.  Among identifiers with the same prefix it orders by value, but the operator \<open><\<close>,
  which the operator class declares for it, never holds there.
\<close>
theorem id_cmp_is_no_order:
  fixes x y :: "('p::len, 'v::len) st"
  shows "(if sint (prefix x) > sint (prefix y)
      then (val x = val y \<and> id_cmp x y = 0 \<and> id_neq x y)
         \<or> (sint (val x) < sint (val y) \<and> id_cmp x y = -1 \<and> id_cmp y x = -1)
         \<or> (sint (val x) > sint (val y) \<and> id_cmp x y = 1)
      else if prefix x = prefix y
      then id_cmp x y = sgn (sint (val x) - sint (val y)) \<and> id_lt x y = False
      else id_cmp x y = -1)"
proof -
  have "val x = val y \<longleftrightarrow> sint (val x) = sint (val y)" by (metis signed_word_eqI)
  moreover have "prefix x = prefix y \<longleftrightarrow> sint (prefix x) = sint (prefix y)"
    by (metis signed_word_eqI)
  ultimately show ?thesis by (auto simp: id_cmp_def id_neq_def id_lt_def sgn_if)
qed

section \<open>Witnesses\<close>

theorem id_round_trips_witness:
  "id_in False (id_out (\<lparr> prefix = 5, val = 7 \<rparr> :: (32, 16) st)) =
     Inr (\<lparr> prefix = 5, val = 7 \<rparr> :: (32, 16) st)
   \<and> id_recv (id_send (\<lparr> prefix = 5, val = 7 \<rparr> :: (32, 16) st)) =
     Inr (\<lparr> prefix = 5, val = 7 \<rparr> :: (32, 16) st)"
  by (rule id_round_trips) (simp_all add: fits_prefix_def whole_bytes_def)

theorem id_in_truncates_witness:
  "id_in False (id_out (\<lparr> prefix = 1, val = 0x12345 \<rparr> :: (16, 64) st)) =
     Inr (\<lparr> prefix = 1, val = 0x2345 \<rparr> :: (16, 64) st)"
  using id_in_truncates[of "\<lparr> prefix = 1, val = 0x12345 \<rparr> :: (16, 64) st"] by simp

end
