(* ===== verification/Omni_Uuid.thy ===== *)
theory Omni_Uuid
  imports Omni_Prelude "HOL-Library.Signed_Division"
begin

text \<open>
  UUID version 7: \<open>src/extensions/omni_polyfill/uuidv7.c\<close>.

  A UUID is the list of its 16 bytes.  Values of the type \<open>int64\<close> are integers, and \<open>int64\<close> wraps
  the result of every operation that may leave the type; C's division and remainder, which
  truncate towards zero, are \<open>sdiv\<close> and \<open>smod\<close>.  The clock reading and the random bytes
  are arguments.  \<open>step_bits\<close> is \<open>SUBMS_MINIMAL_STEP_BITS\<close>: 12, or 10 on platforms with a
  clock of microsecond precision.
\<close>

section \<open>Generation\<close>

definition int64 :: "int \<Rightarrow> int" where
  "int64 k = signed_take_bit 63 k"

definition NS_PER_S :: int where "NS_PER_S = 1000000000"
definition NS_PER_MS :: int where "NS_PER_MS = 1000000"
definition NS_PER_US :: int where "NS_PER_US = 1000"

definition SUBMS_MINIMAL_STEP_NS :: "nat \<Rightarrow> int" where
  "SUBMS_MINIMAL_STEP_NS step_bits = NS_PER_MS sdiv 2 ^ step_bits + 1"

definition uuid_set_version :: "byte list \<Rightarrow> byte \<Rightarrow> byte list" where
  "uuid_set_version uuid version =
     uuid[6 := (uuid ! 6 AND 0x0f) OR push_bit 4 version, 8 := (uuid ! 8 AND 0x3f) OR 0x80]"

record timespec =
  tv_sec :: int
  tv_nsec :: int

text \<open>The reading of the clock is adjusted to the previous result, which is a static variable.\<close>

definition get_real_time_ns_ascending :: "nat \<Rightarrow> timespec \<Rightarrow> int \<Rightarrow> int" where
  "get_real_time_ns_ascending step_bits tmp previous_ns =
     (let ns = int64 (int64 (tv_sec tmp * NS_PER_S) + tv_nsec tmp);
          next_ns = int64 (previous_ns + SUBMS_MINIMAL_STEP_NS step_bits)
      in if next_ns \<ge> ns then next_ns else ns)"

definition increased_clock_precision :: "int \<Rightarrow> int" where
  "increased_clock_precision ns = ((ns smod NS_PER_MS) * 2 ^ 12) sdiv NS_PER_MS"

definition generate_uuidv7 :: "nat \<Rightarrow> int \<Rightarrow> byte list \<Rightarrow> byte list" where
  "generate_uuidv7 step_bits ns random =
     (let ms = ns sdiv NS_PER_MS;
          prec = increased_clock_precision ns;
          uuid = [word_of_int (drop_bit 40 ms), word_of_int (drop_bit 32 ms),
                  word_of_int (drop_bit 24 ms), word_of_int (drop_bit 16 ms),
                  word_of_int (drop_bit 8 ms), word_of_int ms,
                  word_of_int (drop_bit 8 prec), word_of_int prec] @ random;
          uuid = (if step_bits = 10 then uuid[7 := uuid ! 7 XOR drop_bit 6 (uuid ! 8)] else uuid)
      in uuid_set_version uuid 7)"

text \<open>\<open>uuidv7_\<close>: a UUID and the new value of \<open>previous_ns\<close>; \<open>None\<close> if there are no random bytes.\<close>

definition uuidv7 :: "nat \<Rightarrow> timespec \<Rightarrow> byte list option \<Rightarrow> int \<Rightarrow> byte list outcome \<times> int" where
  "uuidv7 step_bits tmp random previous_ns =
     (let ns = get_real_time_ns_ascending step_bits tmp previous_ns in
      ((case random of
          None \<Rightarrow> elog_error ''could not generate random values''
        | Some bytes \<Rightarrow> Inr (generate_uuidv7 step_bits ns bytes)), ns))"

text \<open>Microseconds between the Unix epoch and the epoch of PostgreSQL.\<close>

definition epoch_shift_us :: int where
  "epoch_shift_us = (2451545 - 2440588) * 86400 * 1000000"

definition uuidv7_interval ::
  "nat \<Rightarrow> (int \<Rightarrow> int outcome) \<Rightarrow> timespec \<Rightarrow> byte list option \<Rightarrow> int \<Rightarrow> byte list outcome \<times> int" where
  "uuidv7_interval step_bits timestamptz_pl_interval tmp random previous_ns =
     (let ns = get_real_time_ns_ascending step_bits tmp previous_ns
      in (bind_outcome (timestamptz_pl_interval (ns sdiv NS_PER_US - epoch_shift_us)) (\<lambda>ts.
            let shifted = int64 (int64 (int64 (ts + epoch_shift_us) * NS_PER_US) + ns smod NS_PER_US)
            in case random of
                 None \<Rightarrow> elog_error ''could not generate random values''
               | Some bytes \<Rightarrow> Inr (generate_uuidv7 step_bits shifted bytes)), ns))"

section \<open>Extraction\<close>

definition rfc9562_variant :: "byte list \<Rightarrow> bool" where
  "rfc9562_variant uuid \<longleftrightarrow> uuid ! 8 AND 0xc0 = 0x80"

abbreviation byte_at :: "byte list \<Rightarrow> nat \<Rightarrow> 64 word" where
  "byte_at uuid i \<equiv> ucast (uuid ! i)"

text \<open>The timestamps are computed modulo \<open>2 ^ 64\<close> and read as signed.\<close>

definition uuid_extract_timestamp :: "byte list \<Rightarrow> int option" where
  "uuid_extract_timestamp uuid =
     (if \<not> rfc9562_variant uuid then None
      else
        (let version = drop_bit 4 (uuid ! 6) in
         if version = 1 then
           (let tms = push_bit 24 (byte_at uuid 0) + push_bit 16 (byte_at uuid 1)
                  + push_bit 8 (byte_at uuid 2) + byte_at uuid 3 + push_bit 40 (byte_at uuid 4)
                  + push_bit 32 (byte_at uuid 5) + push_bit 56 (byte_at uuid 6 AND 0xf)
                  + push_bit 48 (byte_at uuid 7)
            in Some (sint (tms div 10 - (2451545 - 2299161) * 86400 * 1000000)))
         else if version = 7 then
           (let tms = byte_at uuid 5 + push_bit 8 (byte_at uuid 4) + push_bit 16 (byte_at uuid 3)
                  + push_bit 24 (byte_at uuid 2) + push_bit 32 (byte_at uuid 1)
                  + push_bit 40 (byte_at uuid 0)
            in Some (sint (tms * 1000 - (2451545 - 2440588) * 86400 * 1000000)))
         else None))"

definition uuid_extract_version :: "byte list \<Rightarrow> nat option" where
  "uuid_extract_version uuid =
     (if \<not> rfc9562_variant uuid then None else Some (unat (drop_bit 4 (uuid ! 6))))"

section \<open>The time in a generated UUID\<close>

lemma sdiv_smod_nonneg:
  fixes a b :: int
  assumes "0 \<le> a" "0 < b"
  shows "a sdiv b = a div b" "a smod b = a mod b"
  using assms by (simp_all add: signed_divide_int_def signed_modulo_int_def sgn_if minus_div_mult_eq_mod)

lemma step12: "SUBMS_MINIMAL_STEP_NS 12 = 245"
  by (simp add: SUBMS_MINIMAL_STEP_NS_def NS_PER_MS_def signed_divide_int_def)

lemma precision_range:
  assumes "0 \<le> ns"
  shows "0 \<le> increased_clock_precision ns" "increased_clock_precision ns < 4096"
proof -
  have "0 \<le> ns mod 1000000" "ns mod 1000000 < 1000000" by simp_all
  then show "0 \<le> increased_clock_precision ns" "increased_clock_precision ns < 4096"
    using assms
    by (simp_all add: increased_clock_precision_def NS_PER_MS_def sdiv_smod_nonneg)
qed

lemma time_bytes:
  "[word_of_int (drop_bit 40 ms), word_of_int (drop_bit 32 ms), word_of_int (drop_bit 24 ms),
    word_of_int (drop_bit 16 ms), word_of_int (drop_bit 8 ms), word_of_int ms] =
   be_bytes 6 (word_of_int ms :: 64 word)"
proof -
  have "word_of_int (drop_bit k ms) = (ucast (drop_bit k (word_of_int ms :: 64 word)) :: byte)"
    if "k \<le> 40" for k
    by (rule bit_word_eqI) (use that in \<open>auto simp: bit_simps\<close>)
  from this[of 40] this[of 32] this[of 24] this[of 16] this[of 8] this[of 0] show ?thesis
    by (simp add: numeral_eq_Suc)
qed

lemma version_nibble:
  "\<forall>n \<in> set [0..<16]. unat ((word_of_nat n AND 0x0f) OR push_bit 4 7 :: byte) = 112 + n \<and>
     drop_bit 4 ((word_of_nat n AND 0x0f) OR push_bit 4 7 :: byte) = 7"
  by (simp add: upt_rec)

lemma version_byte:
  assumes "0 \<le> prec" "prec < 4096"
  shows "unat ((word_of_int (drop_bit 8 prec) AND 0x0f) OR push_bit 4 7 :: byte) = 112 + nat prec div 256"
    and "drop_bit 4 ((word_of_int (drop_bit 8 prec) AND 0x0f) OR push_bit 4 7 :: byte) = 7"
proof -
  have "drop_bit 8 prec = int (nat prec div 256)"
    using assms by (simp add: drop_bit_eq_div zdiv_int)
  then have w: "word_of_int (drop_bit 8 prec) = (word_of_nat (nat prec div 256) :: byte)" by simp
  have "nat prec div 256 \<in> set [0..<16]" using assms by auto
  then show "unat ((word_of_int (drop_bit 8 prec) AND 0x0f) OR push_bit 4 7 :: byte) = 112 + nat prec div 256"
    "drop_bit 4 ((word_of_int (drop_bit 8 prec) AND 0x0f) OR push_bit 4 7 :: byte) = 7"
    using version_nibble unfolding w by blast+
qed

lemma be_nat_time:
  assumes "0 \<le> ms" "ms < 2 ^ 48"
  shows "be_nat (be_bytes 6 (word_of_int ms :: 64 word)) = nat ms"
proof -
  have "unat (word_of_int ms :: 64 word) = nat ms"
    using assms by (simp add: unsigned_of_int take_bit_int_eq_self)
  moreover have "nat ms < 256 ^ 6" using assms by simp
  ultimately show ?thesis by (simp add: be_nat_be_bytes)
qed

abbreviation version_prec_bytes :: "int \<Rightarrow> byte list" where
  "version_prec_bytes prec \<equiv> [(word_of_int (drop_bit 8 prec) AND 0x0f) OR push_bit 4 7, word_of_int prec]"

lemma generate_uuidv7_bytes:
  assumes "length rnd = 8"
  shows "generate_uuidv7 12 ns rnd =
    be_bytes 6 (word_of_int (ns sdiv NS_PER_MS) :: 64 word)
      @ version_prec_bytes (increased_clock_precision ns)
      @ ((hd rnd AND 0x3f) OR 0x80) # tl rnd"
proof -
  obtain r rs where "rnd = r # rs" using assms by (cases rnd) auto
  then show ?thesis
    unfolding time_bytes[symmetric]
    by (simp add: generate_uuidv7_def uuid_set_version_def Let_def)
qed

lemma uuid_order_key:
  assumes "length rnd = 8" "0 \<le> ns" "ns < 2 ^ 48 * NS_PER_MS"
  shows "be_nat (take 8 (generate_uuidv7 12 ns rnd)) =
    nat (ns div NS_PER_MS) * 65536 + 28672 + nat (increased_clock_precision ns)"
proof -
  have ms: "0 \<le> ns div NS_PER_MS" "ns div NS_PER_MS < 2 ^ 48"
    using assms(2,3) by (auto simp: NS_PER_MS_def)
  note p = precision_range[OF assms(2)]
  let ?p = "increased_clock_precision ns"
  have low: "unat (word_of_int ?p :: byte) = nat ?p mod 256"
    using p by (simp add: unsigned_of_int take_bit_eq_mod nat_mod_distrib)
  have "be_nat (version_prec_bytes ?p) = (112 + nat ?p div 256) * 256 + nat ?p mod 256"
    using version_byte(1)[OF p] low by (simp add: be_nat_def)
  also have "\<dots> = 28672 + nat ?p" by simp
  finally have "be_nat (version_prec_bytes ?p) = 28672 + nat ?p" .
  moreover have "ns sdiv NS_PER_MS = ns div NS_PER_MS"
    using assms(2) by (simp add: sdiv_smod_nonneg NS_PER_MS_def)
  ultimately show ?thesis
    using be_nat_time[OF ms] assms(1) by (simp add: generate_uuidv7_bytes be_nat_append del: be_bytes.simps)
qed

lemma memcmp_less_prefix:
  "memcmp_less (take n xs) (take n ys) \<Longrightarrow> memcmp_less xs ys"
proof (induction xs ys arbitrary: n rule: memcmp_less.induct)
  case (1 x xs y ys)
  then show ?case by (cases n) auto
qed (auto simp: take_Cons split: nat.splits)

lemma uuid_increasing:
  assumes "length r1 = 8" "length r2 = 8" "0 \<le> ns1" "ns1 + 245 \<le> ns2" "ns2 < 2 ^ 48 * NS_PER_MS"
  shows "memcmp_less (generate_uuidv7 12 ns1 r1) (generate_uuidv7 12 ns2 r2)"
proof -
  let ?m = "\<lambda>ns. ns div NS_PER_MS" and ?p = increased_clock_precision
  have t: "?m ns * 4096 + ?p ns = ns * 4096 div 1000000" if "0 \<le> ns" for ns
  proof -
    have "?p ns = (ns mod 1000000) * 4096 div 1000000"
      using that by (simp add: increased_clock_precision_def NS_PER_MS_def sdiv_smod_nonneg)
    moreover have "ns * 4096 = (ns mod 1000000) * 4096 + (?m ns * 4096) * 1000000"
      using div_mult_mod_eq[of ns 1000000] unfolding NS_PER_MS_def by linarith
    ultimately show ?thesis by simp
  qed
  have "(ns1 * 4096 + 1000000) div 1000000 \<le> ns2 * 4096 div 1000000"
    using assms(4) by (intro zdiv_mono1) simp_all
  then have "?m ns1 * 4096 + ?p ns1 < ?m ns2 * 4096 + ?p ns2" using t assms(3,4) by simp
  moreover have "0 \<le> ?p ns1" "?p ns1 < 4096" "0 \<le> ?p ns2" "?p ns2 < 4096"
    using precision_range assms(3,4) by simp_all
  ultimately have "?m ns1 * 65536 + ?p ns1 < ?m ns2 * 65536 + ?p ns2"
    by (cases "?m ns1" "?m ns2" rule: linorder_cases) simp_all
  moreover have "int (nat (?m ns) * 65536 + nat (?p ns)) = ?m ns * 65536 + ?p ns" if "0 \<le> ns" for ns
    using that precision_range(1)[OF that] by (simp add: NS_PER_MS_def)
  ultimately have "int (nat (?m ns1) * 65536 + nat (?p ns1)) < int (nat (?m ns2) * 65536 + nat (?p ns2))"
    using assms(3,4) by simp
  then have "nat (?m ns1) * 65536 + nat (?p ns1) < nat (?m ns2) * 65536 + nat (?p ns2)"
    by (simp only: of_nat_less_iff)
  moreover have "be_nat (take 8 (generate_uuidv7 12 ns1 r1)) = nat (?m ns1) * 65536 + 28672 + nat (?p ns1)"
    by (rule uuid_order_key) (use assms in linarith)+
  moreover have "be_nat (take 8 (generate_uuidv7 12 ns2 r2)) = nat (?m ns2) * 65536 + 28672 + nat (?p ns2)"
    by (rule uuid_order_key) (use assms in linarith)+
  ultimately have "be_nat (take 8 (generate_uuidv7 12 ns1 r1)) < be_nat (take 8 (generate_uuidv7 12 ns2 r2))"
    by linarith
  moreover have "length (take 8 (generate_uuidv7 12 ns1 r1)) = length (take 8 (generate_uuidv7 12 ns2 r2))"
    using assms(1,2) by (simp add: generate_uuidv7_bytes del: be_bytes.simps)
  ultimately have "memcmp_less (take 8 (generate_uuidv7 12 ns1 r1)) (take 8 (generate_uuidv7 12 ns2 r2))"
    by (simp only: memcmp_less_be_nat)
  then show ?thesis by (rule memcmp_less_prefix)
qed

section \<open>Sequences of calls\<close>

text \<open>
  The calls of a backend, each with the reading of the clock and the random bytes, if there were
  any.  Both functions share the static variable \<open>previous_ns\<close>.
\<close>

datatype uuid_call =
    Uuidv7 timespec "byte list option"
  | Uuidv7_interval "int \<Rightarrow> int outcome" timespec "byte list option"

fun call_clock :: "uuid_call \<Rightarrow> timespec" where
  "call_clock (Uuidv7 tmp random) = tmp"
| "call_clock (Uuidv7_interval shift tmp random) = tmp"

text \<open>
  The UUIDs that the calls of \<open>uuidv7_\<close> return, and the value that \<open>previous_ns\<close> is left with.
\<close>

fun uuidv7_calls :: "nat \<Rightarrow> uuid_call list \<Rightarrow> int \<Rightarrow> byte list list \<times> int" where
  "uuidv7_calls step_bits [] previous_ns = ([], previous_ns)"
| "uuidv7_calls step_bits (Uuidv7 tmp random # calls) previous_ns =
     (let (result, ns) = uuidv7 step_bits tmp random previous_ns;
          (uuids, last_ns) = uuidv7_calls step_bits calls ns
      in ((case result of Inl _ \<Rightarrow> uuids | Inr uuid \<Rightarrow> uuid # uuids), last_ns))"
| "uuidv7_calls step_bits (Uuidv7_interval shift tmp random # calls) previous_ns =
     uuidv7_calls step_bits calls (snd (uuidv7_interval step_bits shift tmp random previous_ns))"

fun random_ok :: "uuid_call \<Rightarrow> bool" where
  "random_ok (Uuidv7 tmp (Some bytes)) = (length bytes = 8)"
| "random_ok _ = True"

text \<open>The clock reads at most \<open>m\<close> nanoseconds, and no time that \<open>int64\<close> cannot hold.\<close>

definition clock_ok :: "int \<Rightarrow> uuid_call \<Rightarrow> bool" where
  "clock_ok m call \<longleftrightarrow>
     (let sec = tv_sec (call_clock call); nsec = tv_nsec (call_clock call)
      in - (2 ^ 63) \<le> sec * NS_PER_S \<and> 0 \<le> nsec \<and> sec * NS_PER_S + nsec \<le> m)"

lemma int64_id: "- (2 ^ 63) \<le> k \<Longrightarrow> k < 2 ^ 63 \<Longrightarrow> int64 k = k"
  by (simp add: int64_def signed_take_bit_int_eq_self)

lemma ascending_step:
  assumes "clock_ok m call" "0 \<le> previous_ns" "previous_ns \<le> m" "m + 245 < 2 ^ 63"
  shows "previous_ns + 245 \<le> get_real_time_ns_ascending 12 (call_clock call) previous_ns"
    and "get_real_time_ns_ascending 12 (call_clock call) previous_ns \<le> m + 245"
proof -
  let ?c = "call_clock call"
  have "int64 (tv_sec ?c * NS_PER_S) = tv_sec ?c * NS_PER_S"
    using assms by (intro int64_id) (auto simp: clock_ok_def Let_def)
  moreover have "int64 (tv_sec ?c * NS_PER_S + tv_nsec ?c) = tv_sec ?c * NS_PER_S + tv_nsec ?c"
    using assms by (intro int64_id) (auto simp: clock_ok_def Let_def)
  moreover have "int64 (previous_ns + 245) = previous_ns + 245"
    using assms by (intro int64_id) auto
  ultimately show "previous_ns + 245 \<le> get_real_time_ns_ascending 12 ?c previous_ns"
    "get_real_time_ns_ascending 12 ?c previous_ns \<le> m + 245"
    using assms by (auto simp: get_real_time_ns_ascending_def step12 Let_def clock_ok_def)
qed

text \<open>One call: the new value of the variable, and the UUID, if one is returned.\<close>

lemma uuidv7_calls_Cons:
  fixes previous_ns :: int
  assumes "random_ok call"
  defines "ns \<equiv> get_real_time_ns_ascending 12 (call_clock call) previous_ns"
  shows "\<exists>new. uuidv7_calls 12 (call # calls) previous_ns =
      (new @ fst (uuidv7_calls 12 calls ns), snd (uuidv7_calls 12 calls ns)) \<and>
      (new = [] \<or> (\<exists>bytes. new = [generate_uuidv7 12 ns bytes] \<and> length bytes = 8))"
proof (cases call)
  case (Uuidv7 tmp random)
  have run: "uuidv7_calls 12 (call # calls) previous_ns =
      ((case random of None \<Rightarrow> [] | Some bytes \<Rightarrow> [generate_uuidv7 12 ns bytes]) @
         fst (uuidv7_calls 12 calls ns), snd (uuidv7_calls 12 calls ns))"
    by (cases random) (simp_all add: Uuidv7 ns_def uuidv7_def Let_def split_beta)
  show ?thesis
    by (rule exI, rule conjI[OF run]) (use assms(1) in \<open>auto simp: Uuidv7 split: option.splits\<close>)
qed (auto simp: ns_def uuidv7_interval_def Let_def intro!: exI[of _ "[]"])

lemma calls_generate:
  assumes "list_all random_ok calls" "list_all (clock_ok m) calls" "0 \<le> previous_ns" "previous_ns \<le> m"
    "m + 245 * int (length calls) < 2 ^ 63" "uuid \<in> set (fst (uuidv7_calls 12 calls previous_ns))"
  shows "\<exists>ns bytes. uuid = generate_uuidv7 12 ns bytes \<and> length bytes = 8 \<and>
       previous_ns + 245 \<le> ns \<and> ns < 2 ^ 63"
  using assms
proof (induction calls arbitrary: previous_ns m)
  case (Cons call calls)
  define ns where "ns = get_real_time_ns_ascending 12 (call_clock call) previous_ns"
  have step: "previous_ns + 245 \<le> ns" "ns \<le> m + 245"
    using ascending_step[of m call previous_ns] Cons.prems by (simp_all add: ns_def)
  have later: "list_all (clock_ok (m + 245)) calls" "m + 245 + 245 * int (length calls) < 2 ^ 63"
    using Cons.prems(2,5) by (auto simp: list_all_iff clock_ok_def Let_def)
  obtain new where new: "fst (uuidv7_calls 12 (call # calls) previous_ns) = new @ fst (uuidv7_calls 12 calls ns)"
    "new = [] \<or> (\<exists>bytes. new = [generate_uuidv7 12 ns bytes] \<and> length bytes = 8)"
    using uuidv7_calls_Cons[of call calls previous_ns] Cons.prems(1)
    unfolding ns_def list_all_iff by (metis fst_conv list.set_intros(1))
  consider "uuid \<in> set (fst (uuidv7_calls 12 calls ns))" | "uuid \<in> set new"
    using Cons.prems(6) new(1) by auto
  then show ?case
  proof cases
    case 1
    then show ?thesis using Cons.IH[OF _ later(1) _ step(2) later(2)] Cons.prems(1,3) step(1) by fastforce
  next
    case 2
    then show ?thesis using new(2) step later(2) by fastforce
  qed
qed simp

lemma extracted_bytes:
  assumes "length bytes = 8" "0 \<le> ns"
  shows "rfc9562_variant (generate_uuidv7 step_bits ns bytes)"
    and "drop_bit 4 (generate_uuidv7 step_bits ns bytes ! 6) = 7"
    and "take 6 (generate_uuidv7 step_bits ns bytes) =
      be_bytes 6 (word_of_int (ns div NS_PER_MS) :: 64 word)"
proof -
  obtain r rs where r: "bytes = r # rs" using assms by (cases bytes) auto
  have "((r AND 0x3f) OR 0x80) AND 0xc0 = (0x80 :: byte)"
    by (simp add: bit.conj_disj_distrib2 and.assoc)
  then show "rfc9562_variant (generate_uuidv7 step_bits ns bytes)"
    by (simp add: r rfc9562_variant_def generate_uuidv7_def uuid_set_version_def Let_def)
  show "drop_bit 4 (generate_uuidv7 step_bits ns bytes ! 6) = 7"
    using version_byte(2)[OF precision_range[OF assms(2)]]
    by (simp add: r generate_uuidv7_def uuid_set_version_def Let_def)
  have "ns sdiv NS_PER_MS = ns div NS_PER_MS"
    using assms(2) by (simp add: sdiv_smod_nonneg NS_PER_MS_def)
  then show "take 6 (generate_uuidv7 step_bits ns bytes) =
      be_bytes 6 (word_of_int (ns div NS_PER_MS) :: 64 word)"
    unfolding time_bytes[symmetric]
    by (simp add: r generate_uuidv7_def uuid_set_version_def Let_def)
qed

lemma word_of_time:
  assumes "take 6 uuid = be_bytes 6 (word_of_int ms :: 64 word)" "0 \<le> ms" "ms < 2 ^ 48"
  shows "byte_at uuid 5 + push_bit 8 (byte_at uuid 4) + push_bit 16 (byte_at uuid 3)
    + push_bit 24 (byte_at uuid 2) + push_bit 32 (byte_at uuid 1) + push_bit 40 (byte_at uuid 0)
    = word_of_int ms"
proof -
  have "length (take 6 uuid) = 6" unfolding assms(1) by simp
  then have "6 \<le> length uuid" by simp
  then have "take 6 uuid = [uuid ! 0, uuid ! 1, uuid ! 2, uuid ! 3, uuid ! 4, uuid ! 5]"
    by (intro nth_equalityI) (auto simp: less_Suc_eq numeral_eq_Suc)
  then have "be_nat [uuid ! 0, uuid ! 1, uuid ! 2, uuid ! 3, uuid ! 4, uuid ! 5] = nat ms"
    using be_nat_time[OF assms(2,3)] assms(1) by metis
  then have "word_of_nat (be_nat [uuid ! 0, uuid ! 1, uuid ! 2, uuid ! 3, uuid ! 4, uuid ! 5]) =
    (word_of_int ms :: 64 word)" using assms(2) by simp
  then show ?thesis by (simp add: be_nat_Cons push_bit_eq_mult be_nat_def[of "[]"] algebra_simps)
qed

section \<open>Properties\<close>

text \<open>
  C7: with a clock of nanosecond precision, the UUIDs that a backend gets from \<open>uuidv7_\<close> are
  strictly increasing in the byte order that PostgreSQL compares UUIDs by, even if the clock stands
  still or goes back, if some calls fail for want of random bytes, and if \<open>uuidv7_interval_\<close> is
  called in between.  The condition is that time stays in \<open>int64\<close>: the clock has never read more
  than \<open>m\<close> nanoseconds since 1970, and \<open>m\<close> plus 245 nanoseconds for each call is below
  \<open>2 ^ 63\<close>, which holds until the year 2262.
\<close>

theorem uuids_increase:
  assumes "list_all random_ok calls" "list_all (clock_ok m) calls" "0 \<le> previous_ns" "previous_ns \<le> m"
    and "m + 245 * int (length calls) < 2 ^ 63"
  shows "sorted_wrt memcmp_less (fst (uuidv7_calls 12 calls previous_ns))"
  using assms
proof (induction calls arbitrary: previous_ns m)
  case (Cons call calls)
  define ns where "ns = get_real_time_ns_ascending 12 (call_clock call) previous_ns"
  have step: "previous_ns + 245 \<le> ns" "ns \<le> m + 245"
    using ascending_step[of m call previous_ns] Cons.prems by (simp_all add: ns_def)
  have later: "list_all (clock_ok (m + 245)) calls" "m + 245 + 245 * int (length calls) < 2 ^ 63"
    "list_all random_ok calls" "0 \<le> ns"
    using Cons.prems step by (auto simp: list_all_iff clock_ok_def Let_def)
  have "memcmp_less (generate_uuidv7 12 ns bytes) uuid"
    if "length bytes = 8" "uuid \<in> set (fst (uuidv7_calls 12 calls ns))" for bytes uuid
    using calls_generate[OF later(3,1,4) step(2) later(2) that(2)] uuid_increasing[OF that(1) _ later(4)]
    by (auto simp: NS_PER_MS_def)
  moreover have "sorted_wrt memcmp_less (fst (uuidv7_calls 12 calls ns))"
    by (rule Cons.IH[OF later(3,1,4) step(2) later(2)])
  ultimately show ?case
    using uuidv7_calls_Cons[of call calls previous_ns] Cons.prems(1) by (auto simp: ns_def)
qed simp

theorem uuids_increase_witness:
  "sorted_wrt memcmp_less
    (fst (uuidv7_calls 12 [Uuidv7 \<lparr>tv_sec = 1700000000, tv_nsec = 7\<rparr> (Some (replicate 8 255)),
       Uuidv7 \<lparr>tv_sec = 5, tv_nsec = 0\<rparr> None,
       Uuidv7_interval Inr \<lparr>tv_sec = 1700000000, tv_nsec = 9\<rparr> (Some (replicate 8 3)),
       Uuidv7 \<lparr>tv_sec = 1600000000, tv_nsec = 0\<rparr> (Some (replicate 8 0))] 0))"
  by (rule uuids_increase[of _ "1700000000 * 1000000000 + 9"])
    (simp_all add: clock_ok_def Let_def NS_PER_S_def)

text \<open>
  A generated UUID has version 7 and, whatever the precision of the clock, gives back through
  \<open>uuid_extract_timestamp\<close> the millisecond it was generated for, as microseconds since the
  epoch of PostgreSQL.
\<close>

theorem uuid_gives_back_time:
  assumes "length bytes = 8" "0 \<le> ns" "ns < 2 ^ 63"
  shows "length (generate_uuidv7 step_bits ns bytes) = 16 \<and>
    uuid_extract_version (generate_uuidv7 step_bits ns bytes) = Some 7 \<and>
    uuid_extract_timestamp (generate_uuidv7 step_bits ns bytes) =
      Some (ns div NS_PER_MS * 1000 - epoch_shift_us)"
proof (intro conjI)
  let ?u = "generate_uuidv7 step_bits ns bytes" and ?ms = "ns div NS_PER_MS"
  note b = extracted_bytes[OF assms(1,2), of step_bits]
  show "length ?u = 16"
    using assms(1) by (simp add: generate_uuidv7_def uuid_set_version_def Let_def)
  show "uuid_extract_version ?u = Some 7"
    unfolding uuid_extract_version_def using b(1,2) by simp
  have ms: "0 \<le> ?ms" "?ms < 2 ^ 48" using assms(2,3) by (auto simp: NS_PER_MS_def)
  have "word_of_int ?ms * 1000 - (2451545 - 2440588) * 86400 * 1000000 =
    (word_of_int (?ms * 1000 - epoch_shift_us) :: 64 word)"
    by (simp add: epoch_shift_us_def)
  moreover have "sint (word_of_int (?ms * 1000 - epoch_shift_us) :: 64 word) = ?ms * 1000 - epoch_shift_us"
    by (rule sint_of_int64) (use ms in \<open>simp_all add: epoch_shift_us_def\<close>)
  ultimately show "uuid_extract_timestamp ?u = Some (?ms * 1000 - epoch_shift_us)"
    unfolding uuid_extract_timestamp_def word_of_time[OF b(3) ms] b(2) using b(1)
    by (simp add: Let_def)
qed

theorem uuid_gives_back_time_witness:
  "uuid_extract_timestamp (generate_uuidv7 10 1700000000123456789 (replicate 8 170)) =
    Some (1700000000123000 - 946684800000000)"
  using uuid_gives_back_time[of "replicate 8 170" 1700000000123456789 10]
  by (simp add: NS_PER_MS_def epoch_shift_us_def)

end
