(* ===== verification/Omni_Ledger.thy ===== *)
theory Omni_Ledger
  imports Omni_Prelude
begin

text \<open>
  Double-entry bookkeeping: \<open>src/extensions/omni_ledger/omni_ledger.c\<close>.

  The triggers of the tables \<open>transfers\<close> and \<open>accounts\<close>, the per-backend cache of accounts with
  its invalidation, and the functions that list affected accounts.  \<open>ledger_state\<close> holds the
  static variables of the module in one backend, and the table \<open>account_balance_slots\<close> as the
  transaction sees it; \<open>pg_env\<close> is what PostgreSQL answers during a call.  The variable
  \<open>*invalidation\<close>, which all backends share, is read through \<open>pg_env\<close> and written by
  \<open>xact_callback\<close>.  Columns of type \<open>amount\<close> are integers with the range check of the domain
  written out; the in-flight balances are 64-bit words.
\<close>

section \<open>State\<close>

type_synonym pg_uuid_t = "byte list"

definition ACCOUNT_DEBITS_ALLOWED_TO_EXCEED_CREDITS :: "64 word" where
  "ACCOUNT_DEBITS_ALLOWED_TO_EXCEED_CREDITS = 1"
definition ACCOUNT_CREDITS_ALLOWED_TO_EXCEED_DEBITS :: "64 word" where
  "ACCOUNT_CREDITS_ALLOWED_TO_EXCEED_DEBITS = 2"
definition ACCOUNT_CLOSED :: "64 word" where
  "ACCOUNT_CLOSED = 128"
definition ACCOUNT_INVALID :: "64 word" where
  "ACCOUNT_INVALID = 0"

lemmas account_flag_defs = ACCOUNT_DEBITS_ALLOWED_TO_EXCEED_CREDITS_def
  ACCOUNT_CREDITS_ALLOWED_TO_EXCEED_DEBITS_def ACCOUNT_CLOSED_def ACCOUNT_INVALID_def

text \<open>An entry of the cache; the key is \<open>account_id\<close>.\<close>

record Account =
  ledger_id :: pg_uuid_t
  flags :: "64 word"
  txid :: TransactionId

record Balance =
  credited :: "64 word"
  debited :: "64 word"

text \<open>A row of the table \<open>accounts\<close>, and a row to insert into \<open>transfers\<close>.\<close>

record account_row =
  row_id :: pg_uuid_t
  row_ledger_id :: pg_uuid_t
  debits_allowed_to_exceed_credits :: bool
  credits_allowed_to_exceed_debits :: bool
  closed :: bool

record transfer =
  debit_account_id :: pg_uuid_t
  credit_account_id :: pg_uuid_t
  amount :: "64 word"

text \<open>The rows of \<open>account_balance_slots\<close>: by account and slot, what is debited and credited.\<close>

type_synonym slots = "(pg_uuid_t \<times> int, int \<times> int) htab"

record ledger_state =
  accounts :: "(pg_uuid_t, Account) htab option"
  invalidation_announcement_pending :: bool
  observed_invalidation_announcement_at :: TransactionId
  balances :: "(pg_uuid_t, Balance) htab option"
  last_command_id :: "32 word"
  last_transaction_id :: TransactionId
  account_balance_slots :: slots

text \<open>\<open>uninitialised\<close> is what a new entry of the cache holds before it is filled.\<close>

record pg_env =
  snapshot_xmin :: TransactionId
  xid_if_any :: TransactionId
  current_xid :: TransactionId
  command_id :: "32 word"
  serializable :: bool
  MyProcNumber :: int
  invalidation :: TransactionId
  accounts_rel :: "pg_uuid_t \<Rightarrow> account_row option"
  uninitialised :: Account
  TransactionIdPrecedes :: "TransactionId \<Rightarrow> TransactionId \<Rightarrow> bool"
  TransactionIdFollowsOrEquals :: "TransactionId \<Rightarrow> TransactionId \<Rightarrow> bool"

type_synonym 'a ledger_action = "(ledger_state, 'a) state_action"

section \<open>The cache of accounts\<close>

definition init_invalidation :: "bool \<Rightarrow> TransactionId \<Rightarrow> TransactionId" where
  "init_invalidation allocated ptr = (if allocated then InvalidTransactionId else ptr)"

definition Omni_init :: "ledger_state \<Rightarrow> ledger_state" where
  "Omni_init st = st \<lparr> accounts := Some [] \<rparr>"

definition xact_callback ::
  "pg_env \<Rightarrow> XactEvent \<Rightarrow> ledger_state \<Rightarrow> TransactionId \<Rightarrow> ledger_state \<times> TransactionId" where
  "xact_callback env event st shared =
     (if event \<in> {XACT_EVENT_COMMIT, XACT_EVENT_PARALLEL_COMMIT, XACT_EVENT_ABORT,
                  XACT_EVENT_PARALLEL_ABORT}
      then
        (if invalidation_announcement_pending st
         then (st \<lparr> observed_invalidation_announcement_at := InvalidTransactionId,
                    invalidation_announcement_pending := False \<rparr>, current_xid env)
         else (st \<lparr> invalidation_announcement_pending := False \<rparr>, shared))
      else (st, shared))"

definition invalidated :: "pg_env \<Rightarrow> ledger_state \<Rightarrow> bool \<times> ledger_state" where
  "invalidated env st =
     (if invalidation_announcement_pending st then (True, st)
      else
        (let current = snapshot_xmin env in
         if current = InvalidTransactionId \<or>
            observed_invalidation_announcement_at st \<noteq> InvalidTransactionId \<and>
            TransactionIdFollowsOrEquals env current (observed_invalidation_announcement_at st)
         then (False, st)
         else (TransactionIdPrecedes env (invalidation env) current,
               st \<lparr> observed_invalidation_announcement_at := current \<rparr>)))"

definition account_flags :: "account_row \<Rightarrow> 64 word" where
  "account_flags row =
     (if debits_allowed_to_exceed_credits row then ACCOUNT_DEBITS_ALLOWED_TO_EXCEED_CREDITS else 0)
     OR (if credits_allowed_to_exceed_debits row then ACCOUNT_CREDITS_ALLOWED_TO_EXCEED_DEBITS else 0)
     OR (if closed row then ACCOUNT_CLOSED else 0)"

text \<open>What \<open>find_account\<close> fills a new entry of the cache with.\<close>

definition load_account :: "pg_env \<Rightarrow> pg_uuid_t \<Rightarrow> Account" where
  "load_account env acct =
     (case accounts_rel env acct of
        Some row \<Rightarrow> (uninitialised env) \<lparr> ledger_id := row_ledger_id row,
          flags := account_flags row, txid := xid_if_any env \<rparr>
      | None \<Rightarrow> (uninitialised env) \<lparr> flags := ACCOUNT_INVALID \<rparr>)"

definition find_account :: "pg_env \<Rightarrow> pg_uuid_t \<Rightarrow> Account ledger_action" where
  "find_account env acct st =
     (case accounts st of
        None \<Rightarrow> (Inl (Crash ''hash_search of a null table''), st)
      | Some cached \<Rightarrow>
          (let (fresh, st) = invalidated env st;
               tab = (if fresh then hash_seq_update (\<lambda>_ _. None) cached else cached)
           in case hash_find tab acct of
                Some acc \<Rightarrow> (Inr acc, st \<lparr> accounts := Some tab \<rparr>)
              | None \<Rightarrow>
                  (let acc = load_account env acct
                   in (Inr acc, st \<lparr> accounts := Some (hash_enter acct acc tab) \<rparr>))))"

section \<open>The triggers on transfers\<close>

text \<open>How a trigger function is called.\<close>

datatype 'row trigger =
    NotTrigger
  | RowInsert 'row
  | RowUpdate 'row 'row
  | RowDelete 'row
  | StatementInsert

definition balance_of :: "(pg_uuid_t, Balance) htab \<Rightarrow> pg_uuid_t \<Rightarrow> Balance" where
  "balance_of tab acct =
     (case hash_find tab acct of Some bal \<Rightarrow> bal | None \<Rightarrow> \<lparr> credited = 0, debited = 0 \<rparr>)"

definition add_debit :: "pg_uuid_t \<Rightarrow> 64 word \<Rightarrow> (pg_uuid_t, Balance) htab \<Rightarrow> (pg_uuid_t, Balance) htab" where
  "add_debit acct x tab =
     hash_enter acct ((balance_of tab acct) \<lparr> debited := debited (balance_of tab acct) + x \<rparr>) tab"

definition add_credit :: "pg_uuid_t \<Rightarrow> 64 word \<Rightarrow> (pg_uuid_t, Balance) htab \<Rightarrow> (pg_uuid_t, Balance) htab" where
  "add_credit acct x tab =
     hash_enter acct ((balance_of tab acct) \<lparr> credited := credited (balance_of tab acct) + x \<rparr>) tab"

text \<open>The in-flight balances are kept as long as the transaction and the command stay the same.\<close>

definition current_balances :: "pg_env \<Rightarrow> ledger_state \<Rightarrow> ledger_state" where
  "current_balances env st =
     (if xid_if_any env \<noteq> last_transaction_id st \<or> last_command_id st \<noteq> command_id env \<or>
         balances st = None
      then st \<lparr> balances := Some [], last_command_id := command_id env,
                last_transaction_id := xid_if_any env \<rparr>
      else st)"

definition is_closed :: "Account \<Rightarrow> bool" where
  "is_closed acc \<longleftrightarrow> flags acc AND ACCOUNT_CLOSED = ACCOUNT_CLOSED"

definition tally :: "transfer \<Rightarrow> ledger_state \<Rightarrow> ledger_state" where
  "tally tr st = st \<lparr> balances := map_option
     (add_credit (credit_account_id tr) (amount tr) \<circ> add_debit (debit_account_id tr) (amount tr))
     (balances st) \<rparr>"

definition calculate_account_balances :: "pg_env \<Rightarrow> transfer trigger \<Rightarrow> unit ledger_action" where
  "calculate_account_balances env trig st =
     (if accounts st = None
      then (elog_error ''omni extension is required for omni_ledger'', st)
      else
        (let st = current_balances env st in
         case trig of
           NotTrigger \<Rightarrow> (elog_error ''must be called as a trigger'', st)
         | RowInsert tr \<Rightarrow>
             if debit_account_id tr = credit_account_id tr
             then (elog_error ''can't transfer from and to the same account'', st)
             else
               bind_action (find_account env (debit_account_id tr)) (\<lambda>acc.
                 if is_closed acc
                 then fail_action (Ereport ERRCODE_INTERNAL_ERROR ''can't transfer from a closed account'')
                 else bind_action (find_account env (credit_account_id tr)) (\<lambda>acc.
                   if is_closed acc
                   then fail_action (Ereport ERRCODE_INTERNAL_ERROR ''can't transfer to a closed account'')
                   else (\<lambda>st. (Inr (), tally tr st)))) st
         | StatementInsert \<Rightarrow> (Inl (Crash ''heap_getattr of a null tuple''), st)
         | _ \<Rightarrow> (Inr (), st)))"

text \<open>
  The statements that \<open>update_account_balances\<close> prepares.  Values of the domain \<open>amount\<close> are
  checked, additions and the sums leave through an error outside of \<open>bigint\<close>.  The query of
  \<open>check_debit_plan\<close> reads the slots as they were before its \<open>insert\<close>.
\<close>

definition slot_sums :: "slots \<Rightarrow> pg_uuid_t \<Rightarrow> int \<times> int" where
  "slot_sums t acct =
     (let rows = filter (\<lambda>((a, _), _). a = acct) t
      in (sum_list (map (fst \<circ> snd) rows), sum_list (map (snd \<circ> snd) rows)))"

definition out_of_range :: pg_error where
  "out_of_range = Ereport ERRCODE_OTHER ''bigint out of range''"

definition select_sums :: "pg_uuid_t \<Rightarrow> (64 word \<times> 64 word) ledger_action" where
  "select_sums acct st =
     (let (d, c) = slot_sums (account_balance_slots st) acct in
      if d \<ge> 2 ^ 63 \<or> c \<ge> 2 ^ 63 then (Inl out_of_range, st)
      else (Inr (word_of_int d, word_of_int c), st))"

definition insert_slot :: "pg_env \<Rightarrow> pg_uuid_t \<Rightarrow> int \<Rightarrow> int \<Rightarrow> unit ledger_action" where
  "insert_slot env acct c d st =
     (let t = account_balance_slots st; key = (acct, MyProcNumber env) in
      if c < 0 \<or> d < 0
      then (Inl (Ereport ERRCODE_OTHER ''value for domain amount violates check constraint''), st)
      else
        case hash_find t key of
          None \<Rightarrow>
            if accounts_rel env acct = None
            then (Inl (Ereport ERRCODE_OTHER ''violates foreign key constraint''), st)
            else (Inr (), st \<lparr> account_balance_slots := hash_enter key (d, c) t \<rparr>)
        | Some (d0, c0) \<Rightarrow>
            if d + d0 \<ge> 2 ^ 63 \<or> c + c0 \<ge> 2 ^ 63 then (Inl out_of_range, st)
            else (Inr (), st \<lparr> account_balance_slots := hash_enter key (d + d0, c + c0) t \<rparr>))"

definition set_txid :: "pg_env \<Rightarrow> pg_uuid_t \<Rightarrow> Account \<Rightarrow> unit ledger_action" where
  "set_txid env acct acc st =
     (Inr (), st \<lparr> accounts := map_option (hash_enter acct (acc \<lparr> txid := current_xid env \<rparr>)) (accounts st) \<rparr>)"

definition check_limits :: "Account \<Rightarrow> 64 word \<Rightarrow> 64 word \<Rightarrow> unit ledger_action" where
  "check_limits acc debs creds =
     (if creds <s debs \<and> flags acc AND ACCOUNT_DEBITS_ALLOWED_TO_EXCEED_CREDITS = 0
      then fail_action (Ereport ERRCODE_INTERNAL_ERROR ''debit exceeds credit'')
      else if debs <s creds \<and> flags acc AND ACCOUNT_CREDITS_ALLOWED_TO_EXCEED_DEBITS = 0
      then fail_action (Ereport ERRCODE_INTERNAL_ERROR ''credit exceeds debit'')
      else return_action ())"

text \<open>The body of the loop over the in-flight balances.\<close>

definition post_balance :: "pg_env \<Rightarrow> pg_uuid_t \<times> Balance \<Rightarrow> unit ledger_action" where
  "post_balance env = (\<lambda>(acct, bal).
     bind_action (find_account env acct) (\<lambda>acc.
     bind_action (set_txid env acct acc) (\<lambda>_.
       (let need_to_check =
          debited bal > 0 \<and> flags acc AND ACCOUNT_DEBITS_ALLOWED_TO_EXCEED_CREDITS = 0 \<or>
          credited bal > 0 \<and> flags acc AND ACCOUNT_CREDITS_ALLOWED_TO_EXCEED_DEBITS = 0
        in if need_to_check
           then
             bind_action (select_sums acct) (\<lambda>(d, c).
             bind_action (insert_slot env acct (sint (credited bal)) (sint (debited bal))) (\<lambda>_.
               check_limits acc (d + debited bal) (c + credited bal)))
           else insert_slot env acct (sint (credited bal)) (sint (debited bal))))))"

definition update_account_balances :: "pg_env \<Rightarrow> transfer trigger \<Rightarrow> unit ledger_action" where
  "update_account_balances env trig st =
     (if \<not> serializable env
      then (elog_error ''Ledger transfers must be done in a serializable transaction'', st)
      else
        case trig of
          NotTrigger \<Rightarrow> (elog_error ''must be called as a trigger'', st)
        | StatementInsert \<Rightarrow>
            (case balances st of
               None \<Rightarrow> (Inl (Crash ''hash_seq_init of a null table''), st)
             | Some tab \<Rightarrow>
                 bind_action (for_each (post_balance env) tab)
                   (\<lambda>_ st. (Inr (), st \<lparr> balances := None \<rparr>)) st)
        | _ \<Rightarrow> (Inr (), st))"

section \<open>The trigger on accounts and the lists of affected accounts\<close>

definition deny_operation_on_accounts ::
  "pg_env \<Rightarrow> account_row trigger \<Rightarrow> account_row option ledger_action" where
  "deny_operation_on_accounts env trig st =
     (case trig of
        NotTrigger \<Rightarrow> (elog_error ''must be called as a trigger'', st)
      | RowInsert _ \<Rightarrow> (Inr None, st)
      | StatementInsert \<Rightarrow> (Inr None, st)
      | RowUpdate old new \<Rightarrow>
          if \<not> serializable env
          then (elog_error ''account closure must be done in a serializable transaction'', st)
          else
            (let fl = (ucast (account_flags old) :: byte); new_fl = ucast (account_flags new) in
             if row_ledger_id old = row_ledger_id new \<and> fl \<noteq> new_fl \<and> fl OR ucast ACCOUNT_CLOSED = new_fl
             then (Inr (Some new), st \<lparr> invalidation_announcement_pending := True \<rparr>)
             else (elog_error ''Accounts are immutable with the exception of closure'', st))
      | RowDelete _ \<Rightarrow>
          if \<not> serializable env
          then (elog_error ''account closure must be done in a serializable transaction'', st)
          else (Inl (Crash ''heap_getattr of a null tuple''), st))"

definition transaction_affected_accounts :: "pg_env \<Rightarrow> ledger_state \<Rightarrow> (pg_uuid_t \<times> pg_uuid_t) list" where
  "transaction_affected_accounts env st =
     (case accounts st of
        None \<Rightarrow> []
      | Some tab \<Rightarrow>
          if xid_if_any env = InvalidTransactionId then []
          else map (\<lambda>(acct, acc). (acct, ledger_id acc)) (filter (\<lambda>(_, acc). txid acc \<noteq> xid_if_any env) tab))"

fun list_affected :: "pg_env \<Rightarrow> pg_uuid_t list \<Rightarrow> (pg_uuid_t \<times> pg_uuid_t) list ledger_action" where
  "list_affected env [] = return_action []"
| "list_affected env (acct # accts) =
     bind_action (find_account env acct) (\<lambda>acc.
     bind_action (list_affected env accts) (\<lambda>rest.
       return_action (if txid acc = xid_if_any env then rest else (acct, ledger_id acc) # rest)))"

definition statement_affected_accounts :: "pg_env \<Rightarrow> (pg_uuid_t \<times> pg_uuid_t) list ledger_action" where
  "statement_affected_accounts env st =
     (case balances st of
        None \<Rightarrow> (Inr [], st)
      | Some tab \<Rightarrow>
          if xid_if_any env = InvalidTransactionId then (Inr [], st)
          else list_affected env (map fst tab) st)"

section \<open>A statement that inserts transfers\<close>

text \<open>
  PostgreSQL runs the row trigger for every row and the statement trigger after them.  The command id
  and the snapshot may differ from row to row.
\<close>

definition insert_transfers ::
  "pg_env \<Rightarrow> (pg_env \<times> transfer) list \<Rightarrow> unit ledger_action" where
  "insert_transfers env rows =
     bind_action (for_each (\<lambda>(e, tr). calculate_account_balances e (RowInsert tr)) rows)
       (\<lambda>_. update_account_balances env StatementInsert)"

section \<open>Lemmas on the cache\<close>

text \<open>The flags of an account in the table, and a cache that agrees with it.\<close>

definition flags_in :: "pg_env \<Rightarrow> pg_uuid_t \<Rightarrow> 64 word" where
  "flags_in env acct =
     (case accounts_rel env acct of Some row \<Rightarrow> account_flags row | None \<Rightarrow> ACCOUNT_INVALID)"

definition cache_ok :: "pg_env \<Rightarrow> ledger_state \<Rightarrow> bool" where
  "cache_ok env st \<longleftrightarrow>
     (case accounts st of None \<Rightarrow> True
      | Some tab \<Rightarrow> \<forall>acct acc. hash_find tab acct = Some acc \<longrightarrow> flags acc = flags_in env acct)"

text \<open>What \<open>find_account\<close> leaves alone.\<close>

definition same_books :: "ledger_state \<Rightarrow> ledger_state \<Rightarrow> bool" where
  "same_books st st' \<longleftrightarrow> balances st' = balances st \<and> last_command_id st' = last_command_id st \<and>
     last_transaction_id st' = last_transaction_id st \<and>
     account_balance_slots st' = account_balance_slots st \<and>
     (accounts st' = None \<longleftrightarrow> accounts st = None)"

lemma hash_clear: "hash_seq_update (\<lambda>_ _. None) t = []"
  by (induction t) (auto simp: hash_seq_update_Cons)

lemma flags_load_account: "flags (load_account env acct) = flags_in env acct"
  by (simp add: load_account_def flags_in_def split: option.split)

lemma invalidated_frame:
  assumes "invalidated env st = (fresh, st')"
  shows "same_books st st'" "accounts st' = accounts st"
  using assms by (auto simp: invalidated_def same_books_def Let_def split: if_splits)

lemma find_account_eq:
  assumes "accounts st = Some tab" "invalidated env st = (fresh, st1)"
    and "t = (if fresh then [] else tab)"
  shows "find_account env acct st =
    (Inr (case hash_find t acct of Some a \<Rightarrow> a | None \<Rightarrow> load_account env acct),
     st1 \<lparr> accounts := Some (case hash_find t acct of
       Some _ \<Rightarrow> t | None \<Rightarrow> hash_enter acct (load_account env acct) t) \<rparr>)"
  using assms
  by (cases fresh; cases "hash_find t acct") (simp_all add: find_account_def hash_clear Let_def)

lemma find_account_frame:
  assumes "find_account env acct st = (Inr acc, st')"
  shows "same_books st st' \<and> accounts st' \<noteq> None"
proof (cases "accounts st")
  case None
  then show ?thesis using assms by (simp add: find_account_def)
next
  case (Some tab)
  obtain fresh st1 where i: "invalidated env st = (fresh, st1)" by force
  show ?thesis
    using invalidated_frame(1)[OF i] assms unfolding find_account_eq[OF Some i refl]
    by (auto simp: same_books_def Some)
qed

lemma find_account_flags:
  assumes "find_account env acct st = (Inr acc, st')" "cache_ok env st"
  shows "flags acc = flags_in env acct \<and> cache_ok env st'"
proof (cases "accounts st")
  case None
  then show ?thesis using assms by (simp add: find_account_def)
next
  case (Some tab)
  obtain fresh st1 where i: "invalidated env st = (fresh, st1)" by force
  define t where "t = (if fresh then [] else tab)"
  have t: "flags x = flags_in env a" if "hash_find t a = Some x" for a x
    using that assms(2) by (auto simp: t_def Some cache_ok_def htab_simps split: if_splits)
  note e = assms(1)[unfolded find_account_eq[OF Some i t_def]]
  show ?thesis
  proof (cases "hash_find t acct")
    case None
    with e have "acc = load_account env acct"
      "accounts st' = Some (hash_enter acct (load_account env acct) t)" by auto
    with t show ?thesis by (simp add: cache_ok_def htab_simps flags_load_account)
  next
    case (Some a)
    with e have "acc = a" "accounts st' = Some t" by auto
    with t Some show ?thesis by (simp add: cache_ok_def)
  qed
qed

lemma find_account_total:
  assumes "accounts st \<noteq> None"
  shows "\<exists>acc st'. find_account env acct st = (Inr acc, st')"
proof -
  obtain tab where "accounts st = Some tab" using assms by auto
  moreover obtain fresh st1 where "invalidated env st = (fresh, st1)" by force
  ultimately show ?thesis using find_account_eq[OF _ _ refl] by blast
qed

lemma cache_ok_books:
  "accounts st' = accounts st \<Longrightarrow> cache_ok env st' = cache_ok env st"
  by (simp add: cache_ok_def)

section \<open>Lemmas on the triggers\<close>

definition may_transfer :: "pg_env \<Rightarrow> pg_uuid_t \<Rightarrow> bool" where
  "may_transfer env acct \<longleftrightarrow> flags_in env acct AND ACCOUNT_CLOSED \<noteq> ACCOUNT_CLOSED"

lemma same_books_trans: "same_books a b \<Longrightarrow> same_books b c \<Longrightarrow> same_books a c"
  by (simp add: same_books_def)

lemma same_books_tally: "same_books a b \<Longrightarrow> same_books (tally tr a) (tally tr b)"
  by (simp add: same_books_def tally_def)

lemma cache_ok_current: "cache_ok env (current_balances env' st) = cache_ok env st"
  by (rule cache_ok_books) (simp add: current_balances_def)

lemma cache_ok_tally: "cache_ok env (tally tr st) = cache_ok env st"
  by (rule cache_ok_books) (simp add: tally_def)

lemma calculate_ok:
  assumes "calculate_account_balances env (RowInsert tr) st = (Inr (), st')"
  shows "debit_account_id tr \<noteq> credit_account_id tr"
    and "same_books (tally tr (current_balances env st)) st'"
    and "accounts st' \<noteq> None"
    and "cache_ok env st \<Longrightarrow> cache_ok env st' \<and> may_transfer env (debit_account_id tr) \<and>
      may_transfer env (credit_account_id tr)"
proof -
  let ?st = "current_balances env st"
  have ne: "debit_account_id tr \<noteq> credit_account_id tr"
    using assms by (auto simp: calculate_account_balances_def Let_def split: if_splits)
  obtain acc1 st1 acc2 st2 where
    f1: "find_account env (debit_account_id tr) ?st = (Inr acc1, st1)" "\<not> is_closed acc1"
    and f2: "find_account env (credit_account_id tr) st1 = (Inr acc2, st2)" "\<not> is_closed acc2"
    and st': "st' = tally tr st2"
    using assms ne
    by (auto simp: calculate_account_balances_def Let_def bind_action_Inr fail_action_def split: if_splits)
  note b1 = find_account_frame[OF f1(1)] and b2 = find_account_frame[OF f2(1)]
  show "debit_account_id tr \<noteq> credit_account_id tr" by (rule ne)
  show "same_books (tally tr ?st) st'"
    unfolding st' using b1 b2 by (blast intro: same_books_tally same_books_trans)
  show "accounts st' \<noteq> None" using b2 by (simp add: st' tally_def)
  assume "cache_ok env st"
  then have "cache_ok env ?st" by (simp add: cache_ok_current)
  with find_account_flags[OF f1(1)] find_account_flags[OF f2(1)] f1(2) f2(2)
  show "cache_ok env st' \<and> may_transfer env (debit_account_id tr) \<and> may_transfer env (credit_account_id tr)"
    by (simp add: st' cache_ok_tally may_transfer_def is_closed_def)
qed

text \<open>What a list of transfers debits from and credits to an account, modulo \<open>2 ^ 64\<close>.\<close>

definition word_debits :: "transfer list \<Rightarrow> pg_uuid_t \<Rightarrow> 64 word" where
  "word_debits trs acct = sum_list (map amount (filter (\<lambda>tr. debit_account_id tr = acct) trs))"

definition word_credits :: "transfer list \<Rightarrow> pg_uuid_t \<Rightarrow> 64 word" where
  "word_credits trs acct = sum_list (map amount (filter (\<lambda>tr. credit_account_id tr = acct) trs))"

text \<open>The table of in-flight balances after these transfers.\<close>

definition tallied :: "transfer list \<Rightarrow> (pg_uuid_t, Balance) htab \<Rightarrow> bool" where
  "tallied trs tab \<longleftrightarrow> hash_wf tab \<and>
     fst ` set tab = debit_account_id ` set trs \<union> credit_account_id ` set trs \<and>
     (\<forall>acct. debited (balance_of tab acct) = word_debits trs acct \<and>
             credited (balance_of tab acct) = word_credits trs acct)"

lemma tallied_Nil: "tallied [] []"
  by (simp add: tallied_def htab_simps word_debits_def word_credits_def balance_of_def)

lemma balance_of_enter: "balance_of (hash_enter k v t) a = (if a = k then v else balance_of t a)"
  by (simp add: balance_of_def htab_simps)

lemma tallied_step:
  assumes "tallied trs tab" "debit_account_id tr \<noteq> credit_account_id tr"
  shows "tallied (trs @ [tr])
    (add_credit (credit_account_id tr) (amount tr) (add_debit (debit_account_id tr) (amount tr) tab))"
  using assms
  by (auto simp: tallied_def htab_simps add_credit_def add_debit_def balance_of_enter word_debits_def
      word_credits_def keys_hash_enter)

text \<open>
  The rows that are still tallied when the statement trigger runs: the last ones, as far as their
  triggers ran with the transaction and the command of the last.
\<close>

definition same_command :: "pg_env \<Rightarrow> pg_env \<Rightarrow> bool" where
  "same_command e e' \<longleftrightarrow> xid_if_any e = xid_if_any e' \<and> command_id e = command_id e'"

definition last_run :: "(pg_env \<times> transfer) list \<Rightarrow> (pg_env \<times> transfer) list" where
  "last_run rows = rev (takeWhile (\<lambda>r. same_command (fst r) (fst (last rows))) (rev rows))"

lemma last_run_snoc:
  "last_run (rows @ [r]) =
    (if rows \<noteq> [] \<and> same_command (fst (last rows)) (fst r) then last_run rows @ [r] else [r])"
proof (cases rows rule: rev_cases)
  case Nil
  then show ?thesis by (simp add: last_run_def same_command_def)
next
  case (snoc qs q)
  then show ?thesis
    by (auto simp: last_run_def same_command_def)
qed

lemma last_run_all:
  "list_all (\<lambda>r. same_command (fst r) (fst (last rows))) rows \<Longrightarrow> last_run rows = rows"
  by (simp add: last_run_def list_all_iff takeWhile_eq_all_conv[THEN iffD2])

abbreviation row_triggers :: "(pg_env \<times> transfer) list \<Rightarrow> unit ledger_action" where
  "row_triggers \<equiv> for_each (\<lambda>(e, tr). calculate_account_balances e (RowInsert tr))"

lemma rows_tallied:
  assumes "row_triggers rows st = (Inr (), st')" "rows \<noteq> []" "balances st = None"
  shows "\<exists>tab. balances st' = Some tab \<and> tallied (map snd (last_run rows)) tab \<and>
    last_transaction_id st' = xid_if_any (fst (last rows)) \<and>
    last_command_id st' = command_id (fst (last rows)) \<and>
    account_balance_slots st' = account_balance_slots st \<and> accounts st' \<noteq> None"
  using assms
proof (induction rows arbitrary: st' rule: rev_induct)
  case (snoc r rows)
  obtain e tr where r: "r = (e, tr)" by force
  obtain st1 where st1: "row_triggers rows st = (Inr (), st1)"
    "calculate_account_balances e (RowInsert tr) st1 = (Inr (), st')"
    using snoc.prems(1) by (auto simp: r for_each_append bind_action_Inr return_action_def)
  define trs where "trs = (if rows \<noteq> [] \<and> same_command (fst (last rows)) e
    then map snd (last_run rows) else [])"
  have "\<exists>tab. balances (current_balances e st1) = Some tab \<and> tallied trs tab \<and>
      account_balance_slots st1 = account_balance_slots st"
  proof (cases "rows = []")
    case True
    then have "st1 = st" using st1(1) by (simp add: return_action_def)
    then show ?thesis using True snoc.prems(3)
      by (simp add: current_balances_def trs_def tallied_Nil)
  next
    case False
    then obtain tab where "balances st1 = Some tab" "tallied (map snd (last_run rows)) tab"
      "last_transaction_id st1 = xid_if_any (fst (last rows))"
      "last_command_id st1 = command_id (fst (last rows))"
      "account_balance_slots st1 = account_balance_slots st"
      using snoc.IH[OF st1(1) _ snoc.prems(3)] by blast
    then show ?thesis using False
      by (auto simp: current_balances_def trs_def same_command_def tallied_Nil)
  qed
  then obtain tab where tab: "balances (current_balances e st1) = Some tab" "tallied trs tab"
    "account_balance_slots st1 = account_balance_slots st" by blast
  note c = calculate_ok[OF st1(2)]
  have "map snd (last_run (rows @ [r])) = trs @ [tr]" by (simp add: last_run_snoc trs_def r)
  moreover have "balances st' = Some (add_credit (credit_account_id tr) (amount tr)
      (add_debit (debit_account_id tr) (amount tr) tab))"
    using c(2) tab(1) by (simp add: same_books_def tally_def)
  moreover have "last_transaction_id st' = xid_if_any e" "last_command_id st' = command_id e"
    "account_balance_slots st' = account_balance_slots st"
    using c(2) tab(3) by (auto simp: same_books_def tally_def current_balances_def split: if_splits)
  ultimately show ?case using c(3) tallied_step[OF tab(2) c(1)] by (simp add: r)
qed simp

lemma cache_ok_rel: "accounts_rel e = accounts_rel env \<Longrightarrow> cache_ok e st = cache_ok env st"
  by (simp add: cache_ok_def flags_in_def split: option.split)

lemma rows_flags:
  assumes "row_triggers rows st = (Inr (), st')" "cache_ok env st"
    and "list_all (\<lambda>(e, _). accounts_rel e = accounts_rel env) rows"
  shows "cache_ok env st' \<and>
    list_all (\<lambda>(_, tr). may_transfer env (debit_account_id tr) \<and> may_transfer env (credit_account_id tr) \<and>
      debit_account_id tr \<noteq> credit_account_id tr) rows"
  using assms
proof (induction rows arbitrary: st)
  case (Cons r rows)
  obtain e tr where r: "r = (e, tr)" by force
  then have rel: "accounts_rel e = accounts_rel env" using Cons.prems(3) by simp
  then have may: "may_transfer e a = may_transfer env a" for a by (simp add: may_transfer_def flags_in_def)
  obtain st1 where st1: "calculate_account_balances e (RowInsert tr) st = (Inr (), st1)"
    "row_triggers rows st1 = (Inr (), st')"
    using Cons.prems(1) by (auto simp: r bind_action_Inr)
  have "cache_ok e st" using Cons.prems(2) cache_ok_rel[OF rel] by simp
  with calculate_ok(1,4)[OF st1(1)] Cons.IH[OF st1(2)] Cons.prems(3) show ?case
    by (simp add: r cache_ok_rel[OF rel] may)
qed (simp add: return_action_def)

section \<open>Lemmas on posting\<close>

definition debits_of :: "slots \<Rightarrow> pg_uuid_t \<Rightarrow> int" where "debits_of t acct = fst (slot_sums t acct)"
definition credits_of :: "slots \<Rightarrow> pg_uuid_t \<Rightarrow> int" where "credits_of t acct = snd (slot_sums t acct)"

text \<open>The rows of the table: one per account and slot, with amounts in the domain.\<close>

definition books_ok :: "slots \<Rightarrow> bool" where
  "books_ok t \<longleftrightarrow> hash_wf t \<and> list_all (\<lambda>(_, d, c). 0 \<le> d \<and> 0 \<le> c) t"

lemma sum_list_update:
  fixes g :: "'k \<times> 'v \<Rightarrow> int"
  shows "sum_list (map g (hash_enter k v t)) =
    sum_list (map g t) + g (k, v) - (case hash_find t k of None \<Rightarrow> 0 | Some w \<Rightarrow> g (k, w))"
  unfolding hash_enter_def hash_find_def by (induction t) auto

lemma debits_of_enter:
  "debits_of (hash_enter (acct, n) (d, c) t) a = debits_of t a + (if a = acct then
     d - (case hash_find t (acct, n) of None \<Rightarrow> 0 | Some (d0, _) \<Rightarrow> d0) else 0)"
  by (auto simp: debits_of_def slot_sums_def Let_def sum_list_map_filter' sum_list_update
      split: option.split)

lemma credits_of_enter:
  "credits_of (hash_enter (acct, n) (d, c) t) a = credits_of t a + (if a = acct then
     c - (case hash_find t (acct, n) of None \<Rightarrow> 0 | Some (_, c0) \<Rightarrow> c0) else 0)"
  by (auto simp: credits_of_def slot_sums_def Let_def sum_list_map_filter' sum_list_update
      split: option.split)

lemma books_ok_enter:
  "books_ok t \<Longrightarrow> 0 \<le> d \<Longrightarrow> 0 \<le> c \<Longrightarrow> books_ok (hash_enter k (d, c) t)"
  using set_hash_enter[of k "(d, c)" t]
  by (auto simp: books_ok_def htab_simps list_all_iff)

lemma books_ok_find: "books_ok t \<Longrightarrow> hash_find t k = Some (d, c) \<Longrightarrow> 0 \<le> d \<and> 0 \<le> c"
  by (auto simp: books_ok_def list_all_iff hash_find_def dest!: map_of_SomeD)

lemma books_ok_sums:
  assumes "books_ok t"
  shows "0 \<le> debits_of t a" "0 \<le> credits_of t a"
  using assms
  by (auto simp: debits_of_def credits_of_def slot_sums_def Let_def books_ok_def list_all_iff
      intro!: sum_list_nonneg) force+

text \<open>A posting adds the two amounts to the account and changes nothing else in the books.\<close>

definition posted :: "pg_uuid_t \<Rightarrow> int \<Rightarrow> int \<Rightarrow> slots \<Rightarrow> slots \<Rightarrow> bool" where
  "posted acct d c t t' \<longleftrightarrow> books_ok t' \<and>
     (\<forall>a. debits_of t' a = debits_of t a + (if a = acct then d else 0) \<and>
          credits_of t' a = credits_of t a + (if a = acct then c else 0))"

lemma insert_slot_ok:
  assumes "insert_slot env acct c d st = (Inr (), st')" "books_ok (account_balance_slots st)"
  shows "posted acct d c (account_balance_slots st) (account_balance_slots st') \<and>
    balances st' = balances st \<and> accounts st' = accounts st \<and> 0 \<le> d \<and> 0 \<le> c"
proof (cases "hash_find (account_balance_slots st) (acct, MyProcNumber env)")
  case None
  with assms show ?thesis
    by (auto simp: insert_slot_def Let_def posted_def debits_of_enter credits_of_enter books_ok_enter
        split: if_splits)
next
  case (Some p)
  obtain d0 c0 where p: "p = (d0, c0)" by force
  with Some assms(2) have "0 \<le> d0" "0 \<le> c0" using books_ok_find by blast+
  with Some p assms show ?thesis
    by (auto simp: insert_slot_def Let_def posted_def debits_of_enter credits_of_enter books_ok_enter
        split: if_splits)
qed

lemma sint_of_int_plus:
  fixes w :: "64 word"
  assumes "- (2 ^ 63) \<le> x + sint w" "x + sint w < 2 ^ 63"
  shows "sint (word_of_int x + w) = x + sint w"
proof -
  have "word_of_int x + w = word_of_int (x + sint w)" by simp
  then show ?thesis using sint_of_int64[OF assms] by metis
qed

text \<open>The limits that the flags of an account set to its balance.\<close>

definition account_ok :: "pg_env \<Rightarrow> slots \<Rightarrow> pg_uuid_t \<Rightarrow> bool" where
  "account_ok env t acct \<longleftrightarrow>
     (flags_in env acct AND ACCOUNT_DEBITS_ALLOWED_TO_EXCEED_CREDITS = 0 \<longrightarrow> debits_of t acct \<le> credits_of t acct) \<and>
     (flags_in env acct AND ACCOUNT_CREDITS_ALLOWED_TO_EXCEED_DEBITS = 0 \<longrightarrow> credits_of t acct \<le> debits_of t acct)"

lemma set_txid_ok:
  assumes "set_txid env acct acc st = (Inr (), st')"
  shows "account_balance_slots st' = account_balance_slots st" "balances st' = balances st"
    and "cache_ok env st \<Longrightarrow> flags acc = flags_in env acct \<Longrightarrow> cache_ok env st'"
  using assms by (auto simp: set_txid_def cache_ok_def htab_simps split: option.splits if_splits)

lemma select_sums_ok:
  "select_sums acct st = (Inr (d, c), st') \<Longrightarrow> st' = st \<and>
    d = word_of_int (debits_of (account_balance_slots st) acct) \<and>
    c = word_of_int (credits_of (account_balance_slots st) acct)"
  by (auto simp: select_sums_def debits_of_def credits_of_def Let_def split: prod.splits if_splits)

lemma check_limits_ok:
  assumes "check_limits acc d c st = (Inr (), st')"
  shows "st' = st \<and>
    (flags acc AND ACCOUNT_DEBITS_ALLOWED_TO_EXCEED_CREDITS = 0 \<longrightarrow> sint d \<le> sint c) \<and>
    (flags acc AND ACCOUNT_CREDITS_ALLOWED_TO_EXCEED_DEBITS = 0 \<longrightarrow> sint c \<le> sint d)"
  using assms
  by (auto simp: check_limits_def fail_action_def return_action_def word_sless_alt split: if_splits)

text \<open>
  A posting ends with the insertion into the books, and the limits are checked if the amounts
  could violate them.
\<close>

lemma post_balance_steps:
  assumes "post_balance env (acct, bal) st = (Inr (), st')"
  obtains acc st1 st2 where "find_account env acct st = (Inr acc, st1)"
    "set_txid env acct acc st1 = (Inr (), st2)"
    "insert_slot env acct (sint (credited bal)) (sint (debited bal)) st2 = (Inr (), st')"
    "0 < debited bal \<and> flags acc AND ACCOUNT_DEBITS_ALLOWED_TO_EXCEED_CREDITS = 0 \<or>
     0 < credited bal \<and> flags acc AND ACCOUNT_CREDITS_ALLOWED_TO_EXCEED_DEBITS = 0 \<longrightarrow>
     (\<exists>d c st3. select_sums acct st2 = (Inr (d, c), st2) \<and>
       check_limits acc (d + debited bal) (c + credited bal) st3 = (Inr (), st3))"
proof -
  obtain acc st1 st2 where f: "find_account env acct st = (Inr acc, st1)"
    "set_txid env acct acc st1 = (Inr (), st2)"
    and rest: "(if 0 < debited bal \<and> flags acc AND ACCOUNT_DEBITS_ALLOWED_TO_EXCEED_CREDITS = 0 \<or>
        0 < credited bal \<and> flags acc AND ACCOUNT_CREDITS_ALLOWED_TO_EXCEED_DEBITS = 0
      then bind_action (select_sums acct) (\<lambda>(d, c).
        bind_action (insert_slot env acct (sint (credited bal)) (sint (debited bal))) (\<lambda>_.
          check_limits acc (d + debited bal) (c + credited bal)))
      else insert_slot env acct (sint (credited bal)) (sint (debited bal))) st2 = (Inr (), st')"
    using assms by (auto simp: post_balance_def bind_action_Inr Let_def)
  show thesis
  proof (cases "0 < debited bal \<and> flags acc AND ACCOUNT_DEBITS_ALLOWED_TO_EXCEED_CREDITS = 0 \<or>
        0 < credited bal \<and> flags acc AND ACCOUNT_CREDITS_ALLOWED_TO_EXCEED_DEBITS = 0")
    case True
    then obtain d c st3 st4 where "select_sums acct st2 = (Inr (d, c), st3)"
      "insert_slot env acct (sint (credited bal)) (sint (debited bal)) st3 = (Inr (), st4)"
      "check_limits acc (d + debited bal) (c + credited bal) st4 = (Inr (), st')"
      using rest by (auto simp: bind_action_Inr)
    moreover from this have "st3 = st2" "st' = st4"
      using select_sums_ok[of acct st2 d c st3]
        check_limits_ok[of acc "d + debited bal" "c + credited bal" st4 st'] by simp_all
    ultimately show thesis using that[OF f] by blast
  next
    case False
    with rest have "insert_slot env acct (sint (credited bal)) (sint (debited bal)) st2 = (Inr (), st')"
      by simp
    with that[OF f] False show thesis by blast
  qed
qed

lemma post_balance_ok:
  assumes "post_balance env (acct, bal) st = (Inr (), st')" "books_ok (account_balance_slots st)"
  shows "posted acct (sint (debited bal)) (sint (credited bal)) (account_balance_slots st) (account_balance_slots st')"
    and "0 \<le> sint (debited bal)" "0 \<le> sint (credited bal)"
    and "cache_ok env st \<Longrightarrow> cache_ok env st'"
    and "\<lbrakk> cache_ok env st; account_ok env (account_balance_slots st) acct;
        debits_of (account_balance_slots st') acct < 2 ^ 63;
        credits_of (account_balance_slots st') acct < 2 ^ 63 \<rbrakk>
      \<Longrightarrow> account_ok env (account_balance_slots st') acct"
proof -
  obtain acc st1 st2 where f: "find_account env acct st = (Inr acc, st1)"
    and x: "set_txid env acct acc st1 = (Inr (), st2)"
    and i: "insert_slot env acct (sint (credited bal)) (sint (debited bal)) st2 = (Inr (), st')"
    and check: "0 < debited bal \<and> flags acc AND ACCOUNT_DEBITS_ALLOWED_TO_EXCEED_CREDITS = 0 \<or>
       0 < credited bal \<and> flags acc AND ACCOUNT_CREDITS_ALLOWED_TO_EXCEED_DEBITS = 0 \<longrightarrow>
     (\<exists>d c st3. select_sums acct st2 = (Inr (d, c), st2) \<and>
       check_limits acc (d + debited bal) (c + credited bal) st3 = (Inr (), st3))"
    using post_balance_steps[OF assms(1)] by blast
  have same: "account_balance_slots st2 = account_balance_slots st"
    using find_account_frame[OF f] set_txid_ok(1)[OF x] by (simp add: same_books_def)
  note ok = insert_slot_ok[OF i, unfolded same, OF assms(2)]
  show post: "posted acct (sint (debited bal)) (sint (credited bal)) (account_balance_slots st) (account_balance_slots st')"
    and nonneg: "0 \<le> sint (debited bal)" "0 \<le> sint (credited bal)"
    using ok by simp_all
  show "cache_ok env st'" if "cache_ok env st"
    using find_account_flags[OF f that] set_txid_ok(3)[OF x] ok cache_ok_books[of st' st2 env] by simp
  assume prems: "cache_ok env st" "account_ok env (account_balance_slots st) acct"
    "debits_of (account_balance_slots st') acct < 2 ^ 63" "credits_of (account_balance_slots st') acct < 2 ^ 63"
  let ?t = "account_balance_slots st" and ?t' = "account_balance_slots st'"
  have fl: "flags acc = flags_in env acct" using find_account_flags[OF f prems(1)] by simp
  have sums: "debits_of ?t' acct = debits_of ?t acct + sint (debited bal)"
    "credits_of ?t' acct = credits_of ?t acct + sint (credited bal)"
    using post by (simp_all add: posted_def)
  note old = books_ok_sums[OF assms(2), of acct]
  show "account_ok env ?t' acct"
  proof (cases "0 < debited bal \<and> flags acc AND ACCOUNT_DEBITS_ALLOWED_TO_EXCEED_CREDITS = 0 \<or>
       0 < credited bal \<and> flags acc AND ACCOUNT_CREDITS_ALLOWED_TO_EXCEED_DEBITS = 0")
    case True
    obtain d c st3 where "select_sums acct st2 = (Inr (d, c), st2)"
      and lim: "check_limits acc (d + debited bal) (c + credited bal) st3 = (Inr (), st3)"
      using check True by blast
    then have "d = word_of_int (debits_of ?t acct)" "c = word_of_int (credits_of ?t acct)"
      using select_sums_ok same by metis+
    then have "sint (d + debited bal) = debits_of ?t' acct" "sint (c + credited bal) = credits_of ?t' acct"
      using sint_of_int_plus[of "debits_of ?t acct" "debited bal"] old nonneg prems(3,4)
        sint_of_int_plus[of "credits_of ?t acct" "credited bal"] by (simp_all add: sums)
    then show ?thesis using check_limits_ok[OF lim] by (simp add: account_ok_def fl)
  next
    case False
    then show ?thesis using prems(2) nonneg
      by (auto simp: account_ok_def fl sums word_gt_0)
  qed
qed

lemma balance_of_Cons: "balance_of ((k, v) # t) a = (if a = k then v else balance_of t a)"
  by (simp add: balance_of_def hash_find_Cons)

lemma balance_of_absent: "a \<notin> fst ` set t \<Longrightarrow> balance_of t a = \<lparr> credited = 0, debited = 0 \<rparr>"
  by (simp add: balance_of_def hash_find_None_notin[THEN iffD2])

text \<open>Posting all in-flight balances.\<close>

definition all_posted :: "(pg_uuid_t, Balance) htab \<Rightarrow> slots \<Rightarrow> slots \<Rightarrow> bool" where
  "all_posted tab t t' \<longleftrightarrow> books_ok t' \<and>
     (\<forall>a. debits_of t' a = debits_of t a + sint (debited (balance_of tab a)) \<and>
          credits_of t' a = credits_of t a + sint (credited (balance_of tab a)) \<and>
          0 \<le> sint (debited (balance_of tab a)) \<and> 0 \<le> sint (credited (balance_of tab a)))"

lemma hash_wf_Cons:
  "hash_wf ((k, v) # t) \<Longrightarrow> hash_wf t \<and> balance_of t k = \<lparr> credited = 0, debited = 0 \<rparr>"
  by (simp add: hash_wf_def balance_of_absent)

lemma post_all:
  assumes "for_each (post_balance env) tab st = (Inr (), st')" "hash_wf tab"
    and "books_ok (account_balance_slots st)"
  shows "all_posted tab (account_balance_slots st) (account_balance_slots st')"
  using assms
proof (induction tab arbitrary: st)
  case Nil
  then show ?case by (simp add: return_action_def balance_of_absent all_posted_def)
next
  case (Cons x tab)
  obtain acct bal where x: "x = (acct, bal)" by force
  obtain st1 where st1: "post_balance env (acct, bal) st = (Inr (), st1)"
    "for_each (post_balance env) tab st1 = (Inr (), st')"
    using Cons.prems(1) by (auto simp: x bind_action_Inr)
  note p = post_balance_ok(1-3)[OF st1(1) Cons.prems(3)]
  then have "all_posted tab (account_balance_slots st1) (account_balance_slots st')"
    using Cons.IH[OF st1(2)] hash_wf_Cons Cons.prems(2) by (simp add: x posted_def)
  with p show ?case
    using hash_wf_Cons[of acct bal tab] Cons.prems(2) by (auto simp: x all_posted_def posted_def balance_of_Cons)
qed

lemma post_all_limits:
  assumes "for_each (post_balance env) tab st = (Inr (), st')" "hash_wf tab"
    and "books_ok (account_balance_slots st)" "cache_ok env st"
    and "\<forall>a. account_ok env (account_balance_slots st) a"
    and "\<forall>a. debits_of (account_balance_slots st') a < 2 ^ 63 \<and> credits_of (account_balance_slots st') a < 2 ^ 63"
  shows "\<forall>a. account_ok env (account_balance_slots st') a"
  using assms(1-5)
proof (induction tab arbitrary: st)
  case Nil
  then show ?case by (simp add: return_action_def)
next
  case (Cons x tab)
  obtain acct bal where x: "x = (acct, bal)" by force
  obtain st1 where st1: "post_balance env (acct, bal) st = (Inr (), st1)"
    "for_each (post_balance env) tab st1 = (Inr (), st')"
    using Cons.prems(1) by (auto simp: x bind_action_Inr)
  note ok = post_balance_ok[OF st1(1) Cons.prems(3)]
  have wf: "hash_wf tab" and b1: "books_ok (account_balance_slots st1)"
    using ok(1) hash_wf_Cons[of acct bal tab] Cons.prems(2) by (simp_all add: x posted_def)
  have le: "debits_of (account_balance_slots st1) a < 2 ^ 63 \<and> credits_of (account_balance_slots st1) a < 2 ^ 63" for a
    using post_all[OF st1(2) wf b1, unfolded all_posted_def, THEN conjunct2, THEN spec, of a]
      assms(6)[THEN spec, of a] by linarith
  have "account_ok env (account_balance_slots st1) a" for a
  proof (cases "a = acct")
    case True
    then show ?thesis using ok(5) le[of acct] Cons.prems(4,5) by blast
  next
    case False
    then show ?thesis using Cons.prems(5) ok(1) by (simp add: account_ok_def posted_def)
  qed
  then show ?case using Cons.IH[OF st1(2) wf b1 ok(4)[OF Cons.prems(4)]] by blast
qed

section \<open>The abstract ledger\<close>

text \<open>
  What the extension promises: every account has a total of debits and one of credits, and a transfer
  adds its amount to the debits of one account and to the credits of the other.
\<close>

type_synonym abs_ledger = "pg_uuid_t \<Rightarrow> int \<times> int"

definition abs_books :: "slots \<Rightarrow> abs_ledger" where
  "abs_books t acct = (debits_of t acct, credits_of t acct)"

definition abs_post :: "transfer \<Rightarrow> abs_ledger \<Rightarrow> abs_ledger" where
  "abs_post tr L acct =
     (fst (L acct) + (if acct = debit_account_id tr then sint (amount tr) else 0),
      snd (L acct) + (if acct = credit_account_id tr then sint (amount tr) else 0))"

definition amounts_ok :: "transfer list \<Rightarrow> bool" where
  "amounts_ok trs \<longleftrightarrow> list_all (\<lambda>tr. 0 \<le> sint (amount tr)) trs \<and>
     sum_list (map (sint \<circ> amount) trs) < 2 ^ 63"

definition one_command :: "pg_env \<Rightarrow> (pg_env \<times> transfer) list \<Rightarrow> bool" where
  "one_command env rows \<longleftrightarrow>
     list_all (\<lambda>(e, _). same_command e (fst (last rows)) \<and> accounts_rel e = accounts_rel env) rows"

lemma sum_words: "sum_list ws = (word_of_int (sum_list (map sint ws)) :: 64 word)"
  by (induction ws) simp_all

lemma sint_sum_words:
  fixes ws :: "64 word list"
  assumes "\<And>w. w \<in> set ws \<Longrightarrow> 0 \<le> sint w" "sum_list (map sint ws) < 2 ^ 63"
  shows "sint (sum_list ws) = sum_list (map sint ws)"
proof -
  have "0 \<le> sum_list (map sint ws)" using assms(1) by (intro sum_list_nonneg) auto
  then show ?thesis unfolding sum_words using assms(2) by (intro sint_of_int64) linarith+
qed

lemma sum_filter_le:
  fixes f :: "'a \<Rightarrow> int"
  shows "(\<And>x. x \<in> set xs \<Longrightarrow> 0 \<le> f x) \<Longrightarrow> sum_list (map f (filter P xs)) \<le> sum_list (map f xs)"
  by (induction xs) force+

lemma sint_word_sums:
  assumes "amounts_ok trs"
  shows "sint (sum_list (map amount (filter P trs))) = sum_list (map (sint \<circ> amount) (filter P trs))"
proof -
  have "sum_list (map (sint \<circ> amount) (filter P trs)) \<le> sum_list (map (sint \<circ> amount) trs)"
    using assms by (intro sum_filter_le) (auto simp: amounts_ok_def list_all_iff)
  then show ?thesis
    using assms sint_sum_words[of "map amount (filter P trs)"]
    by (auto simp: amounts_ok_def list_all_iff)
qed

lemma fold_abs_post:
  "fold abs_post trs L acct =
     (fst (L acct) + sum_list (map (sint \<circ> amount) (filter (\<lambda>tr. debit_account_id tr = acct) trs)),
      snd (L acct) + sum_list (map (sint \<circ> amount) (filter (\<lambda>tr. credit_account_id tr = acct) trs)))"
  by (induction trs arbitrary: L) (simp_all add: abs_post_def)

lemma tallied_abs_post:
  assumes "amounts_ok trs" "tallied trs tab"
  shows "fold abs_post trs (abs_books t) acct =
    (debits_of t acct + sint (debited (balance_of tab acct)), credits_of t acct + sint (credited (balance_of tab acct)))"
  using assms by (simp add: fold_abs_post sint_word_sums abs_books_def tallied_def word_debits_def word_credits_def)

lemma one_command_run: "one_command env rows \<Longrightarrow> last_run rows = rows"
  by (rule last_run_all) (auto simp: one_command_def list_all_iff)

lemma insert_transfers_steps:
  assumes "insert_transfers env rows st = (Inr (), st')" "rows \<noteq> []" "balances st = None"
  obtains st1 tab st2 where "row_triggers rows st = (Inr (), st1)" "balances st1 = Some tab"
    "tallied (map snd (last_run rows)) tab" "account_balance_slots st1 = account_balance_slots st"
    "for_each (post_balance env) tab st1 = (Inr (), st2)" "st' = st2 \<lparr> balances := None \<rparr>"
    "serializable env"
proof -
  obtain st1 where st1: "row_triggers rows st = (Inr (), st1)"
    "update_account_balances env StatementInsert st1 = (Inr (), st')"
    using assms(1) by (auto simp: insert_transfers_def bind_action_Inr)
  obtain tab where tab: "balances st1 = Some tab" "tallied (map snd (last_run rows)) tab"
    "account_balance_slots st1 = account_balance_slots st"
    using rows_tallied[OF st1(1) assms(2,3)] by blast
  obtain st2 where "for_each (post_balance env) tab st1 = (Inr (), st2)" "st' = st2 \<lparr> balances := None \<rparr>"
    "serializable env"
    using st1(2) by (auto simp: update_account_balances_def tab(1) bind_action_Inr split: if_splits)
  then show thesis using that st1(1) tab by blast
qed

section \<open>Acceptance\<close>

lemma calculate_succeeds:
  assumes "accounts st \<noteq> None" "cache_ok env st" "debit_account_id tr \<noteq> credit_account_id tr"
    and "may_transfer env (debit_account_id tr)" "may_transfer env (credit_account_id tr)"
  shows "\<exists>st'. calculate_account_balances env (RowInsert tr) st = (Inr (), st')"
proof -
  let ?st = "current_balances env st"
  have a: "accounts ?st \<noteq> None" "cache_ok env ?st"
    using assms(1,2) by (simp_all add: cache_ok_current) (simp add: current_balances_def)
  obtain acc1 st1 where f1: "find_account env (debit_account_id tr) ?st = (Inr acc1, st1)"
    using find_account_total[OF a(1)] by blast
  note k1 = find_account_flags[OF f1 a(2)]
  obtain acc2 st2 where f2: "find_account env (credit_account_id tr) st1 = (Inr acc2, st2)"
    using find_account_total find_account_frame[OF f1] by blast
  have "\<not> is_closed acc1" "\<not> is_closed acc2"
    using k1 find_account_flags[OF f2] assms(4,5) by (simp_all add: is_closed_def may_transfer_def)
  then show ?thesis
    using assms(1,3) f1 f2 by (simp add: calculate_account_balances_def Let_def bind_action_def)
qed

text \<open>What a posting of the given amounts needs.\<close>

definition can_post :: "pg_env \<Rightarrow> pg_uuid_t \<Rightarrow> int \<Rightarrow> int \<Rightarrow> bool" where
  "can_post env acct d c \<longleftrightarrow> accounts_rel env acct \<noteq> None \<and> d < 2 ^ 63 \<and> c < 2 ^ 63 \<and>
     (flags_in env acct AND ACCOUNT_DEBITS_ALLOWED_TO_EXCEED_CREDITS = 0 \<longrightarrow> d \<le> c) \<and>
     (flags_in env acct AND ACCOUNT_CREDITS_ALLOWED_TO_EXCEED_DEBITS = 0 \<longrightarrow> c \<le> d)"

lemma slot_le_sums:
  assumes "books_ok t" "hash_find t (acct, n) = Some (d, c)"
  shows "d \<le> debits_of t acct" "c \<le> credits_of t acct"
proof -
  have "books_ok (hash_enter (acct, n) (0, 0) t)" using assms(1) by (rule books_ok_enter) simp_all
  then have "0 \<le> debits_of (hash_enter (acct, n) (0, 0) t) acct" "0 \<le> credits_of (hash_enter (acct, n) (0, 0) t) acct"
    by (rule books_ok_sums)+
  then show "d \<le> debits_of t acct" "c \<le> credits_of t acct"
    using assms(2) by (simp_all add: debits_of_enter credits_of_enter)
qed

lemma insert_slot_succeeds:
  assumes "books_ok (account_balance_slots st)" "0 \<le> d" "0 \<le> c" "accounts_rel env acct \<noteq> None"
    and "debits_of (account_balance_slots st) acct + d < 2 ^ 63"
    and "credits_of (account_balance_slots st) acct + c < 2 ^ 63"
  shows "\<exists>st'. insert_slot env acct c d st = (Inr (), st') \<and> accounts st' = accounts st"
proof (cases "hash_find (account_balance_slots st) (acct, MyProcNumber env)")
  case None
  with assms show ?thesis by (simp add: insert_slot_def Let_def)
next
  case (Some p)
  obtain d0 c0 where p: "p = (d0, c0)" by force
  from slot_le_sums[OF assms(1) Some[unfolded p]] assms show ?thesis
    by (simp add: insert_slot_def Let_def Some p)
qed

lemma post_balance_succeeds:
  assumes "books_ok (account_balance_slots st)" "accounts st \<noteq> None" "cache_ok env st"
    and "0 \<le> sint (debited bal)" "0 \<le> sint (credited bal)"
    and "can_post env acct (debits_of (account_balance_slots st) acct + sint (debited bal))
      (credits_of (account_balance_slots st) acct + sint (credited bal))"
  shows "\<exists>st'. post_balance env (acct, bal) st = (Inr (), st') \<and> accounts st' \<noteq> None \<and> cache_ok env st'"
proof -
  let ?t = "account_balance_slots st"
  obtain acc st1 where f: "find_account env acct st = (Inr acc, st1)"
    using find_account_total[OF assms(2)] by blast
  obtain st2 where x: "set_txid env acct acc st1 = (Inr (), st2)" by (simp add: set_txid_def)
  have same: "account_balance_slots st2 = ?t" "accounts st2 \<noteq> None"
    using find_account_frame[OF f] x by (auto simp: same_books_def set_txid_def)
  have fl: "flags acc = flags_in env acct" using find_account_flags[OF f assms(3)] by simp
  note old = books_ok_sums[OF assms(1), of acct]
  obtain st3 where i: "insert_slot env acct (sint (credited bal)) (sint (debited bal)) st2 = (Inr (), st3)"
    "accounts st3 = accounts st2"
    using insert_slot_succeeds[of st2 "sint (debited bal)" "sint (credited bal)" env acct] assms same
    by (auto simp: can_post_def)
  have sel: "select_sums acct st2 = (Inr (word_of_int (debits_of ?t acct), word_of_int (credits_of ?t acct)), st2)"
    using assms(4-6) same by (auto simp: select_sums_def can_post_def debits_of_def credits_of_def Let_def
        split: prod.splits)
  have sums:
    "sint (word_of_int (debits_of ?t acct) + debited bal) = debits_of ?t acct + sint (debited bal)"
    "sint (word_of_int (credits_of ?t acct) + credited bal) = credits_of ?t acct + sint (credited bal)"
    using old assms(4-6) by (intro sint_of_int_plus; simp add: can_post_def)+
  have "check_limits acc (word_of_int (debits_of ?t acct) + debited bal)
      (word_of_int (credits_of ?t acct) + credited bal) st3 = (Inr (), st3)"
    using assms(6) unfolding check_limits_def word_sless_alt sums fl
    by (auto simp: can_post_def return_action_def)
  with sel have post: "post_balance env (acct, bal) st = (Inr (), st3)"
    using f x i by (simp add: post_balance_def bind_action_def Let_def)
  then show ?thesis
    using i(2) same(2) post_balance_ok(4)[OF post assms(1,3)] by simp
qed

lemma post_all_succeeds:
  assumes "hash_wf tab" "books_ok (account_balance_slots st)" "accounts st \<noteq> None" "cache_ok env st"
    and "\<And>a. 0 \<le> sint (debited (balance_of tab a)) \<and> 0 \<le> sint (credited (balance_of tab a))"
    and "\<And>a. a \<in> fst ` set tab \<Longrightarrow>
      can_post env a (debits_of (account_balance_slots st) a + sint (debited (balance_of tab a)))
        (credits_of (account_balance_slots st) a + sint (credited (balance_of tab a)))"
  shows "\<exists>st'. for_each (post_balance env) tab st = (Inr (), st')"
  using assms
proof (induction tab arbitrary: st)
  case (Cons x tab)
  obtain acct bal where x: "x = (acct, bal)" by force
  have wf: "hash_wf tab" "acct \<notin> fst ` set tab" using Cons.prems(1) by (simp_all add: x hash_wf_def)
  obtain st1 where st1: "post_balance env (acct, bal) st = (Inr (), st1)" "accounts st1 \<noteq> None" "cache_ok env st1"
    using post_balance_succeeds[OF Cons.prems(2-4), of bal acct] Cons.prems(5,6)[of acct]
    by (auto simp: x balance_of_Cons)
  note p = post_balance_ok(1)[OF st1(1) Cons.prems(2), unfolded posted_def]
  have "\<exists>st'. for_each (post_balance env) tab st1 = (Inr (), st')"
  proof (rule Cons.IH[OF wf(1) _ st1(2,3)])
    show "books_ok (account_balance_slots st1)" using p by simp
    show "0 \<le> sint (debited (balance_of tab a)) \<and> 0 \<le> sint (credited (balance_of tab a))" for a
      using Cons.prems(5)[of a] balance_of_absent[OF wf(2)] by (cases "a = acct") (simp_all add: x balance_of_Cons)
    show "can_post env a (debits_of (account_balance_slots st1) a + sint (debited (balance_of tab a)))
        (credits_of (account_balance_slots st1) a + sint (credited (balance_of tab a)))"
      if "a \<in> fst ` set tab" for a
      using Cons.prems(6)[of a] p wf(2) that by (cases "a = acct") (simp_all add: x balance_of_Cons)
  qed
  then show ?case using st1(1) by (auto simp: x bind_action_def)
qed (simp add: return_action_def)

lemma rows_succeed:
  assumes "accounts st \<noteq> None" "cache_ok env st"
    and "list_all (\<lambda>(e, tr). accounts_rel e = accounts_rel env \<and> debit_account_id tr \<noteq> credit_account_id tr \<and>
      may_transfer env (debit_account_id tr) \<and> may_transfer env (credit_account_id tr)) rows"
  shows "\<exists>st'. row_triggers rows st = (Inr (), st')"
  using assms
proof (induction rows arbitrary: st)
  case (Cons r rows)
  obtain e tr where r: "r = (e, tr)" by force
  then have rel: "accounts_rel e = accounts_rel env" using Cons.prems(3) by simp
  then have may: "may_transfer e a = may_transfer env a" for a by (simp add: may_transfer_def flags_in_def)
  have e: "cache_ok e st" using Cons.prems(2) cache_ok_rel[OF rel] by simp
  obtain st1 where st1: "calculate_account_balances e (RowInsert tr) st = (Inr (), st1)"
    using calculate_succeeds[OF Cons.prems(1) e, of tr] Cons.prems(3) by (auto simp: r may)
  then have "\<exists>st'. row_triggers rows st1 = (Inr (), st')"
    using Cons.IH[of st1] calculate_ok(3,4)[OF st1] Cons.prems(3) e cache_ok_rel[OF rel] by (simp add: r)
  then show ?case using st1 by (auto simp: r bind_action_def)
qed (simp add: return_action_def)

section \<open>The transactions recorded in the cache\<close>

text \<open>The cache is a table, and holds the current transaction for the accounts of a set.\<close>

definition stamped :: "pg_env \<Rightarrow> pg_uuid_t set \<Rightarrow> ledger_state \<Rightarrow> bool" where
  "stamped env A st \<longleftrightarrow>
     (\<forall>tab. accounts st = Some tab \<longrightarrow> hash_wf tab \<and>
        (\<forall>a acc. a \<in> A \<longrightarrow> hash_find tab a = Some acc \<longrightarrow> txid acc = current_xid env))"

lemma stamped_find:
  assumes "find_account env b st = (Inr acc, st')" "stamped env A st"
  shows "stamped env (A - {b}) st'"
proof (cases "accounts st")
  case None
  then show ?thesis using assms by (simp add: find_account_def)
next
  case (Some tab)
  obtain fresh st1 where i: "invalidated env st = (fresh, st1)" by force
  define t where "t = (if fresh then [] else tab)"
  have t: "txid x = current_xid env" if "hash_find t a = Some x" "a \<in> A" for a x
    using that assms(2) by (auto simp: t_def Some stamped_def htab_simps split: if_splits)
  have "hash_wf t" using assms(2) by (auto simp: t_def Some stamped_def htab_simps)
  then show ?thesis
    using assms(1)[unfolded find_account_eq[OF Some i t_def]] t
    by (auto simp: stamped_def htab_simps split: option.splits)
qed

lemma post_balance_stamps:
  assumes "post_balance env (acct, bal) st = (Inr (), st')" "stamped env A st"
    and "books_ok (account_balance_slots st)"
  shows "stamped env (insert acct A) st'"
proof -
  obtain acc st1 st2 where f: "find_account env acct st = (Inr acc, st1)"
    and x: "set_txid env acct acc st1 = (Inr (), st2)"
    and i: "insert_slot env acct (sint (credited bal)) (sint (debited bal)) st2 = (Inr (), st')"
    using post_balance_steps[OF assms(1)] by blast
  have "stamped env (insert acct A) st2"
    using stamped_find[OF f assms(2)] x
    by (auto simp: stamped_def set_txid_def htab_simps split: if_splits)
  moreover have "accounts st' = accounts st2"
    using i by (auto simp: insert_slot_def Let_def split: if_splits option.splits prod.splits)
  ultimately show ?thesis by (simp add: stamped_def)
qed

lemma post_all_stamps:
  assumes "for_each (post_balance env) tab st = (Inr (), st')" "stamped env A st"
    and "books_ok (account_balance_slots st)"
  shows "stamped env (A \<union> fst ` set tab) st'"
  using assms
proof (induction tab arbitrary: st A)
  case (Cons x tab)
  obtain acct bal where x: "x = (acct, bal)" by force
  obtain st1 where st1: "post_balance env (acct, bal) st = (Inr (), st1)"
    "for_each (post_balance env) tab st1 = (Inr (), st')"
    using Cons.prems(1) by (auto simp: x bind_action_Inr)
  have "books_ok (account_balance_slots st1)"
    using post_balance_ok(1)[OF st1(1) Cons.prems(3)] by (simp add: posted_def)
  then have "stamped env (insert acct A \<union> fst ` set tab) st'"
    using Cons.IH[OF st1(2) post_balance_stamps[OF st1(1) Cons.prems(2,3)]] by blast
  then show ?case by (simp add: x)
qed (simp add: return_action_def)

lemma stamped_not_affected:
  assumes "stamped env A st" "current_xid env = xid_if_any env"
  shows "A \<inter> fst ` set (transaction_affected_accounts env st) = {}"
proof (cases "accounts st")
  case (Some tab)
  with assms have "hash_wf tab" "\<And>a acc. a \<in> A \<Longrightarrow> hash_find tab a = Some acc \<Longrightarrow> txid acc = xid_if_any env"
    by (simp_all add: stamped_def)
  then show ?thesis
    by (auto simp: transaction_affected_accounts_def Some hash_find_mem)
qed (simp add: transaction_affected_accounts_def)

lemma calculate_stamped:
  assumes "calculate_account_balances e (RowInsert tr) st = (Inr (), st')" "stamped env {} st"
  shows "stamped env {} st'"
proof -
  obtain acc1 st1 acc2 st2 where
    f: "find_account e (debit_account_id tr) (current_balances e st) = (Inr acc1, st1)"
      "find_account e (credit_account_id tr) st1 = (Inr acc2, st2)" "st' = tally tr st2"
    using assms(1)
    by (auto simp: calculate_account_balances_def Let_def bind_action_Inr fail_action_def split: if_splits)
  have "stamped e {} (current_balances e st)"
    using assms(2) by (auto simp: stamped_def current_balances_def split: if_splits)
  from stamped_find[OF f(1) this] have "stamped e {} st1" by simp
  from stamped_find[OF f(2) this] have "stamped e {} st2" by simp
  then show ?thesis by (simp add: stamped_def f(3) tally_def)
qed

lemma rows_stamped:
  "row_triggers rows st = (Inr (), st') \<Longrightarrow> stamped env {} st \<Longrightarrow> stamped env {} st'"
proof (induction rows arbitrary: st)
  case (Cons r rows)
  obtain e tr where r: "r = (e, tr)" by force
  obtain st1 where "calculate_account_balances e (RowInsert tr) st = (Inr (), st1)"
    "row_triggers rows st1 = (Inr (), st')"
    using Cons.prems(1) by (auto simp: r bind_action_Inr)
  then show ?case using Cons.IH calculate_stamped Cons.prems(2) by blast
qed (simp add: return_action_def)

section \<open>Closing an account\<close>

lemma closure_flags:
  "(ucast (account_flags old) :: byte) \<noteq> ucast (account_flags new) \<and>
   (ucast (account_flags old) :: byte) OR ucast ACCOUNT_CLOSED = ucast (account_flags new) \<longleftrightarrow>
   \<not> closed old \<and> closed new \<and>
   debits_allowed_to_exceed_credits new = debits_allowed_to_exceed_credits old \<and>
   credits_allowed_to_exceed_debits new = credits_allowed_to_exceed_debits old"
  by (cases "closed old"; cases "closed new"; cases "debits_allowed_to_exceed_credits old";
      cases "debits_allowed_to_exceed_credits new"; cases "credits_allowed_to_exceed_debits old";
      cases "credits_allowed_to_exceed_debits new")
    (simp_all add: account_flags_def account_flag_defs)

section \<open>Properties\<close>


text \<open>
  C25: no statement that inserts transfers breaks the limits of an account.  If the cache agrees with the
  table of accounts, then after a successful statement every account that must not
  have more debits than credits, or more credits than debits, still has not, as
  long as the totals fit \<open>bigint\<close>; and none of the accounts of the transfers is closed.
\<close>

theorem limits_respected:
  assumes "insert_transfers env rows st = (Inr (), st')" "rows \<noteq> []" "balances st = None"
    and "books_ok (account_balance_slots st)" "one_command env rows" "cache_ok env st"
    and "\<forall>a. account_ok env (account_balance_slots st) a"
    and "\<forall>a. debits_of (account_balance_slots st') a < 2 ^ 63 \<and> credits_of (account_balance_slots st') a < 2 ^ 63"
  shows "(\<forall>a. account_ok env (account_balance_slots st') a) \<and>
    list_all (\<lambda>(_, tr). may_transfer env (debit_account_id tr) \<and> may_transfer env (credit_account_id tr) \<and>
      debit_account_id tr \<noteq> credit_account_id tr) rows"
proof -
  obtain st1 tab st2 where s: "row_triggers rows st = (Inr (), st1)" "tallied (map snd (last_run rows)) tab"
    "account_balance_slots st1 = account_balance_slots st"
    "for_each (post_balance env) tab st1 = (Inr (), st2)" "st' = st2 \<lparr> balances := None \<rparr>"
    using insert_transfers_steps[OF assms(1-3)] by blast
  have "list_all (\<lambda>(e, _). accounts_rel e = accounts_rel env) rows"
    using assms(5) by (auto simp: one_command_def list_all_iff)
  note r = rows_flags[OF s(1) assms(6) this]
  have "\<forall>a. account_ok env (account_balance_slots st2) a"
    using post_all_limits[OF s(4)] s(2,3,5) assms(4,7,8) r by (simp add: tallied_def)
  then show ?thesis using r s(5) by simp
qed


text \<open>
  Only the rows of the last command are posted.  The amounts added to the totals are exactly those
  of the last rows whose triggers saw the transaction and command of the last row; the amounts of the
  rows before them are dropped.
\<close>

theorem only_last_command_posted:
  assumes "insert_transfers env rows st = (Inr (), st')" "rows \<noteq> []" "balances st = None"
    and "books_ok (account_balance_slots st)"
  shows "debits_of (account_balance_slots st') a =
      debits_of (account_balance_slots st) a + sint (word_debits (map snd (last_run rows)) a) \<and>
    credits_of (account_balance_slots st') a =
      credits_of (account_balance_slots st) a + sint (word_credits (map snd (last_run rows)) a)"
proof -
  obtain st1 tab st2 where s: "tallied (map snd (last_run rows)) tab" "account_balance_slots st1 = account_balance_slots st"
    "for_each (post_balance env) tab st1 = (Inr (), st2)" "st' = st2 \<lparr> balances := None \<rparr>"
    using insert_transfers_steps[OF assms(1-3)] by blast
  then show ?thesis
    using post_all[OF s(3)] assms(4) by (auto simp: all_posted_def tallied_def)
qed

text \<open>
  A cached account stays open for a backend.  Once the backend has observed a snapshot, and
  while later snapshots do not precede it, a transfer between two accounts that its cache holds as open
  is taken, whatever the table of accounts says by now and whatever has been announced by other backends.
\<close>

theorem stale_cache_accepts_closed_accounts:
  assumes "accounts st = Some tab" "debit_account_id tr \<noteq> credit_account_id tr"
    and "hash_find tab (debit_account_id tr) = Some acc1" "\<not> is_closed acc1"
    and "hash_find tab (credit_account_id tr) = Some acc2" "\<not> is_closed acc2"
    and "\<not> invalidation_announcement_pending st"
    and "observed_invalidation_announcement_at st \<noteq> InvalidTransactionId"
    and "TransactionIdFollowsOrEquals env (snapshot_xmin env) (observed_invalidation_announcement_at st)"
  shows "calculate_account_balances env (RowInsert tr) st = (Inr (), tally tr (current_balances env st))"
proof -
  let ?st = "current_balances env st"
  have st: "accounts ?st = Some tab" "invalidated env ?st = (False, ?st)"
    using assms by (simp_all add: current_balances_def invalidated_def Let_def)
  have "?st \<lparr> accounts := Some tab \<rparr> = ?st" using st(1) by simp
  then have "find_account env acct ?st = (Inr acc, ?st)" if "hash_find tab acct = Some acc" for acct acc
    using find_account_eq[OF st refl, of acct] that by simp
  then show ?thesis
    using assms by (simp add: calculate_account_balances_def Let_def bind_action_def)
qed

text \<open>
  The functions that list affected accounts leave out the affected accounts.  After a statement that
  inserted transfers, none of the accounts it posted to is among those that
  \<open>transaction_affected_accounts\<close> returns in the same transaction, and
  \<open>statement_affected_accounts\<close> returns none at all.
\<close>

theorem affected_accounts_left_out:
  assumes "insert_transfers env rows st = (Inr (), st')" "rows \<noteq> []" "balances st = None"
    and "books_ok (account_balance_slots st)" "stamped env {} st" "current_xid env = xid_if_any env"
  shows "(debit_account_id ` snd ` set (last_run rows) \<union> credit_account_id ` snd ` set (last_run rows)) \<inter>
      fst ` set (transaction_affected_accounts env st') = {} \<and>
    statement_affected_accounts env st' = (Inr [], st')"
proof -
  obtain st1 tab st2 where s: "row_triggers rows st = (Inr (), st1)" "tallied (map snd (last_run rows)) tab"
    "account_balance_slots st1 = account_balance_slots st"
    "for_each (post_balance env) tab st1 = (Inr (), st2)" "st' = st2 \<lparr> balances := None \<rparr>"
    using insert_transfers_steps[OF assms(1-3)] by blast
  have "stamped env (fst ` set tab) st2"
    using post_all_stamps[OF s(4) rows_stamped[OF s(1) assms(5)]] s(3) assms(4) by simp
  then have "stamped env (fst ` set tab) st'" by (simp add: stamped_def s(5))
  from stamped_not_affected[OF this assms(6)] show ?thesis
    using s(2,5) by (simp add: tallied_def statement_affected_accounts_def)
qed

text \<open>
  The trigger on accounts lets exactly the closure of an open account pass, in a serializable
  transaction, and then has the closure announced at the end of the transaction.  The identifier of the account
  is not compared.
\<close>

theorem only_closure_passes:
  "deny_operation_on_accounts env (RowUpdate old new) st =
     (if \<not> serializable env
      then (elog_error ''account closure must be done in a serializable transaction'', st)
      else if row_ledger_id new = row_ledger_id old \<and> closed old = False \<and> closed new \<and>
        debits_allowed_to_exceed_credits new = debits_allowed_to_exceed_credits old \<and>
        credits_allowed_to_exceed_debits new = credits_allowed_to_exceed_debits old
      then (Inr (Some new), st \<lparr> invalidation_announcement_pending := True \<rparr>)
      else (elog_error ''Accounts are immutable with the exception of closure'', st))"
  using closure_flags[of old new] unfolding deny_operation_on_accounts_def
  by (auto simp: Let_def)

text \<open>
  A statement that inserts no transfers, and the deletion of an account, make the triggers follow a
  null pointer.
\<close>

theorem null_pointers_followed:
  assumes "serializable env" "balances st = None"
  shows "insert_transfers env [] st = (Inl (Crash ''hash_seq_init of a null table''), st) \<and>
    deny_operation_on_accounts env (RowDelete row) st = (Inl (Crash ''heap_getattr of a null tuple''), st)"
  using assms
  by (simp add: insert_transfers_def bind_action_def return_action_def update_account_balances_def
      deny_operation_on_accounts_def)

section \<open>Witnesses\<close>

definition demo_env :: "32 word \<Rightarrow> pg_env" where
  "demo_env cid = \<lparr> snapshot_xmin = 700, xid_if_any = 701, current_xid = 701, command_id = cid,
     serializable = True, MyProcNumber = 4, invalidation = InvalidTransactionId,
     accounts_rel = (\<lambda>a.
       if a = [1] then Some \<lparr> row_id = [1], row_ledger_id = [9], debits_allowed_to_exceed_credits = True,
         credits_allowed_to_exceed_debits = False, closed = False \<rparr>
       else if a = [2] then Some \<lparr> row_id = [2], row_ledger_id = [9], debits_allowed_to_exceed_credits = False,
         credits_allowed_to_exceed_debits = True, closed = False \<rparr>
       else None),
     uninitialised = \<lparr> ledger_id = [], flags = 0, txid = 0 \<rparr>,
     TransactionIdPrecedes = (<), TransactionIdFollowsOrEquals = (\<lambda>a b. b \<le> a) \<rparr>"

definition demo_state :: ledger_state where
  "demo_state = \<lparr> accounts = Some [], invalidation_announcement_pending = False,
     observed_invalidation_announcement_at = InvalidTransactionId, balances = None,
     last_command_id = 0xFFFFFFFF, last_transaction_id = InvalidTransactionId, account_balance_slots = [] \<rparr>"

definition demo_transfer :: "64 word \<Rightarrow> transfer" where
  "demo_transfer x = \<lparr> debit_account_id = [1], credit_account_id = [2], amount = x \<rparr>"

definition demo_result :: "32 word \<Rightarrow> int \<Rightarrow> ledger_state" where
  "demo_result cid x = demo_state \<lparr>
     accounts := Some [([1], \<lparr> ledger_id = [9], flags = 1, txid = 701 \<rparr>), ([2], \<lparr> ledger_id = [9], flags = 2, txid = 701 \<rparr>)],
     observed_invalidation_announcement_at := 700, last_command_id := cid, last_transaction_id := 701,
     account_balance_slots := [(([1], 4), (x, 0)), (([2], 4), (0, x))] \<rparr>"

abbreviation demo_rows :: "(pg_env \<times> transfer) list" where
  "demo_rows \<equiv> [(demo_env 3, demo_transfer 100), (demo_env 3, demo_transfer 50)]"

lemma demo_run: "insert_transfers (demo_env 3) demo_rows demo_state = (Inr (), demo_result 3 150)"
  by code_simp

lemma demo_run_two_commands:
  "insert_transfers (demo_env 5) [(demo_env 3, demo_transfer 100), (demo_env 5, demo_transfer 50)] demo_state =
    (Inr (), demo_result 5 50)"
  by code_simp

lemma demo_books: "books_ok (account_balance_slots demo_state)" "balances demo_state = None"
  "amounts_ok (map snd demo_rows)"
  by code_simp+

lemma demo_one_command: "one_command (demo_env 3) demo_rows"
  by (simp add: one_command_def same_command_def)

lemma demo_cache: "cache_ok (demo_env cid) demo_state" "stamped (demo_env cid) {} demo_state"
  by (simp_all add: cache_ok_def stamped_def demo_state_def htab_simps)

lemma demo_sums:
  "debits_of (account_balance_slots (demo_result cid x)) a = (if a = [1] then x else 0)"
  "credits_of (account_balance_slots (demo_result cid x)) a = (if a = [2] then x else 0)"
  "debits_of (account_balance_slots demo_state) a = 0" "credits_of (account_balance_slots demo_state) a = 0"
  by (simp_all add: demo_result_def demo_state_def debits_of_def credits_of_def slot_sums_def Let_def)

lemma demo_last_run:
  "last_run demo_rows = demo_rows"
  "last_run [(demo_env 3, tr), (demo_env 5, tr')] = [(demo_env 5, tr')]"
  by (simp_all add: last_run_def same_command_def demo_env_def)


theorem limits_respected_witness: "account_ok (demo_env 3) (account_balance_slots (demo_result 3 150)) [2]"
proof -
  have "\<forall>a. account_ok (demo_env 3) (account_balance_slots demo_state) a"
    by (simp add: demo_sums account_ok_def)
  moreover have "\<forall>a. debits_of (account_balance_slots (demo_result 3 150)) a < 2 ^ 63 \<and>
      credits_of (account_balance_slots (demo_result 3 150)) a < 2 ^ 63"
    by (simp add: demo_sums)
  ultimately show ?thesis
    using limits_respected[OF demo_run _ demo_books(2,1) demo_one_command demo_cache(1)] by blast
qed


theorem only_last_command_posted_witness: "debits_of (account_balance_slots (demo_result 5 50)) [1] = 50"
  using only_last_command_posted[OF demo_run_two_commands _ demo_books(2,1), of "[1]"]
  by (simp add: demo_sums last_run_def same_command_def demo_env_def word_debits_def demo_transfer_def)

definition closed_env :: pg_env where
  "closed_env = (demo_env 7) \<lparr> snapshot_xmin := 900, invalidation := 850,
     accounts_rel := (\<lambda>a. map_option (\<lambda>row. row \<lparr> closed := True \<rparr>) (accounts_rel (demo_env 7) a)) \<rparr>"

theorem stale_cache_accepts_closed_accounts_witness:
  "flags_in closed_env [1] AND ACCOUNT_CLOSED = ACCOUNT_CLOSED \<and>
   calculate_account_balances closed_env (RowInsert (demo_transfer 10)) (demo_result 3 150) =
     (Inr (), tally (demo_transfer 10) (current_balances closed_env (demo_result 3 150)))"
proof
  show "flags_in closed_env [1] AND ACCOUNT_CLOSED = ACCOUNT_CLOSED" by code_simp
  show "calculate_account_balances closed_env (RowInsert (demo_transfer 10)) (demo_result 3 150) =
     (Inr (), tally (demo_transfer 10) (current_balances closed_env (demo_result 3 150)))"
    by (rule stale_cache_accepts_closed_accounts[where
          tab = "[([1], \<lparr> ledger_id = [9], flags = 1, txid = 701 \<rparr>), ([2], \<lparr> ledger_id = [9], flags = 2, txid = 701 \<rparr>)]"
          and ?acc1.0 = "\<lparr> ledger_id = [9], flags = 1, txid = 701 \<rparr>"
          and ?acc2.0 = "\<lparr> ledger_id = [9], flags = 2, txid = 701 \<rparr>"]) code_simp+
qed

theorem affected_accounts_left_out_witness:
  "[1] \<notin> fst ` set (transaction_affected_accounts (demo_env 3) (demo_result 3 150))"
proof -
  have "current_xid (demo_env 3) = xid_if_any (demo_env 3)" by (simp add: demo_env_def)
  moreover have "[1] \<in> debit_account_id ` snd ` set (last_run demo_rows)"
    unfolding one_command_run[OF demo_one_command] by (simp add: demo_transfer_def)
  ultimately show ?thesis
    using affected_accounts_left_out[OF demo_run _ demo_books(2,1) demo_cache(2)] by blast
qed

theorem null_pointers_followed_witness:
  "insert_transfers (demo_env 3) [] demo_state = (Inl (Crash ''hash_seq_init of a null table''), demo_state)"
  using null_pointers_followed[of "demo_env 3" demo_state undefined] demo_books(2) by (simp add: demo_env_def)

end
