(* ===== verification/Omni_Linearize.thy ===== *)
theory Omni_Linearize
  imports Omni_Prelude
begin

text \<open>
  Linearized transactions: \<open>src/extensions/omni_txn/linearization.c\<close>.

  \<open>lin_state\<close> is what one backend works on: the array \<open>control->backends\<close>, which all backends
  share, and its own static variables.  \<open>lin_env\<close> is what PostgreSQL answers during a call: who
  the backend is and the predicate locks at that moment.  A pointer to a \<open>SERIALIZABLEXACT\<close> is a
  number, or \<open>None\<close> for null; \<open>topXid\<close> reads the transaction id behind it.
\<close>

section \<open>State\<close>

datatype LinearizedBackendStatus = Linearized_Inactive | Linearized_In_Progress | Linearized_Committing

definition MAX_CONFLICTS :: nat where "MAX_CONFLICTS = 1024"

record LinearizationConflict =
  txid :: TransactionId
  rel :: Oid

record LinearizedBackend =
  status :: LinearizedBackendStatus
  xact :: "nat option"
  numconflicts :: "32 word"
  conflicts :: "LinearizationConflict list"

record lin_state =
  backends :: "LinearizedBackend list"
  linearize_enabled :: bool
  linearized_writes :: "Oid list"

record PredicateLock =
  lock_rel :: Oid
  lock_pid :: nat
  lock_pgprocno :: nat

record lin_env =
  PG_MAJORVERSION_NUM :: nat
  MyProcNumber :: nat
  MyProcPid :: nat
  locks :: "PredicateLock list"
  ShareSerializableXact :: "nat option"
  topXid :: "nat \<Rightarrow> TransactionId"

datatype CmdType = CMD_SELECT | CMD_UPDATE | CMD_INSERT | CMD_DELETE | CMD_MERGE | CMD_UTILITY

record QueryDesc =
  operation :: CmdType
  is_ModifyTable :: bool
  resultRelations :: "nat list"
  rtable :: "Oid list"

type_synonym 'a lin_action = "(lin_state, 'a) state_action"

section \<open>Operations\<close>

definition update_backend :: "nat \<Rightarrow> (LinearizedBackend \<Rightarrow> LinearizedBackend) \<Rightarrow> lin_state \<Rightarrow> lin_state" where
  "update_backend i f st = st \<lparr> backends := (backends st)[i := f (backends st ! i)] \<rparr>"

definition reset_backend :: "LinearizedBackend \<Rightarrow> LinearizedBackend" where
  "reset_backend b = b \<lparr> xact := None, status := Linearized_Inactive, numconflicts := 0 \<rparr>"

definition reset_control :: "lin_env \<Rightarrow> lin_state \<Rightarrow> lin_state" where
  "reset_control env = update_backend (MyProcNumber env) reset_backend"

definition linearization_failure :: pg_error where
  "linearization_failure = Ereport ERRCODE_T_R_SERIALIZATION_FAILURE ''linearization failure''"

text \<open>The loop over the first \<open>n\<close> recorded conflicts; behind the array lies other memory.\<close>

fun scan_conflicts :: "LinearizationConflict list \<Rightarrow> Oid \<Rightarrow> nat \<Rightarrow> bool outcome" where
  "scan_conflicts cs r 0 = Inr False"
| "scan_conflicts [] r (Suc n) = Inl (Crash ''conflicts read out of bounds'')"
| "scan_conflicts (c # cs) r (Suc n) = (if rel c = r then Inr True else scan_conflicts cs r n)"

definition check_if_rel_in_conflict :: "lin_env \<Rightarrow> Oid \<Rightarrow> unit lin_action" where
  "check_if_rel_in_conflict env r st =
     (let b = backends st ! MyProcNumber env in
      case scan_conflicts (conflicts b) r (unat (numconflicts b)) of
        Inl e \<Rightarrow> (Inl e, st)
      | Inr True \<Rightarrow> (Inl linearization_failure, reset_control env st)
      | Inr False \<Rightarrow> (Inr (), st))"

text \<open>\<open>list_append_unique_oid\<close>\<close>

definition append_unique :: "'a list \<Rightarrow> 'a \<Rightarrow> 'a list" where
  "append_unique xs x = (if x \<in> set xs then xs else xs @ [x])"

text \<open>The body of the loop over the relations that a statement modifies.\<close>

definition register_write :: "lin_env \<Rightarrow> QueryDesc \<Rightarrow> nat \<Rightarrow> unit lin_action" where
  "register_write env q index st =
     (if index = 0 \<or> length (rtable q) < index then (Inl (Crash ''list_nth out of bounds''), st)
      else
        (let relid = rtable q ! (index - 1);
             st = st \<lparr> linearized_writes := append_unique (linearized_writes st) relid \<rparr>
         in if list_ex (\<lambda>l. lock_pid l \<noteq> MyProcPid env \<and> lock_rel l = relid) (locks env)
            then (Inl linearization_failure, st) else (Inr (), st)))"

definition adopt_xact :: "lin_env \<Rightarrow> lin_state \<Rightarrow> lin_state" where
  "adopt_xact env st =
     (if xact (backends st ! MyProcNumber env) = None \<and> ShareSerializableXact env \<noteq> None
      then update_backend (MyProcNumber env)
        (\<lambda>b. b \<lparr> xact := ShareSerializableXact env, status := Linearized_In_Progress \<rparr>) st
      else st)"

definition modifies :: "lin_env \<Rightarrow> CmdType \<Rightarrow> bool" where
  "modifies env cmd \<longleftrightarrow> cmd \<in> {CMD_INSERT, CMD_DELETE, CMD_UPDATE} \<or>
     cmd = CMD_MERGE \<and> 14 < PG_MAJORVERSION_NUM env"

definition linearize_executor_start :: "lin_env \<Rightarrow> QueryDesc \<Rightarrow> unit lin_action" where
  "linearize_executor_start env q st =
     (if \<not> linearize_enabled st then (Inr (), st)
      else
        (let st = adopt_xact env st in
         if modifies env (operation q)
         then (if is_ModifyTable q then for_each (register_write env q) (resultRelations q) st else (Inr (), st))
         else for_each (check_if_rel_in_conflict env) (rtable q) st))"

definition SxactIsOurs :: "lin_env \<Rightarrow> PredicateLock \<Rightarrow> bool" where
  "SxactIsOurs env l =
     (if 14 < PG_MAJORVERSION_NUM env then lock_pgprocno l = MyProcNumber env else lock_pid l = MyProcPid env)"

text \<open>Recording a committed write with another backend.\<close>

definition record_conflict :: "lin_env \<Rightarrow> Oid \<Rightarrow> nat \<Rightarrow> unit lin_action" where
  "record_conflict env r i st =
     (if i = MyProcNumber env \<or> status (backends st ! i) \<noteq> Linearized_In_Progress then (Inr (), st)
      else
        (let conflict_index = unat (numconflicts (backends st ! i));
             st = update_backend i (\<lambda>b. b \<lparr> numconflicts := numconflicts b + 1 \<rparr>) st
         in if conflict_index \<ge> MAX_CONFLICTS
            then (Inl (Crash ''xact is null after the reset''), reset_control env st)
            else
              case xact (backends st ! MyProcNumber env) of
                None \<Rightarrow> (Inl (Crash ''xact is null''), st)
              | Some x \<Rightarrow>
                  (Inr (), update_backend i (\<lambda>b. b \<lparr> conflicts :=
                     (conflicts b)[conflict_index := \<lparr> txid = topXid env x, rel = r \<rparr>] \<rparr>) st)))"

text \<open>The body of the loop over the relations that the transaction wrote.\<close>

definition publish_write :: "lin_env \<Rightarrow> Oid \<Rightarrow> unit lin_action" where
  "publish_write env r st =
     (if list_ex (\<lambda>l. \<not> SxactIsOurs env l \<and> lock_rel l = r) (locks env)
      then (Inl linearization_failure, reset_control env st)
      else for_each (record_conflict env r) [0..<length (backends st)] st)"

definition pre_commit :: "lin_env \<Rightarrow> unit lin_action" where
  "pre_commit env st =
     bind_action
       (for_each (check_if_rel_in_conflict env) (map lock_rel (filter (SxactIsOurs env) (locks env))))
       (\<lambda>_. bind_action (\<lambda>st. for_each (publish_write env) (linearized_writes st) st)
       (\<lambda>_ st. (Inr (), reset_control env st)))
       (update_backend (MyProcNumber env) (\<lambda>b. b \<lparr> status := Linearized_Committing \<rparr>) st)"

definition linearize_xact_callback :: "lin_env \<Rightarrow> XactEvent \<Rightarrow> unit lin_action" where
  "linearize_xact_callback env event st =
     bind_action
       (if linearize_enabled st \<and> event = XACT_EVENT_PRE_COMMIT then pre_commit env else return_action ())
       (\<lambda>_ st. (Inr (), st \<lparr> linearize_enabled := False \<rparr>)) st"

definition init_control :: "lin_env \<Rightarrow> lin_state \<Rightarrow> lin_state" where
  "init_control env = reset_control env"

definition linearize_transaction :: "lin_env \<Rightarrow> lin_state \<Rightarrow> lin_state" where
  "linearize_transaction env st =
     (update_backend (MyProcNumber env) (\<lambda>b. b \<lparr> status := Linearized_In_Progress \<rparr>) st)
       \<lparr> linearize_enabled := True, linearized_writes := [] \<rparr>"

definition linearize :: "bool \<Rightarrow> bool \<Rightarrow> lin_env \<Rightarrow> unit lin_action" where
  "linearize initialized IsolationIsSerializable env st =
     (if \<not> initialized
      then (elog_error ''this functionality requires `omni` to be preloaded'', st)
      else if \<not> IsolationIsSerializable
      then (elog_error ''current transaction is not serializable'', st)
      else (Inr (), linearize_transaction env st))"

definition linearized :: "lin_state \<Rightarrow> bool" where
  "linearized st = linearize_enabled st"

section \<open>What a backend may do to the others\<close>

definition no_crash :: "'a outcome \<Rightarrow> bool" where
  "no_crash r = (case r of Inl (Crash _) \<Rightarrow> False | _ \<Rightarrow> True)"

lemma no_crash_simps [simp]:
  "no_crash (Inr x)" "\<not> no_crash (Inl (Crash m))" "no_crash (Inl (Ereport c m))" "no_crash (Inl linearization_failure)"
  by (simp_all add: no_crash_def linearization_failure_def)

definition backend_ok :: "LinearizedBackend \<Rightarrow> bool" where
  "backend_ok b \<longleftrightarrow> length (conflicts b) = MAX_CONFLICTS \<and> unat (numconflicts b) \<le> MAX_CONFLICTS"

definition lin_ok :: "nat \<Rightarrow> lin_state \<Rightarrow> bool" where
  "lin_ok me st \<longleftrightarrow> me < length (backends st) \<and> (\<forall>i < length (backends st). backend_ok (backends st ! i))"

text \<open>The conflicts that are recorded with a backend stay recorded.\<close>

definition grows :: "LinearizedBackend \<Rightarrow> LinearizedBackend \<Rightarrow> bool" where
  "grows b b' \<longleftrightarrow> status b' = status b \<and> numconflicts b \<le> numconflicts b' \<and>
     take (unat (numconflicts b)) (conflicts b') = take (unat (numconflicts b)) (conflicts b)"

lemma grows_refl: "grows b b"
  by (simp add: grows_def)

lemma take_le_eq: "m \<le> n \<Longrightarrow> take n xs = take n ys \<Longrightarrow> take m xs = take m ys"
  by (metis min.absorb1 take_take)

lemma grows_trans:
  assumes "grows a b" "grows b c"
  shows "grows a c"
proof -
  have le: "numconflicts a \<le> numconflicts b" using assms(1) by (simp add: grows_def)
  have "take (unat (numconflicts b)) (conflicts c) = take (unat (numconflicts b)) (conflicts b)"
    using assms(2) by (simp add: grows_def)
  then have "take (unat (numconflicts a)) (conflicts c) = take (unat (numconflicts a)) (conflicts b)"
    by (rule take_le_eq[rotated]) (use le in \<open>simp add: word_le_nat_alt\<close>)
  then show ?thesis using assms by (auto simp: grows_def intro: order_trans)
qed

definition evolves :: "nat \<Rightarrow> lin_state \<Rightarrow> lin_state \<Rightarrow> bool" where
  "evolves me st st' \<longleftrightarrow> lin_ok me st' \<and> length (backends st') = length (backends st) \<and>
     (\<forall>i < length (backends st). i \<noteq> me \<longrightarrow> grows (backends st ! i) (backends st' ! i))"

lemma evolves_refl: "lin_ok me st \<Longrightarrow> evolves me st st"
  by (simp add: evolves_def grows_refl)

lemma evolves_trans: "evolves me a b \<Longrightarrow> evolves me b c \<Longrightarrow> evolves me a c"
  unfolding evolves_def using grows_trans by fastforce

lemma evolves_local:
  "lin_ok me st \<Longrightarrow> backends st' = backends st \<Longrightarrow> evolves me st st'"
  by (simp add: evolves_def lin_ok_def grows_refl)

lemma evolves_own:
  assumes "lin_ok me st" "\<And>b. backend_ok b \<Longrightarrow> backend_ok (f b)"
  shows "evolves me st (update_backend me f st)"
  using assms by (auto simp: evolves_def lin_ok_def update_backend_def nth_list_update grows_refl)

lemma evolves_other:
  assumes "lin_ok me st" "i \<noteq> me"
    and "backend_ok (backends st ! i) \<Longrightarrow> backend_ok (f (backends st ! i))"
    and "grows (backends st ! i) (f (backends st ! i))"
  shows "evolves me st (update_backend i f st)"
proof (cases "i < length (backends st)")
  case True
  have "backend_ok ((backends st)[i := f (backends st ! i)] ! k) \<and>
      grows (backends st ! k) ((backends st)[i := f (backends st ! i)] ! k)" if "k < length (backends st)" for k
    using that True assms by (cases "k = i") (simp_all add: lin_ok_def grows_refl)
  then show ?thesis using assms(1) by (simp add: evolves_def lin_ok_def update_backend_def)
next
  case False
  then have "update_backend i f st = st" by (simp add: update_backend_def not_less list_update_beyond)
  then show ?thesis using assms(1) by (simp add: evolves_refl)
qed

text \<open>An action of backend \<open>me\<close> that leaves the records of the others as they are, or extends them.\<close>

definition steady :: "nat \<Rightarrow> 'a lin_action \<Rightarrow> bool" where
  "steady me m \<longleftrightarrow> (\<forall>st r st'. lin_ok me st \<longrightarrow> m st = (r, st') \<longrightarrow> no_crash r \<longrightarrow> evolves me st st')"

named_theorems steady_intros

lemma steadyI:
  "(\<And>st r st'. lin_ok me st \<Longrightarrow> m st = (r, st') \<Longrightarrow> no_crash r \<Longrightarrow> evolves me st st') \<Longrightarrow> steady me m"
  by (simp add: steady_def)

lemma steadyD: "steady me m \<Longrightarrow> lin_ok me st \<Longrightarrow> m st = (r, st') \<Longrightarrow> no_crash r \<Longrightarrow> evolves me st st'"
  by (simp add: steady_def)

lemma evolves_ok: "evolves me st st' \<Longrightarrow> lin_ok me st'"
  by (simp add: evolves_def)

lemma steady_return [steady_intros]: "steady me (return_action x)"
  by (rule steadyI) (simp add: return_action_def evolves_refl)

lemma steady_bind [steady_intros]:
  assumes "steady me m" "\<And>x. steady me (f x)"
  shows "steady me (bind_action m f)"
proof (rule steadyI)
  fix st r st'
  assume ok: "lin_ok me st" and run: "bind_action m f st = (r, st')" and nc: "no_crash r"
  obtain r1 st1 where m: "m st = (r1, st1)" by force
  show "evolves me st st'"
  proof (cases r1)
    case (Inl e)
    then have "m st = (Inl e, st')" "no_crash (Inl e :: 'a outcome)"
      using run nc m by (auto simp: bind_action_def no_crash_def)
    then show ?thesis using steadyD[OF assms(1) ok] by blast
  next
    case (Inr x)
    then have f: "f x st1 = (r, st')" using run m by (simp add: bind_action_def)
    have "evolves me st st1" using steadyD[OF assms(1) ok m] Inr by simp
    moreover from this have "evolves me st1 st'" using steadyD[OF assms(2) evolves_ok f nc] by simp
    ultimately show ?thesis by (rule evolves_trans)
  qed
qed

lemma steady_for_each [steady_intros]: "(\<And>x. steady me (f x)) \<Longrightarrow> steady me (for_each f xs)"
  by (induction xs) (auto intro: steady_intros)

lemma backend_ok_reset: "backend_ok b \<Longrightarrow> backend_ok (reset_backend b)"
  by (simp add: backend_ok_def reset_backend_def)

lemma evolves_reset: "lin_ok (MyProcNumber env) st \<Longrightarrow> evolves (MyProcNumber env) st (reset_control env st)"
  unfolding reset_control_def by (rule evolves_own) (simp_all add: backend_ok_reset)

lemma steady_check [steady_intros]: "steady (MyProcNumber env) (check_if_rel_in_conflict env r)"
  by (rule steadyI)
    (auto simp: check_if_rel_in_conflict_def Let_def intro: evolves_refl evolves_reset
      split: sum.splits bool.splits)

lemma steady_register [steady_intros]: "steady (MyProcNumber env) (register_write env q index)"
  by (rule steadyI) (auto simp: register_write_def Let_def intro!: evolves_local split: if_splits)

lemma update_backend_twice:
  "update_backend i g (update_backend i f st) = update_backend i (\<lambda>b. g (f b)) st"
  by (cases "i < length (backends st)") (simp_all add: update_backend_def not_less list_update_beyond)

lemma update_backend_nth: "j \<noteq> i \<Longrightarrow> backends (update_backend i f st) ! j = backends st ! j"
  by (simp add: update_backend_def)

lemma record_conflict_cases:
  assumes "record_conflict env r i st = (res, st')" "no_crash res"
  shows "i = MyProcNumber env \<and> st' = st \<or> status (backends st ! i) \<noteq> Linearized_In_Progress \<and> st' = st \<or>
    i \<noteq> MyProcNumber env \<and> status (backends st ! i) = Linearized_In_Progress \<and>
    unat (numconflicts (backends st ! i)) < MAX_CONFLICTS \<and>
    (\<exists>x. st' = update_backend i (\<lambda>b. b \<lparr> numconflicts := numconflicts b + 1, conflicts :=
       (conflicts b)[unat (numconflicts (backends st ! i)) := \<lparr> txid = x, rel = r \<rparr>] \<rparr>) st) \<and> res = Inr ()"
proof (cases "i = MyProcNumber env \<or> status (backends st ! i) \<noteq> Linearized_In_Progress")
  case True
  then show ?thesis using assms by (auto simp: record_conflict_def)
next
  case False
  then have other: "i \<noteq> MyProcNumber env" "status (backends st ! i) = Linearized_In_Progress" by auto
  show ?thesis
    using other assms
    by (auto simp: record_conflict_def Let_def update_backend_twice update_backend_nth split: if_splits option.splits)
qed

lemma unat_Suc_le:
  fixes n :: "32 word"
  assumes "unat n < MAX_CONFLICTS"
  shows "unat (n + 1) = Suc (unat n)" "n \<le> n + 1"
proof -
  show *: "unat (n + 1) = Suc (unat n)"
    using assms by (simp add: MAX_CONFLICTS_def unat_word_ariths)
  then show "n \<le> n + 1" by (simp add: word_le_nat_alt)
qed

lemma steady_record [steady_intros]: "steady (MyProcNumber env) (record_conflict env r i)"
proof (rule steadyI)
  fix st res st'
  assume ok: "lin_ok (MyProcNumber env) st" and run: "record_conflict env r i st = (res, st')" "no_crash res"
  show "evolves (MyProcNumber env) st st'"
  proof (cases "st' = st")
    case True
    then show ?thesis using ok by (simp add: evolves_refl)
  next
    case False
    then obtain x where other: "i \<noteq> MyProcNumber env" "unat (numconflicts (backends st ! i)) < MAX_CONFLICTS"
      and st': "st' = update_backend i (\<lambda>b. b \<lparr> numconflicts := numconflicts b + 1, conflicts :=
        (conflicts b)[unat (numconflicts (backends st ! i)) := \<lparr> txid = x, rel = r \<rparr>] \<rparr>) st"
      using record_conflict_cases[OF run] by blast
    show ?thesis
      unfolding st' by (rule evolves_other[OF ok other(1)])
        (use other(2) unat_Suc_le[OF other(2)] in \<open>simp_all add: backend_ok_def grows_def\<close>)
  qed
qed

lemma steady_publish [steady_intros]: "steady (MyProcNumber env) (publish_write env r)"
proof (rule steadyI)
  fix st res st'
  assume "lin_ok (MyProcNumber env) st" "publish_write env r st = (res, st')" "no_crash res"
  moreover have "steady (MyProcNumber env) (for_each (record_conflict env r) xs)" for xs
    by (intro steady_intros)
  ultimately show "evolves (MyProcNumber env) st st'"
    by (auto simp: publish_write_def intro: evolves_reset dest: steadyD split: if_splits)
qed

lemma steady_pre_commit [steady_intros]: "steady (MyProcNumber env) (pre_commit env)"
proof (rule steadyI)
  fix st res st'
  let ?me = "MyProcNumber env"
  assume ok: "lin_ok ?me st" and run: "pre_commit env st = (res, st')" and nc: "no_crash res"
  let ?st = "update_backend ?me (\<lambda>b. b \<lparr> status := Linearized_Committing \<rparr>) st"
  have own: "evolves ?me st ?st" by (rule evolves_own[OF ok]) (simp add: backend_ok_def)
  have writes: "steady ?me (\<lambda>st. for_each (publish_write env) (linearized_writes st) st)"
  proof (rule steadyI)
    fix st res st'
    assume "lin_ok ?me st" "for_each (publish_write env) (linearized_writes st) st = (res, st')" "no_crash res"
    moreover have "steady ?me (for_each (publish_write env) (linearized_writes st))" by (intro steady_intros)
    ultimately show "evolves ?me st st'" by (blast dest: steadyD)
  qed
  have "steady ?me (\<lambda>st. (Inr (), reset_control env st))"
    by (rule steadyI) (auto intro: evolves_reset)
  with writes have "steady ?me (bind_action
       (for_each (check_if_rel_in_conflict env) (map lock_rel (filter (SxactIsOurs env) (locks env))))
       (\<lambda>_. bind_action (\<lambda>st. for_each (publish_write env) (linearized_writes st) st)
       (\<lambda>_ st. (Inr (), reset_control env st))))"
    by (intro steady_intros)
  from steadyD[OF this evolves_ok[OF own] _ nc] run have "evolves ?me ?st st'" by (simp add: pre_commit_def)
  with own show "evolves ?me st st'" by (rule evolves_trans)
qed

lemma steady_executor_start: "steady (MyProcNumber env) (linearize_executor_start env q)"
proof (rule steadyI)
  fix st res st'
  let ?me = "MyProcNumber env"
  assume ok: "lin_ok ?me st" and run: "linearize_executor_start env q st = (res, st')" and nc: "no_crash res"
  have own: "evolves ?me st (adopt_xact env st)"
    using evolves_own[OF ok, of "\<lambda>b. b \<lparr> xact := ShareSerializableXact env, status := Linearized_In_Progress \<rparr>"]
      evolves_refl[OF ok] by (simp add: adopt_xact_def backend_ok_def)
  have "steady ?me (if modifies env (operation q)
      then (if is_ModifyTable q then for_each (register_write env q) (resultRelations q) else return_action ())
      else for_each (check_if_rel_in_conflict env) (rtable q))"
    by (simp add: steady_intros)
  from steadyD[OF this evolves_ok[OF own] _ nc] run own show "evolves ?me st st'"
    by (cases "linearize_enabled st"; cases "modifies env (operation q)"; cases "is_ModifyTable q")
      (use evolves_refl[OF ok] in \<open>auto simp: linearize_executor_start_def return_action_def intro: evolves_trans\<close>)
qed

lemma steady_xact_callback: "steady (MyProcNumber env) (linearize_xact_callback env event)"
proof (rule steadyI)
  fix st res st'
  let ?me = "MyProcNumber env"
  assume ok: "lin_ok ?me st" and run: "linearize_xact_callback env event st = (res, st')" and nc: "no_crash res"
  have "steady ?me (\<lambda>st. (Inr (), st \<lparr> linearize_enabled := False \<rparr>))"
    by (rule steadyI) (auto intro: evolves_local)
  then have "steady ?me (bind_action
      (if linearize_enabled st \<and> event = XACT_EVENT_PRE_COMMIT then pre_commit env else return_action ())
      (\<lambda>_ st. (Inr (), st \<lparr> linearize_enabled := False \<rparr>)))"
    by (simp add: steady_intros)
  from steadyD[OF this ok _ nc] run show "evolves ?me st st'" by (simp add: linearize_xact_callback_def)
qed

lemma evolves_linearize_transaction:
  assumes "lin_ok (MyProcNumber env) st"
  shows "evolves (MyProcNumber env) st (linearize_transaction env st)"
proof -
  let ?st = "update_backend (MyProcNumber env) (\<lambda>b. b \<lparr> status := Linearized_In_Progress \<rparr>) st"
  have e: "evolves (MyProcNumber env) st ?st" by (rule evolves_own[OF assms]) (simp add: backend_ok_def)
  have "evolves (MyProcNumber env) ?st (linearize_transaction env st)"
    by (rule evolves_local[OF evolves_ok[OF e]]) (simp add: linearize_transaction_def)
  with e show ?thesis by (rule evolves_trans)
qed

section \<open>Recorded conflicts\<close>

definition in_conflict :: "LinearizedBackend \<Rightarrow> Oid \<Rightarrow> bool" where
  "in_conflict b r \<longleftrightarrow> r \<in> rel ` set (take (unat (numconflicts b)) (conflicts b))"

lemma grows_in_conflict:
  assumes "grows b b'" "in_conflict b r"
  shows "in_conflict b' r"
proof -
  have "unat (numconflicts b) \<le> unat (numconflicts b')"
    using assms(1) by (simp add: grows_def word_le_nat_alt)
  from set_take_subset_set_take[OF this, of "conflicts b'"] assms show ?thesis
    by (auto simp: in_conflict_def grows_def)
qed

lemma evolves_in_conflict:
  "evolves me st st' \<Longrightarrow> i \<noteq> me \<Longrightarrow> i < length (backends st) \<Longrightarrow> in_conflict (backends st ! i) r \<Longrightarrow>
   in_conflict (backends st' ! i) r"
  using grows_in_conflict by (auto simp: evolves_def)

lemma evolves_length: "evolves me st st' \<Longrightarrow> length (backends st') = length (backends st)"
  by (simp add: evolves_def)

lemma scan_conflicts_result:
  "n \<le> length cs \<Longrightarrow> scan_conflicts cs r n = Inr (r \<in> rel ` set (take n cs))"
  by (induction cs r n rule: scan_conflicts.induct) auto

lemma check_result:
  assumes "lin_ok (MyProcNumber env) st"
  shows "check_if_rel_in_conflict env r st =
    (if in_conflict (backends st ! MyProcNumber env) r then (Inl linearization_failure, reset_control env st)
     else (Inr (), st))"
  using assms scan_conflicts_result[of "unat (numconflicts (backends st ! MyProcNumber env))"
      "conflicts (backends st ! MyProcNumber env)" r]
  by (simp add: check_if_rel_in_conflict_def Let_def lin_ok_def backend_ok_def in_conflict_def)

lemma checks_fail:
  assumes "lin_ok (MyProcNumber env) st" "r \<in> set rs" "in_conflict (backends st ! MyProcNumber env) r"
  shows "fst (for_each (check_if_rel_in_conflict env) rs st) = Inl linearization_failure"
  using assms by (induction rs) (auto simp: bind_action_def check_result)

lemma checks_pass:
  assumes "lin_ok (MyProcNumber env) st" "for_each (check_if_rel_in_conflict env) rs st = (Inr (), st')"
  shows "st' = st"
  using assms by (induction rs) (auto simp: bind_action_Inr return_action_def check_result split: if_splits)

lemma record_records:
  assumes "record_conflict env r i st = (Inr (), st')" "lin_ok (MyProcNumber env) st"
    and "i \<noteq> MyProcNumber env" "i < length (backends st)" "status (backends st ! i) = Linearized_In_Progress"
  shows "in_conflict (backends st' ! i) r"
proof -
  let ?n = "unat (numconflicts (backends st ! i))"
  obtain x where n: "?n < MAX_CONFLICTS"
    and st': "st' = update_backend i (\<lambda>b. b \<lparr> numconflicts := numconflicts b + 1, conflicts :=
       (conflicts b)[?n := \<lparr> txid = x, rel = r \<rparr>] \<rparr>) st"
    using record_conflict_cases[OF assms(1)] assms(3,5) by auto
  have "length (conflicts (backends st ! i)) = MAX_CONFLICTS"
    using assms(2,4) by (simp add: lin_ok_def backend_ok_def)
  then show ?thesis
    using n unat_Suc_le(1)[OF n] assms(4) unfolding st'
    by (auto simp: in_conflict_def update_backend_def take_Suc_conv_app_nth)
qed

lemma publish_records:
  assumes "publish_write env r st = (Inr (), st')" "lin_ok (MyProcNumber env) st"
    and "i \<noteq> MyProcNumber env" "i < length (backends st)" "status (backends st ! i) = Linearized_In_Progress"
  shows "in_conflict (backends st' ! i) r"
    and "\<not> list_ex (\<lambda>l. \<not> SxactIsOurs env l \<and> lock_rel l = r) (locks env)"
proof -
  let ?rec = "for_each (record_conflict env r)" and ?me = "MyProcNumber env"
  show "\<not> list_ex (\<lambda>l. \<not> SxactIsOurs env l \<and> lock_rel l = r) (locks env)"
    using assms(1) by (auto simp: publish_write_def split: if_splits)
  then have "?rec [0..<length (backends st)] st = (Inr (), st')"
    using assms(1) by (simp add: publish_write_def)
  moreover have "[0..<length (backends st)] = [0..<i] @ [i] @ [Suc i..<length (backends st)]"
    using assms(4) by (metis append_Cons append_Nil less_imp_le_nat upt_add_eq_append upt_conv_Cons zero_le le_add_diff_inverse)
  ultimately obtain st1 st2 where s: "?rec [0..<i] st = (Inr (), st1)" "record_conflict env r i st1 = (Inr (), st2)"
    "?rec [Suc i..<length (backends st)] st2 = (Inr (), st')"
    by (auto simp: for_each_append bind_action_Inr)
  have steady: "steady ?me (?rec xs)" for xs by (intro steady_intros)
  have e1: "evolves ?me st st1" using steadyD[OF steady assms(2) s(1)] by simp
  have e2: "evolves ?me st1 st2" using steadyD[OF steady_record evolves_ok[OF e1] s(2)] by simp
  have e3: "evolves ?me st2 st'" using steadyD[OF steady evolves_ok[OF e2] s(3)] by simp
  have "in_conflict (backends st2 ! i) r"
    using record_records[OF s(2) evolves_ok[OF e1] assms(3)] e1 assms(3-5) by (simp add: evolves_def grows_def)
  then show "in_conflict (backends st' ! i) r"
    using evolves_in_conflict[OF e3 assms(3)] evolves_length[OF e1] evolves_length[OF e2] assms(4) by simp
qed

lemma writes_recorded:
  assumes "for_each (publish_write env) rs st = (Inr (), st')" "lin_ok (MyProcNumber env) st" "r \<in> set rs"
    and "i \<noteq> MyProcNumber env" "i < length (backends st)" "status (backends st ! i) = Linearized_In_Progress"
  shows "in_conflict (backends st' ! i) r \<and> \<not> list_ex (\<lambda>l. \<not> SxactIsOurs env l \<and> lock_rel l = r) (locks env)"
proof -
  let ?pub = "for_each (publish_write env)" and ?me = "MyProcNumber env"
  obtain xs ys where "rs = xs @ r # ys" using assms(3) by (meson split_list)
  then obtain st1 st2 where s: "?pub xs st = (Inr (), st1)" "publish_write env r st1 = (Inr (), st2)"
    "?pub ys st2 = (Inr (), st')"
    using assms(1) by (auto simp: for_each_append bind_action_Inr)
  have steady: "steady ?me (?pub xs)" for xs by (intro steady_intros)
  have e1: "evolves ?me st st1" using steadyD[OF steady assms(2) s(1)] by simp
  have e2: "evolves ?me st1 st2" using steadyD[OF steady_publish evolves_ok[OF e1] s(2)] by simp
  have e3: "evolves ?me st2 st'" using steadyD[OF steady evolves_ok[OF e2] s(3)] by simp
  have "in_conflict (backends st2 ! i) r" "\<not> list_ex (\<lambda>l. \<not> SxactIsOurs env l \<and> lock_rel l = r) (locks env)"
    using publish_records[OF s(2) evolves_ok[OF e1] assms(4)] e1 assms(4-6) by (simp_all add: evolves_def grows_def)
  then show ?thesis
    using evolves_in_conflict[OF e3 assms(4)] evolves_length[OF e1] evolves_length[OF e2] assms(5) by simp
qed

lemma pre_commit_steps:
  assumes "linearize_xact_callback env XACT_EVENT_PRE_COMMIT st = (Inr (), st')" "linearize_enabled st"
    and "lin_ok (MyProcNumber env) st"
  shows "\<exists>st1 st2. evolves (MyProcNumber env) st st1 \<and>
    for_each (publish_write env) (linearized_writes st) st1 = (Inr (), st2) \<and>
    backends st' = backends (reset_control env st2) \<and> linearize_enabled st' = False \<and>
    (\<forall>r \<in> lock_rel ` set (filter (SxactIsOurs env) (locks env)). \<not> in_conflict (backends st1 ! MyProcNumber env) r)"
proof -
  let ?me = "MyProcNumber env"
  let ?st = "update_backend ?me (\<lambda>b. b \<lparr> status := Linearized_Committing \<rparr>) st"
  let ?rs = "map lock_rel (filter (SxactIsOurs env) (locks env))"
  have e: "evolves ?me st ?st" by (rule evolves_own[OF assms(3)]) (simp add: backend_ok_def)
  obtain st1 st2 where s: "for_each (check_if_rel_in_conflict env) ?rs ?st = (Inr (), st1)"
    "for_each (publish_write env) (linearized_writes st1) st1 = (Inr (), st2)"
    "st' = (reset_control env st2) \<lparr> linearize_enabled := False \<rparr>"
    using assms(1,2) by (auto simp: linearize_xact_callback_def pre_commit_def bind_action_Inr)
  have "st1 = ?st" using checks_pass[OF evolves_ok[OF e] s(1)] .
  moreover have "\<not> in_conflict (backends ?st ! ?me) r" if "r \<in> set ?rs" for r
    using checks_fail[OF evolves_ok[OF e] that] s(1) by auto
  ultimately have "evolves ?me st ?st \<and> for_each (publish_write env) (linearized_writes st) ?st = (Inr (), st2) \<and>
    backends st' = backends (reset_control env st2) \<and> linearize_enabled st' = False \<and>
    (\<forall>r \<in> lock_rel ` set (filter (SxactIsOurs env) (locks env)). \<not> in_conflict (backends ?st ! ?me) r)"
    using e s(2,3) by (simp add: update_backend_def)
  then show ?thesis by (intro exI)
qed

lemma commit_records:
  assumes "linearize_xact_callback env XACT_EVENT_PRE_COMMIT st = (Inr (), st')" "linearize_enabled st"
    and "lin_ok (MyProcNumber env) st" "r \<in> set (linearized_writes st)"
    and "i \<noteq> MyProcNumber env" "i < length (backends st)" "status (backends st ! i) = Linearized_In_Progress"
  shows "in_conflict (backends st' ! i) r"
proof -
  from pre_commit_steps[OF assms(1-3)] obtain st1 st2 where s: "evolves (MyProcNumber env) st st1"
    "for_each (publish_write env) (linearized_writes st) st1 = (Inr (), st2)"
    "backends st' = backends (reset_control env st2)"
    by (elim exE conjE)
  have grow: "grows (backends st ! i) (backends st1 ! i)" and len: "length (backends st1) = length (backends st)"
    using s(1) assms(5,6) by (simp_all add: evolves_def)
  then have "status (backends st1 ! i) = Linearized_In_Progress" using assms(7) by (simp add: grows_def)
  then have "in_conflict (backends st2 ! i) r"
    using writes_recorded[OF s(2) evolves_ok[OF s(1)] assms(4,5)] assms(6) len by simp
  then show ?thesis using s(3) assms(5) by (simp add: reset_control_def update_backend_def)
qed

section \<open>The system of all backends\<close>

text \<open>
  The array that the backends share, and the static variables of each of them.  A step is one call in one
  backend; a call that crashes is no step, since PostgreSQL then restarts with an empty array.
\<close>

record lin_sys =
  shared :: "LinearizedBackend list"
  enabled :: "nat \<Rightarrow> bool"
  writes :: "nat \<Rightarrow> Oid list"

definition view :: "nat \<Rightarrow> lin_sys \<Rightarrow> lin_state" where
  "view k s = \<lparr> backends = shared s, linearize_enabled = enabled s k, linearized_writes = writes s k \<rparr>"

definition put :: "nat \<Rightarrow> lin_state \<Rightarrow> lin_sys \<Rightarrow> lin_sys" where
  "put k st s = \<lparr> shared = backends st, enabled = (enabled s)(k := linearize_enabled st),
     writes = (writes s)(k := linearized_writes st) \<rparr>"

inductive lin_step :: "nat \<Rightarrow> lin_sys \<Rightarrow> lin_sys \<Rightarrow> bool" where
  step_linearize: "MyProcNumber env < length (shared s) \<Longrightarrow>
    lin_step (MyProcNumber env) s (put (MyProcNumber env) (linearize_transaction env (view (MyProcNumber env) s)) s)"
| step_executor_start: "MyProcNumber env < length (shared s) \<Longrightarrow>
    linearize_executor_start env q (view (MyProcNumber env) s) = (res, st') \<Longrightarrow> no_crash res \<Longrightarrow>
    lin_step (MyProcNumber env) s (put (MyProcNumber env) st' s)"
| step_xact: "MyProcNumber env < length (shared s) \<Longrightarrow>
    linearize_xact_callback env event (view (MyProcNumber env) s) = (res, st') \<Longrightarrow> no_crash res \<Longrightarrow>
    lin_step (MyProcNumber env) s (put (MyProcNumber env) st' s)"

text \<open>
  What a backend does within a transaction that goes on: it calls \<open>linearize\<close> again, or starts a
  statement.
\<close>

inductive own_step :: "nat \<Rightarrow> lin_sys \<Rightarrow> lin_sys \<Rightarrow> bool" where
  own_linearize: "own_step (MyProcNumber env) s
    (put (MyProcNumber env) (linearize_transaction env (view (MyProcNumber env) s)) s)"
| own_statement: "linearize_executor_start env q (view (MyProcNumber env) s) = (Inr (), st') \<Longrightarrow>
    own_step (MyProcNumber env) s (put (MyProcNumber env) st' s)"

text \<open>A sequence of steps of all backends in which the transaction of backend \<open>i\<close> goes on.\<close>

definition runs_on :: "nat \<Rightarrow> lin_sys \<Rightarrow> lin_sys \<Rightarrow> bool" where
  "runs_on i = (\<lambda>s s'. (\<exists>k. k \<noteq> i \<and> lin_step k s s') \<or> own_step i s s')\<^sup>*\<^sup>*"

definition sys_ok :: "lin_sys \<Rightarrow> bool" where
  "sys_ok s \<longleftrightarrow> list_all backend_ok (shared s)"

lemma lin_ok_view: "sys_ok s \<Longrightarrow> k < length (shared s) \<Longrightarrow> lin_ok k (view k s)"
  by (simp add: sys_ok_def lin_ok_def view_def list_all_length)

lemma sys_ok_put: "lin_ok k st \<Longrightarrow> sys_ok (put k st s)"
  by (simp add: sys_ok_def lin_ok_def put_def list_all_length)

lemma lin_step_evolves:
  assumes "lin_step k s s'" "sys_ok s"
  shows "\<exists>st'. s' = put k st' s \<and> evolves k (view k s) st'"
  using assms
proof (cases rule: lin_step.cases)
  case (step_linearize env)
  then show ?thesis using evolves_linearize_transaction lin_ok_view assms(2) by blast
next
  case (step_executor_start env q res st')
  then show ?thesis using steadyD[OF steady_executor_start] lin_ok_view assms(2) by blast
next
  case (step_xact env event res st')
  then show ?thesis using steadyD[OF steady_xact_callback] lin_ok_view assms(2) by blast
qed

lemma register_frame:
  "for_each (register_write env q) ns st = (Inr (), st') \<Longrightarrow>
     backends st' = backends st \<and> linearize_enabled st' = linearize_enabled st"
  by (induction ns arbitrary: st)
    (auto simp: bind_action_Inr return_action_def register_write_def Let_def split: if_splits)

lemma adopt_xact_frame:
  assumes "lin_ok (MyProcNumber env) st"
  shows "lin_ok (MyProcNumber env) (adopt_xact env st)"
    and "linearize_enabled (adopt_xact env st) = linearize_enabled st"
    and "in_conflict (backends (adopt_xact env st) ! MyProcNumber env) r = in_conflict (backends st ! MyProcNumber env) r"
    and "length (backends (adopt_xact env st)) = length (backends st)"
  using assms
  by (auto simp: adopt_xact_def update_backend_def lin_ok_def in_conflict_def nth_list_update backend_ok_def)

lemma statement_keeps_conflict:
  assumes "linearize_executor_start env q st = (Inr (), st')" "lin_ok (MyProcNumber env) st"
  shows "lin_ok (MyProcNumber env) st' \<and> linearize_enabled st' = linearize_enabled st \<and>
    length (backends st') = length (backends st) \<and>
    in_conflict (backends st' ! MyProcNumber env) r = in_conflict (backends st ! MyProcNumber env) r"
proof (cases "linearize_enabled st")
  case True
  note a = adopt_xact_frame[OF assms(2)]
  consider "st' = adopt_xact env st"
    | "for_each (register_write env q) (resultRelations q) (adopt_xact env st) = (Inr (), st')"
    | "for_each (check_if_rel_in_conflict env) (rtable q) (adopt_xact env st) = (Inr (), st')"
    using assms(1) True
    by (cases "modifies env (operation q)"; cases "is_ModifyTable q")
      (simp_all add: linearize_executor_start_def Let_def)
  then show ?thesis
  proof cases
    case 2
    with a register_frame[OF 2] show ?thesis by (simp add: lin_ok_def)
  next
    case 3
    with a checks_pass[OF a(1) 3] show ?thesis by simp
  qed (use a in simp)
qed (use assms in \<open>simp add: linearize_executor_start_def\<close>)

lemma own_step_keeps_conflict:
  assumes "own_step i s s'" "sys_ok s" "i < length (shared s)" "in_conflict (shared s ! i) r" "enabled s i"
  shows "sys_ok s' \<and> i < length (shared s') \<and> in_conflict (shared s' ! i) r \<and> enabled s' i"
  using assms(1)
proof (cases rule: own_step.cases)
  case (own_linearize env)
  have ok: "lin_ok (MyProcNumber env) (view (MyProcNumber env) s)" using lin_ok_view assms(2,3) own_linearize(1) by blast
  have "sys_ok s'" unfolding own_linearize(2) by (rule sys_ok_put[OF evolves_ok[OF evolves_linearize_transaction[OF ok]]])
  then show ?thesis
    using assms(3,4) own_linearize
    by (simp add: put_def view_def linearize_transaction_def update_backend_def in_conflict_def)
next
  case (own_statement env q st')
  have ok: "lin_ok (MyProcNumber env) (view (MyProcNumber env) s)" using lin_ok_view assms(2,3) own_statement(1) by blast
  note k = statement_keeps_conflict[OF own_statement(3) ok, of r]
  have "sys_ok s'" using sys_ok_put k unfolding own_statement(2) by blast
  moreover have "i < length (shared s') \<and> in_conflict (shared s' ! i) r \<and> enabled s' i"
    using k assms(3-5) own_statement(1,2) by (simp add: put_def view_def)
  ultimately show ?thesis by blast
qed

lemma runs_on_keeps_conflict:
  assumes "runs_on i s s'" "sys_ok s" "i < length (shared s)" "in_conflict (shared s ! i) r" "enabled s i"
  shows "sys_ok s' \<and> i < length (shared s') \<and> in_conflict (shared s' ! i) r \<and> enabled s' i"
  using assms unfolding runs_on_def
proof (induction rule: rtranclp_induct)
  case (step s1 s2)
  then have IH: "sys_ok s1" "i < length (shared s1)" "in_conflict (shared s1 ! i) r" "enabled s1 i" by auto
  consider k where "k \<noteq> i" "lin_step k s1 s2" | "own_step i s1 s2" using step.hyps(2) by blast
  then show ?case
  proof cases
    case 1
    obtain st' where st': "s2 = put k st' s1" "evolves k (view k s1) st'"
      using lin_step_evolves[OF 1(2) IH(1)] by blast
    show ?thesis
      using IH st' 1(1) evolves_in_conflict[OF st'(2), of i r] evolves_length[OF st'(2)]
        sys_ok_put[OF evolves_ok[OF st'(2)]]
      by (simp add: put_def view_def)
  next
    case 2
    then show ?thesis using own_step_keeps_conflict IH by blast
  qed
qed simp

lemma registered:
  assumes "for_each (register_write env q) ns st = (Inr (), st')"
  shows "set (linearized_writes st) \<union> (\<lambda>n. rtable q ! (n - 1)) ` set ns \<subseteq> set (linearized_writes st')"
  using assms
proof (induction ns arbitrary: st)
  case (Cons n ns)
  then obtain st1 where st1: "register_write env q n st = (Inr (), st1)"
    "for_each (register_write env q) ns st1 = (Inr (), st')"
    by (auto simp: bind_action_Inr)
  have "set (linearized_writes st1) = insert (rtable q ! (n - 1)) (set (linearized_writes st))"
    using st1(1) by (auto simp: register_write_def append_unique_def Let_def split: if_splits)
  then show ?case using Cons.IH[OF st1(2)] by auto
qed (simp add: return_action_def)

section \<open>Room for conflicts\<close>

definition room :: "nat \<Rightarrow> nat \<Rightarrow> lin_state \<Rightarrow> bool" where
  "room me n st \<longleftrightarrow> (\<forall>i < length (backends st). i \<noteq> me \<longrightarrow> status (backends st ! i) = Linearized_In_Progress \<longrightarrow>
     unat (numconflicts (backends st ! i)) + n \<le> MAX_CONFLICTS)"

text \<open>What recording changes in the array: only counters, by at most one for the backends of a list.\<close>

definition counted :: "nat \<Rightarrow> nat list \<Rightarrow> lin_state \<Rightarrow> lin_state \<Rightarrow> bool" where
  "counted me is st st' \<longleftrightarrow> length (backends st') = length (backends st) \<and> backends st' ! me = backends st ! me \<and>
     (\<forall>k < length (backends st). status (backends st' ! k) = status (backends st ! k) \<and>
       unat (numconflicts (backends st' ! k)) \<le> unat (numconflicts (backends st ! k)) + (if k \<in> set is then 1 else 0))"

lemma counted_trans:
  assumes "counted me [i] a b" "counted me is b c" "i \<notin> set is"
  shows "counted me (i # is) a c"
proof -
  have "unat (numconflicts (backends c ! k)) \<le> unat (numconflicts (backends a ! k)) + (if k \<in> set (i # is) then 1 else 0) \<and>
      status (backends c ! k) = status (backends a ! k)" if "k < length (backends a)" for k
  proof -
    have "unat (numconflicts (backends b ! k)) \<le> unat (numconflicts (backends a ! k)) + (if k = i then 1 else 0)"
      "status (backends b ! k) = status (backends a ! k)" using assms(1) that by (simp_all add: counted_def)
    moreover have "unat (numconflicts (backends c ! k)) \<le> unat (numconflicts (backends b ! k)) + (if k \<in> set is then 1 else 0)"
      "status (backends c ! k) = status (backends b ! k)" using assms(1,2) that by (simp_all add: counted_def)
    ultimately show ?thesis using assms(3) by (auto split: if_splits)
  qed
  then show ?thesis using assms(1,2) by (simp add: counted_def)
qed

lemma room_counted:
  assumes "room me (Suc n) st" "counted me is st st'"
  shows "room me n st'"
proof -
  have "unat (numconflicts (backends st' ! i)) + n \<le> MAX_CONFLICTS"
    if "i < length (backends st)" "i \<noteq> me" "status (backends st' ! i) = Linearized_In_Progress" for i
  proof -
    have "unat (numconflicts (backends st' ! i)) \<le> unat (numconflicts (backends st ! i)) + 1"
      "status (backends st' ! i) = status (backends st ! i)"
      using assms(2) that(1) by (auto simp: counted_def split: if_splits)
    moreover from this that have "unat (numconflicts (backends st ! i)) + Suc n \<le> MAX_CONFLICTS"
      using assms(1) by (simp add: room_def)
    ultimately show ?thesis by linarith
  qed
  then show ?thesis using assms(2) by (simp add: room_def counted_def)
qed

lemma record_counted:
  assumes "xact (backends st ! MyProcNumber env) \<noteq> None" "i < length (backends st)"
    and "i \<noteq> MyProcNumber env \<Longrightarrow> status (backends st ! i) = Linearized_In_Progress \<Longrightarrow>
      unat (numconflicts (backends st ! i)) < MAX_CONFLICTS"
  shows "\<exists>st'. record_conflict env r i st = (Inr (), st') \<and> counted (MyProcNumber env) [i] st st'"
proof (cases "i = MyProcNumber env \<or> status (backends st ! i) \<noteq> Linearized_In_Progress")
  case True
  then show ?thesis by (auto simp: record_conflict_def counted_def)
next
  case False
  then have i: "i \<noteq> MyProcNumber env" "unat (numconflicts (backends st ! i)) < MAX_CONFLICTS"
    using assms(3) by auto
  obtain x where x: "xact (backends st ! MyProcNumber env) = Some x" using assms(1) by auto
  define b where "b = backends st ! i"
  define b' where "b' = b \<lparr> numconflicts := numconflicts b + 1,
    conflicts := (conflicts b)[unat (numconflicts b) := \<lparr> txid = topXid env x, rel = r \<rparr>] \<rparr>"
  have "record_conflict env r i st = (Inr (), st \<lparr> backends := (backends st)[i := b'] \<rparr>)"
    using False i x assms(2)
    by (simp add: record_conflict_def Let_def update_backend_twice update_backend_nth update_backend_def b_def b'_def)
  moreover have "status b' = status b" "unat (numconflicts b') = unat (numconflicts b) + 1"
    using unat_Suc_le(1)[OF i(2)] by (simp_all add: b'_def b_def)
  ultimately show ?thesis using i(1) assms(2) by (auto simp: counted_def nth_list_update b_def)
qed

lemma records_counted:
  assumes "distinct is" "xact (backends st ! MyProcNumber env) \<noteq> None"
    and "\<And>i. i \<in> set is \<Longrightarrow> i < length (backends st) \<and> (i \<noteq> MyProcNumber env \<longrightarrow>
      status (backends st ! i) = Linearized_In_Progress \<longrightarrow> unat (numconflicts (backends st ! i)) < MAX_CONFLICTS)"
  shows "\<exists>st'. for_each (record_conflict env r) is st = (Inr (), st') \<and> counted (MyProcNumber env) is st st'"
  using assms
proof (induction "is" arbitrary: st)
  case (Cons i "is")
  obtain st1 where st1: "record_conflict env r i st = (Inr (), st1)" "counted (MyProcNumber env) [i] st st1"
    using record_counted[of st env i r] Cons.prems(2) Cons.prems(3)[of i] by auto
  have "\<exists>st'. for_each (record_conflict env r) is st1 = (Inr (), st') \<and> counted (MyProcNumber env) is st1 st'"
  proof (rule Cons.IH)
    show "xact (backends st1 ! MyProcNumber env) \<noteq> None" using st1(2) Cons.prems(2) by (simp add: counted_def)
    fix k assume k: "k \<in> set is"
    then have "k \<noteq> i" "k < length (backends st)" using Cons.prems(1) Cons.prems(3)[of k] by auto
    with st1(2) have "length (backends st1) = length (backends st)" "status (backends st1 ! k) = status (backends st ! k)"
      "unat (numconflicts (backends st1 ! k)) \<le> unat (numconflicts (backends st ! k))"
      by (auto simp: counted_def)
    then show "k < length (backends st1) \<and> (k \<noteq> MyProcNumber env \<longrightarrow>
      status (backends st1 ! k) = Linearized_In_Progress \<longrightarrow> unat (numconflicts (backends st1 ! k)) < MAX_CONFLICTS)"
      using Cons.prems(3)[of k] k by auto
  qed (use Cons.prems(1) in simp)
  then obtain st' where "for_each (record_conflict env r) is st1 = (Inr (), st')" "counted (MyProcNumber env) is st1 st'"
    by blast
  then show ?case using st1 counted_trans Cons.prems(1) by (auto simp: bind_action_def)
qed (simp add: return_action_def counted_def)

lemma publish_succeeds:
  assumes "\<And>r. r \<in> set rs \<Longrightarrow> \<not> list_ex (\<lambda>l. \<not> SxactIsOurs env l \<and> lock_rel l = r) (locks env)"
    and "room (MyProcNumber env) (length rs) st" "xact (backends st ! MyProcNumber env) \<noteq> None"
  shows "\<exists>st'. for_each (publish_write env) rs st = (Inr (), st')"
  using assms
proof (induction rs arbitrary: st)
  case (Cons r rs)
  have "unat (numconflicts (backends st ! i)) < MAX_CONFLICTS"
    if "i < length (backends st)" "i \<noteq> MyProcNumber env" "status (backends st ! i) = Linearized_In_Progress" for i
  proof -
    have "unat (numconflicts (backends st ! i)) + length (r # rs) \<le> MAX_CONFLICTS"
      using Cons.prems(2) that unfolding room_def by blast
    then show ?thesis by simp
  qed
  then obtain st1 where st1: "for_each (record_conflict env r) [0..<length (backends st)] st = (Inr (), st1)"
    "counted (MyProcNumber env) [0..<length (backends st)] st st1"
    using records_counted[of "[0..<length (backends st)]" st env r] Cons.prems(3) by auto
  have "publish_write env r st = (Inr (), st1)" using st1(1) Cons.prems(1)[of r] by (simp add: publish_write_def)
  moreover have "room (MyProcNumber env) (length rs) st1"
    using room_counted[OF _ st1(2)] Cons.prems(2) by simp
  moreover have "xact (backends st1 ! MyProcNumber env) \<noteq> None" using Cons.prems(3) st1(2) by (simp add: counted_def)
  ultimately show ?case using Cons.IH[of st1] Cons.prems(1) by (auto simp: bind_action_def)
qed (simp add: return_action_def)

section \<open>Failures of a reader\<close>

lemma query_fails:
  assumes "lin_ok (MyProcNumber env) st" "linearize_enabled st" "in_conflict (backends st ! MyProcNumber env) r"
    and "\<not> modifies env (operation q)" "r \<in> set (rtable q)"
  shows "fst (linearize_executor_start env q st) = Inl linearization_failure"
proof -
  have "in_conflict (backends (adopt_xact env st) ! MyProcNumber env) r" "lin_ok (MyProcNumber env) (adopt_xact env st)"
    using assms(1,3)
    by (auto simp: adopt_xact_def update_backend_def lin_ok_def in_conflict_def nth_list_update backend_ok_def)
  moreover have "linearize_executor_start env q st =
      for_each (check_if_rel_in_conflict env) (rtable q) (adopt_xact env st)"
    using assms(2,4) by (simp add: linearize_executor_start_def Let_def)
  ultimately show ?thesis using checks_fail assms(5) by metis
qed

lemma commit_fails:
  assumes "lin_ok (MyProcNumber env) st" "linearize_enabled st" "in_conflict (backends st ! MyProcNumber env) r"
    and "r \<in> lock_rel ` set (filter (SxactIsOurs env) (locks env))"
  shows "fst (linearize_xact_callback env XACT_EVENT_PRE_COMMIT st) = Inl linearization_failure"
proof -
  let ?st = "update_backend (MyProcNumber env) (\<lambda>b. b \<lparr> status := Linearized_Committing \<rparr>) st"
  let ?rs = "map lock_rel (filter (SxactIsOurs env) (locks env))"
  have st: "in_conflict (backends ?st ! MyProcNumber env) r" "lin_ok (MyProcNumber env) ?st"
    using assms(1,3) by (auto simp: update_backend_def lin_ok_def in_conflict_def nth_list_update backend_ok_def)
  have "r \<in> set ?rs" using assms(4) by (simp only: set_map)
  from checks_fail[OF st(2) this st(1)]
  obtain st1 where "for_each (check_if_rel_in_conflict env) ?rs ?st = (Inl linearization_failure, st1)"
    by (metis prod.collapse)
  then show ?thesis
    using assms(2) by (simp add: linearize_xact_callback_def pre_commit_def bind_action_def)
qed

section \<open>Properties\<close>


lemma checks_succeed:
  assumes "lin_ok (MyProcNumber env) st" "\<And>r. r \<in> set rs \<Longrightarrow> \<not> in_conflict (backends st ! MyProcNumber env) r"
  shows "for_each (check_if_rel_in_conflict env) rs st = (Inr (), st)"
  using assms by (induction rs) (simp_all add: return_action_def bind_action_def check_result)

text \<open>
  C30: when a linearized transaction commits.  Provided the backend has adopted its serializable transaction and every
  transaction in progress has room for its writes, the commit succeeds if and only if no other transaction
  has a predicate lock on a relation it wrote and no conflict was recorded for a relation it has a predicate lock on.
\<close>

theorem commit_iff_no_conflict:
  assumes "lin_ok (MyProcNumber env) st" "linearize_enabled st" "xact (backends st ! MyProcNumber env) \<noteq> None"
    and "room (MyProcNumber env) (length (linearized_writes st)) st"
  shows "fst (linearize_xact_callback env XACT_EVENT_PRE_COMMIT st) = Inr () \<longleftrightarrow>
    list_all (\<lambda>l. if SxactIsOurs env l then in_conflict (backends st ! MyProcNumber env) (lock_rel l) = False
      else lock_rel l \<notin> set (linearized_writes st)) (locks env)"
    (is "?ok \<longleftrightarrow> ?free")
proof
  let ?me = "MyProcNumber env"
  assume ?ok
  then obtain st' where run: "linearize_xact_callback env XACT_EVENT_PRE_COMMIT st = (Inr (), st')"
    by (metis prod.collapse)
  from pre_commit_steps[OF run assms(2,1)] obtain st1 st2 where
    p: "for_each (publish_write env) (linearized_writes st) st1 = (Inr (), st2)" by (elim exE conjE)
  have "\<not> (\<not> SxactIsOurs env l \<and> lock_rel l \<in> set (linearized_writes st))" if "l \<in> set (locks env)" for l
    using for_each_mem[OF p, of "lock_rel l"] that by (auto simp: publish_write_def list_ex_iff split: if_splits)
  moreover have "\<not> in_conflict (backends st ! ?me) (lock_rel l)" if "l \<in> set (locks env)" "SxactIsOurs env l" for l
    using commit_fails[OF assms(1,2), of "lock_rel l"] run that by auto
  ultimately show ?free by (auto simp: list_all_iff)
next
  let ?me = "MyProcNumber env"
  let ?st = "update_backend ?me (\<lambda>b. b \<lparr> status := Linearized_Committing \<rparr>) st"
  assume free: ?free
  have me: "?me < length (backends st)" using assms(1) by (simp add: lin_ok_def)
  have "lin_ok ?me ?st" by (rule evolves_ok[OF evolves_own[OF assms(1)]]) (simp add: backend_ok_def)
  then have checks: "for_each (check_if_rel_in_conflict env) (map lock_rel (filter (SxactIsOurs env) (locks env))) ?st = (Inr (), ?st)"
    by (rule checks_succeed) (use free me in \<open>auto simp: list_all_iff update_backend_def in_conflict_def\<close>)
  have "\<exists>st'. for_each (publish_write env) (linearized_writes st) ?st = (Inr (), st')"
  proof (rule publish_succeeds)
    show "\<not> list_ex (\<lambda>l. \<not> SxactIsOurs env l \<and> lock_rel l = r) (locks env)" if "r \<in> set (linearized_writes st)" for r
      using free that by (auto simp: list_all_iff list_ex_iff)
    show "room ?me (length (linearized_writes st)) ?st"
      using assms(4) by (simp add: room_def update_backend_def)
    show "xact (backends ?st ! ?me) \<noteq> None" using assms(3) me by (simp add: update_backend_def)
  qed
  then show ?ok
    using checks assms(2)
    by (auto simp: linearize_xact_callback_def pre_commit_def bind_action_def update_backend_def)
qed

text \<open>
  A statement that modifies tables may start if and only if no other process has a predicate lock on one of them; the
  tables are then among those whose changes are announced at the commit.
\<close>

theorem write_iff_no_foreign_lock:
  assumes "linearize_enabled st" "modifies env (operation q)" "is_ModifyTable q"
    and "list_all (\<lambda>n. 0 < n \<and> n \<le> length (rtable q)) (resultRelations q)"
  shows "(case linearize_executor_start env q st of
      (Inr _, st') \<Rightarrow> list_all (\<lambda>n. rtable q ! (n - 1) \<in> set (linearized_writes st') \<and>
        list_all (\<lambda>l. lock_pid l = MyProcPid env \<or> lock_rel l \<noteq> rtable q ! (n - 1)) (locks env)) (resultRelations q)
    | (Inl e, _) \<Rightarrow> e = linearization_failure \<and>
        list_ex (\<lambda>n. list_ex (\<lambda>l. lock_pid l \<noteq> MyProcPid env \<and> lock_rel l = rtable q ! (n - 1)) (locks env)) (resultRelations q))"
proof -
  let ?st = "adopt_xact env st"
  obtain res st' where run: "for_each (register_write env q) (resultRelations q) ?st = (res, st')" by force
  have start: "linearize_executor_start env q st = (res, st')"
    using assms(1-3) run by (simp add: linearize_executor_start_def Let_def)
  show ?thesis
  proof (cases res)
    case (Inr u)
    then have r: "for_each (register_write env q) (resultRelations q) ?st = (Inr (), st')" using run by simp
    have "list_all (\<lambda>l. lock_pid l = MyProcPid env \<or> lock_rel l \<noteq> rtable q ! (n - 1)) (locks env)"
      if "n \<in> set (resultRelations q)" for n
      using for_each_mem[OF r that] by (auto simp: register_write_def Let_def list_ex_iff list_all_iff split: if_splits)
    then show ?thesis using registered[OF r] start Inr by (auto simp: list_all_iff)
  next
    case (Inl e)
    have "e = linearization_failure \<and>
        list_ex (\<lambda>n. list_ex (\<lambda>l. lock_pid l \<noteq> MyProcPid env \<and> lock_rel l = rtable q ! (n - 1)) (locks env)) ns"
      if "for_each (register_write env q) ns st = (Inl e, st')" "list_all (\<lambda>n. 0 < n \<and> n \<le> length (rtable q)) ns" for ns st
      using that
      by (induction ns arbitrary: st)
        (auto simp: return_action_def bind_action_def register_write_def Let_def split: if_splits)
    from this[OF run[unfolded Inl] assms(4)] start Inl show ?thesis by simp
  qed
qed

section \<open>Witnesses\<close>

definition lin_demo_backend :: "nat \<Rightarrow> LinearizedBackend" where
  "lin_demo_backend x = \<lparr> status = Linearized_In_Progress, xact = Some x, numconflicts = 0,
     conflicts = replicate MAX_CONFLICTS \<lparr> txid = 0, rel = 0 \<rparr> \<rparr>"

definition lin_demo_sys :: lin_sys where
  "lin_demo_sys = \<lparr> shared = [lin_demo_backend 10, lin_demo_backend 11], enabled = (\<lambda>_. True),
     writes = (\<lambda>k. if k = 1 then [77] else []) \<rparr>"

definition lin_demo_env :: "nat \<Rightarrow> PredicateLock list \<Rightarrow> lin_env" where
  "lin_demo_env k ls = \<lparr> PG_MAJORVERSION_NUM = 17, MyProcNumber = k, MyProcPid = 500 + k, locks = ls,
     ShareSerializableXact = Some (10 + k), topXid = (\<lambda>x. of_nat (700 + x)) \<rparr>"

definition lin_demo_query :: "CmdType \<Rightarrow> QueryDesc" where
  "lin_demo_query cmd = \<lparr> operation = cmd, is_ModifyTable = True, resultRelations = [1], rtable = [77] \<rparr>"

lemma lin_demo_backend_ok: "backend_ok (lin_demo_backend x)"
  by (simp add: backend_ok_def lin_demo_backend_def)

lemma lin_demo_sys_ok: "sys_ok lin_demo_sys"
  by (simp add: sys_ok_def lin_demo_sys_def lin_demo_backend_ok)

lemma lin_demo_commit:
  "\<exists>st'. linearize_xact_callback (lin_demo_env 1 []) XACT_EVENT_PRE_COMMIT (view 1 lin_demo_sys) = (Inr (), st')"
  by (simp add: linearize_xact_callback_def pre_commit_def bind_action_def return_action_def view_def lin_demo_sys_def
      lin_demo_env_def update_backend_def publish_write_def record_conflict_def lin_demo_backend_def MAX_CONFLICTS_def
      upt_rec Let_def)

text \<open>The reader starts an insertion into the table 99 after the commit of the writer.\<close>

definition lin_demo_insert :: QueryDesc where
  "lin_demo_insert = \<lparr> operation = CMD_INSERT, is_ModifyTable = True, resultRelations = [1], rtable = [99] \<rparr>"

lemma lin_demo_statement:
  "\<exists>st2. linearize_executor_start (lin_demo_env 0 []) lin_demo_insert (view 0 (put 1 st' lin_demo_sys)) = (Inr (), st2)"
  by (simp add: linearize_executor_start_def lin_demo_insert_def modifies_def view_def put_def lin_demo_sys_def
      lin_demo_env_def register_write_def Let_def bind_action_def return_action_def)


abbreviation foreign_lock :: PredicateLock where
  "foreign_lock \<equiv> \<lparr> lock_rel = 77, lock_pid = 500, lock_pgprocno = 0 \<rparr>"

theorem commit_iff_no_conflict_witness:
  "fst (linearize_xact_callback (lin_demo_env 1 [foreign_lock]) XACT_EVENT_PRE_COMMIT (view 1 lin_demo_sys)) \<noteq> Inr ()"
proof -
  have "lin_ok 1 (view 1 lin_demo_sys)" using lin_ok_view[OF lin_demo_sys_ok, of 1] by (simp add: lin_demo_sys_def)
  moreover have "MyProcNumber (lin_demo_env 1 [foreign_lock]) = 1" "locks (lin_demo_env 1 [foreign_lock]) = [foreign_lock]"
    "\<not> SxactIsOurs (lin_demo_env 1 [foreign_lock]) foreign_lock"
    by (simp_all add: lin_demo_env_def SxactIsOurs_def)
  moreover have "linearize_enabled (view 1 lin_demo_sys)" "linearized_writes (view 1 lin_demo_sys) = [77]"
    "xact (backends (view 1 lin_demo_sys) ! 1) \<noteq> None" "room 1 1 (view 1 lin_demo_sys)"
    by (auto simp: view_def lin_demo_sys_def lin_demo_backend_def room_def MAX_CONFLICTS_def less_Suc_eq)
  ultimately show ?thesis
    using commit_iff_no_conflict[of "lin_demo_env 1 [foreign_lock]" "view 1 lin_demo_sys"] by simp
qed

theorem write_iff_no_foreign_lock_witness:
  "77 \<in> set (linearized_writes (snd (linearize_executor_start (lin_demo_env 0 []) (lin_demo_query CMD_INSERT) (view 0 lin_demo_sys))))"
proof -
  obtain res st' where run: "linearize_executor_start (lin_demo_env 0 []) (lin_demo_query CMD_INSERT) (view 0 lin_demo_sys) = (res, st')"
    by force
  have "locks (lin_demo_env 0 []) = []" by (simp add: lin_demo_env_def)
  then show ?thesis
    using write_iff_no_foreign_lock[of "view 0 lin_demo_sys" "lin_demo_env 0 []" "lin_demo_query CMD_INSERT"] unfolding run
    by (auto simp: view_def lin_demo_sys_def modifies_def lin_demo_query_def split: sum.splits)
qed

end
