(* ===== verification/Omni_Retry.thy ===== *)
theory Omni_Retry
  imports Omni_Prelude
begin

text \<open>
  Retrying transactions: \<open>src/extensions/omni_txn/retry.c\<close>.

  The static variables are the record \<open>retry_state\<close>.  What PostgreSQL and the statements do is given by
  \<open>retry_env\<close>: \<open>attempt_result n\<close> is the outcome of the \<open>n\<close>th execution and commit, counted from 0, and
  \<open>jittered n b\<close> is the \<open>n\<close>th random number between 0 and 1 times \<open>b\<close>, cut to an integer.  The events of a
  call are what it asks PostgreSQL to do, in order.  \<open>SPI_prepare\<close> raises an error, or returns a plan
  (\<open>True\<close>) or a null pointer.
\<close>

section \<open>Backing off\<close>

definition get_backoff :: "int \<Rightarrow> int \<Rightarrow> nat \<Rightarrow> int" where
  "get_backoff cap base attempt = min cap (base * 2 ^ min attempt 30)"

definition backoff_jitter :: "(int \<Rightarrow> int) \<Rightarrow> int \<Rightarrow> int \<Rightarrow> nat \<Rightarrow> int" where
  "backoff_jitter jitter cap base attempt =
     (let ret = jitter (get_backoff cap base attempt) in if ret > 0 then ret else 1)"

definition cap_sleep_microsecs :: int where "cap_sleep_microsecs = 10000"
definition base_sleep_microsecs :: int where "base_sleep_microsecs = 1"

section \<open>State\<close>

datatype isolation = XACT_READ_COMMITTED | XACT_REPEATABLE_READ | XACT_SERIALIZABLE

text \<open>A prepared plan: the statements and the types of the parameters it was prepared for.\<close>

type_synonym plan = "string \<times> Oid list"

text \<open>
  The plan of an entry is \<open>None\<close>, the null pointer, as long as it has not been assigned: the
  hash table zeroes its entries.
\<close>

record retry_state =
  backoff_values :: "int list"
  retry_attempts :: nat
  stmthash :: "(string, plan option) htab"

datatype param = Param (param_type: Oid) (param_null: bool)

record retry_args =
  stmts :: "string option"
  max_attempts_arg :: "int option"
  repeatable_read :: "bool option"
  collect_backoff :: "bool option"
  params :: "param list option"
  linearize_arg :: "bool option"

record retry_env =
  IsTransactionBlock :: bool
  ActiveSnapshotSet :: bool
  XactIsoLevel :: isolation
  UNKNOWNOID :: Oid
  SPI_prepare :: "string \<Rightarrow> Oid list \<Rightarrow> bool outcome"
  attempt_result :: "nat \<Rightarrow> unit outcome"
  jittered :: "nat \<Rightarrow> int \<Rightarrow> int"

datatype event =
    SPI_rollback
  | Linearize_transaction
  | BeginInternalSubTransaction isolation
  | SPI_execute_plan "plan option" "bool list"
  | SPI_commit
  | RollbackAndReleaseCurrentSubTransaction
  | SPI_rollback_and_chain
  | Pg_sleep int

type_synonym retry_result = "unit outcome \<times> retry_state \<times> event list"

section \<open>The loop\<close>

text \<open>
  One execution: the events of a success and of the two kinds of failure.  \<open>tries\<close> counts the
  executions so far; \<open>retry_attempts\<close> is a 32-bit integer.  Given a null pointer, \<open>SPI_execute_plan\<close> returns
  an error code that the code does not look at, and the empty transaction is committed.
\<close>

definition is_serialization_failure :: "pg_error \<Rightarrow> bool" where
  "is_serialization_failure e = (case e of Ereport code _ \<Rightarrow> code = ERRCODE_T_R_SERIALIZATION_FAILURE | _ \<Rightarrow> False)"

definition too_many_retries :: pg_error where
  "too_many_retries = Ereport ERRCODE_T_R_SERIALIZATION_FAILURE ''maximum number of retries has been attempted''"

function retry_loop ::
  "retry_env \<Rightarrow> int \<Rightarrow> bool \<Rightarrow> isolation \<Rightarrow> plan option \<Rightarrow> bool list \<Rightarrow> retry_state \<Rightarrow> retry_result" where
  "retry_loop env max_attempts collect level p nulls st =
     (let tries = retry_attempts st; start = [BeginInternalSubTransaction level, SPI_execute_plan p nulls] in
      case (if p = None then Inr () else attempt_result env tries) of
        Inr _ \<Rightarrow> (Inr (), st, start @ [SPI_commit])
      | Inl e \<Rightarrow>
          if is_serialization_failure e then
            (let attempts = Suc tries in
             if int attempts \<ge> 2 ^ 31 then (Inl (Crash ''retry_attempts overflows''), st, start)
             else if int attempts \<le> max_attempts then
               (let us = backoff_jitter (jittered env tries) cap_sleep_microsecs base_sleep_microsecs attempts;
                    st = st \<lparr> retry_attempts := attempts,
                      backoff_values := (if collect then backoff_values st @ [us] else backoff_values st) \<rparr>;
                    (r, st', events) = retry_loop env max_attempts collect level p nulls st
                in (r, st', start @ [RollbackAndReleaseCurrentSubTransaction, SPI_rollback_and_chain, Pg_sleep us] @ events))
             else (Inl too_many_retries, st \<lparr> retry_attempts := attempts \<rparr>,
                   start @ [RollbackAndReleaseCurrentSubTransaction, SPI_rollback]))
          else (Inl e, st \<lparr> retry_attempts := 0 \<rparr>, start @ [RollbackAndReleaseCurrentSubTransaction]))"
  by pat_completeness auto
termination
  by (relation "measure (\<lambda>(env, m, collect, level, p, nulls, st). nat (m - int (retry_attempts st)))") auto

declare retry_loop.simps [simp del]

section \<open>The functions\<close>

definition init_preparedstmthash :: "retry_state \<Rightarrow> retry_state" where
  "init_preparedstmthash st = st \<lparr> stmthash := [] \<rparr>"

definition retry :: "retry_env \<Rightarrow> retry_args \<Rightarrow> retry_state \<Rightarrow> retry_result" where
  "retry env args st =
     (case stmts args of
        None \<Rightarrow> (elog_error ''transaction statements argument is required'', st, [])
      | Some cstmts \<Rightarrow>
          if IsTransactionBlock env then (elog_error ''can't be used inside of a transaction block'', st, [])
          else
            (let max_attempts = (case max_attempts_arg args of Some n \<Rightarrow> n | None \<Rightarrow> 10);
                 collect = (case collect_backoff args of Some b \<Rightarrow> b | None \<Rightarrow> False);
                 level = (if repeatable_read args = Some True then XACT_REPEATABLE_READ else XACT_SERIALIZABLE);
                 ps = (case params args of Some ps \<Rightarrow> ps | None \<Rightarrow> [])
             in if list_ex (\<lambda>q. param_type q = UNKNOWNOID env) ps
                then (elog_error ''query parameter is of unknown type'', st, [])
                else
                  (let pre = (if ActiveSnapshotSet env \<and> XactIsoLevel env \<noteq> level then [SPI_rollback] else [])
                         @ (if linearize_arg args = Some True then [Linearize_transaction] else []);
                       st = st \<lparr> backoff_values := (if collect then [] else backoff_values st), retry_attempts := 0 \<rparr>;
                       found = hash_find (stmthash st) cstmts
                   in case found of
                        None \<Rightarrow>
                          (case SPI_prepare env cstmts (map param_type ps) of
                             Inl e \<Rightarrow> (Inl e, st \<lparr> stmthash := hash_enter cstmts None (stmthash st) \<rparr>, pre)
                           | Inr prepared \<Rightarrow>
                               (let p = (if prepared then Some (cstmts, map param_type ps) else None);
                                    st = st \<lparr> stmthash := hash_enter cstmts p (stmthash st) \<rparr>;
                                    (r, st, events) = retry_loop env max_attempts collect level p (map param_null ps) st
                                in (r, st, pre @ events)))
                      | Some p \<Rightarrow>
                          (let (r, st, events) = retry_loop env max_attempts collect level p (map param_null ps) st
                           in (r, st, pre @ events)))))"

definition current_retry_attempt :: "retry_state \<Rightarrow> nat" where
  "current_retry_attempt st = retry_attempts st"

definition retry_backoff_values :: "retry_state \<Rightarrow> int list" where
  "retry_backoff_values st = backoff_values st"

definition retry_prepared_statements :: "retry_state \<Rightarrow> string list" where
  "retry_prepared_statements st = map fst (stmthash st)"

definition reset_retry_prepared_statements :: "retry_state \<Rightarrow> retry_state" where
  "reset_retry_prepared_statements st = init_preparedstmthash st"

section \<open>A reference for the loop\<close>

text \<open>
  The first outcome that is no serialization failure settles the call, if it comes within the allowed number of
  attempts.
\<close>

definition to_retry :: "unit outcome \<Rightarrow> bool" where
  "to_retry r = (case r of Inl e \<Rightarrow> is_serialization_failure e | Inr _ \<Rightarrow> False)"

definition outcomes :: "retry_env \<Rightarrow> int \<Rightarrow> nat \<Rightarrow> unit outcome list" where
  "outcomes env m t = map (attempt_result env) [t..<Suc (max t (nat m))]"

definition settled :: "unit outcome list \<Rightarrow> unit outcome" where
  "settled rs = (case dropWhile to_retry rs of [] \<Rightarrow> Inl too_many_retries | r # _ \<Rightarrow> r)"

fun is_execution :: "event \<Rightarrow> bool" where
  "is_execution (SPI_execute_plan p nulls) = (p \<noteq> None)"
| "is_execution _ = False"

lemma outcomes_unfold:
  "outcomes env m t = attempt_result env t # (if int (Suc t) \<le> m then outcomes env m (Suc t) else [])"
proof (cases "int (Suc t) \<le> m")
  case True
  then have "max t (nat m) = nat m" "max (Suc t) (nat m) = nat m" "t < Suc (nat m)" by linarith+
  then show ?thesis using True by (simp add: outcomes_def upt_conv_Cons)
next
  case False
  then have "max t (nat m) = t" by linarith
  then show ?thesis using False by (simp add: outcomes_def)
qed

text \<open>What a run of the loop from \<open>retry_attempts = t\<close> does.\<close>

definition loop_ok :: "unit outcome list \<Rightarrow> retry_result \<Rightarrow> bool" where
  "loop_ok rs res = (case res of (r, st', events) \<Rightarrow>
     r = settled rs \<and>
     length (filter is_execution events) = min (length rs) (Suc (length (takeWhile to_retry rs))) \<and>
     count_list events SPI_commit = (case r of Inr _ \<Rightarrow> 1 | Inl _ \<Rightarrow> 0))"

lemma retry_loop_ok:
  assumes "m < 2 ^ 31 - 1" "int (retry_attempts st) < 2 ^ 31 - 1"
  shows "loop_ok (outcomes env m (retry_attempts st)) (retry_loop env m collect level (Some p) nulls st)"
  using assms
proof (induction "nat (m - int (retry_attempts st))" arbitrary: st rule: less_induct)
  case less
  let ?t = "retry_attempts st"
  have small: "int (Suc ?t) < 2 ^ 31" using less.prems(2) by simp
  show ?case
  proof (cases "attempt_result env ?t")
    case (Inr u)
    then show ?thesis
      by (subst retry_loop.simps) (simp add: outcomes_unfold loop_ok_def settled_def to_retry_def Let_def)
  next
    case (Inl e)
    note fail = Inl
    show ?thesis
    proof (cases "is_serialization_failure e")
      case False
      then show ?thesis using fail
        by (subst retry_loop.simps) (simp add: outcomes_unfold loop_ok_def settled_def to_retry_def Let_def)
    next
      case True
      show ?thesis
      proof (cases "int (Suc ?t) \<le> m")
        case False
        then show ?thesis using fail True small
          by (subst retry_loop.simps)
            (simp add: outcomes_unfold loop_ok_def settled_def to_retry_def Let_def)
      next
        case le: True
        define us where "us = backoff_jitter (jittered env ?t) cap_sleep_microsecs base_sleep_microsecs (Suc ?t)"
        define st1 where "st1 = st \<lparr> retry_attempts := Suc ?t,
          backoff_values := (if collect then backoff_values st @ [us] else backoff_values st) \<rparr>"
        obtain r st' events where rec: "retry_loop env m collect level (Some p) nulls st1 = (r, st', events)"
          using prod_cases3 by blast
        have "loop_ok (outcomes env m (Suc ?t)) (r, st', events)"
          using less.hyps[of st1] le less.prems(1) by (simp add: st1_def[symmetric] rec) (simp add: st1_def)
        moreover have "retry_loop env m collect level (Some p) nulls st =
          (r, st', [BeginInternalSubTransaction level, SPI_execute_plan (Some p) nulls,
             RollbackAndReleaseCurrentSubTransaction, SPI_rollback_and_chain, Pg_sleep us] @ events)"
          using fail True small le rec
          by (subst retry_loop.simps) (simp add: Let_def us_def[symmetric] st1_def[symmetric])
        ultimately show ?thesis
          using fail True le by (simp add: outcomes_unfold[of env m ?t] loop_ok_def settled_def to_retry_def)
      qed
    qed
  qed
qed

section \<open>Sleeping\<close>

fun sleeps :: "event list \<Rightarrow> int list" where
  "sleeps [] = []"
| "sleeps (Pg_sleep us # events) = us # sleeps events"
| "sleeps (_ # events) = sleeps events"

lemma sleeps_append: "sleeps (xs @ ys) = sleeps xs @ sleeps ys"
  by (induction xs rule: sleeps.induct) simp_all

definition jitter_ok :: "retry_env \<Rightarrow> bool" where
  "jitter_ok env \<longleftrightarrow> (\<forall>n b. 0 \<le> b \<longrightarrow> 0 \<le> jittered env n b \<and> jittered env n b \<le> b)"

definition sleep_ok :: "nat \<Rightarrow> int \<Rightarrow> bool" where
  "sleep_ok attempt us \<longleftrightarrow> 1 \<le> us \<and> us \<le> 10000 \<and> us \<le> 2 ^ attempt"

lemma backoff_sleep_ok:
  assumes "jitter_ok env"
  shows "sleep_ok attempt (backoff_jitter (jittered env n) cap_sleep_microsecs base_sleep_microsecs attempt)"
proof -
  define b where "b = get_backoff cap_sleep_microsecs base_sleep_microsecs attempt"
  have "(2::int) ^ min attempt 30 \<le> 2 ^ attempt" by (intro power_increasing) simp_all
  moreover have "(1::int) \<le> 2 ^ min attempt 30" by simp
  ultimately have "1 \<le> b" "b \<le> 10000" "b \<le> 2 ^ attempt"
    by (simp_all add: b_def get_backoff_def cap_sleep_microsecs_def base_sleep_microsecs_def min_le_iff_disj)
  moreover have "0 \<le> jittered env n b \<and> jittered env n b \<le> b"
    using assms \<open>1 \<le> b\<close> by (simp add: jitter_ok_def)
  ultimately show ?thesis by (simp add: sleep_ok_def backoff_jitter_def Let_def b_def[symmetric])
qed

fun all_sleeps_ok :: "nat \<Rightarrow> int list \<Rightarrow> bool" where
  "all_sleeps_ok t [] = True"
| "all_sleeps_ok t (us # rest) = (sleep_ok (Suc t) us \<and> all_sleeps_ok (Suc t) rest)"

lemma retry_loop_sleeps:
  assumes "jitter_ok env" "retry_loop env m collect level p nulls st = (r, st', events)"
  shows "all_sleeps_ok (retry_attempts st) (sleeps events) \<and>
    backoff_values st' = backoff_values st @ (if collect then sleeps events else [])"
  using assms(2)
proof (induction "nat (m - int (retry_attempts st))" arbitrary: st events rule: less_induct)
  case less
  let ?t = "retry_attempts st"
  define us where "us = backoff_jitter (jittered env ?t) cap_sleep_microsecs base_sleep_microsecs (Suc ?t)"
  define st1 where "st1 = st \<lparr> retry_attempts := Suc ?t,
    backoff_values := (if collect then backoff_values st @ [us] else backoff_values st) \<rparr>"
  obtain r1 st1' events1 where rec: "retry_loop env m collect level p nulls st1 = (r1, st1', events1)"
    using prod_cases3 by blast
  show ?case
  proof (cases "\<exists>e. (if p = None then Inr () else attempt_result env ?t) = Inl e \<and> is_serialization_failure e \<and>
      int (Suc ?t) < 2 ^ 31 \<and> int (Suc ?t) \<le> m")
    case True
    then have "r = r1 \<and> st' = st1' \<and> sleeps events = us # sleeps events1"
      using less.prems rec unfolding retry_loop.simps[of env m collect level p nulls st]
      by (auto simp: Let_def us_def[symmetric] st1_def[symmetric] sleeps_append split: if_splits)
    moreover have "all_sleeps_ok (Suc ?t) (sleeps events1) \<and>
        backoff_values st1' = backoff_values st1 @ (if collect then sleeps events1 else [])"
      using less.hyps[of st1 events1] True rec calculation by (auto simp: st1_def)
    ultimately show ?thesis using backoff_sleep_ok[OF assms(1)] by (simp add: us_def st1_def)
  next
    case False
    then show ?thesis
      using less.prems unfolding retry_loop.simps[of env m collect level p nulls st]
      by (auto simp: Let_def sleeps_append split: if_splits sum.splits)
  qed
qed

section \<open>Properties\<close>

definition max_attempts_of :: "retry_args \<Rightarrow> int" where
  "max_attempts_of args = (case max_attempts_arg args of Some n \<Rightarrow> n | None \<Rightarrow> 10)"

definition param_types :: "retry_args \<Rightarrow> Oid list" where
  "param_types args = map param_type (case params args of Some ps \<Rightarrow> ps | None \<Rightarrow> [])"

text \<open>A call that gets as far as executing the statements.\<close>

definition runs :: "retry_env \<Rightarrow> retry_args \<Rightarrow> retry_state \<Rightarrow> string \<Rightarrow> bool" where
  "runs env args st s \<longleftrightarrow> stmts args = Some s \<and> \<not> IsTransactionBlock env \<and>
     UNKNOWNOID env \<notin> set (param_types args) \<and>
     (case hash_find (stmthash st) s of
        None \<Rightarrow> SPI_prepare env s (param_types args) = Inr True
      | Some p \<Rightarrow> p \<noteq> None)"

text \<open>What the loop of such a call works on, and what comes before it.\<close>

definition collects :: "retry_args \<Rightarrow> bool" where
  "collects args = (case collect_backoff args of Some b \<Rightarrow> b | None \<Rightarrow> False)"

definition level_of :: "retry_args \<Rightarrow> isolation" where
  "level_of args = (if repeatable_read args = Some True then XACT_REPEATABLE_READ else XACT_SERIALIZABLE)"

definition events_before :: "retry_env \<Rightarrow> retry_args \<Rightarrow> event list" where
  "events_before env args =
     (if ActiveSnapshotSet env \<and> XactIsoLevel env \<noteq> level_of args then [SPI_rollback] else [])
     @ (if linearize_arg args = Some True then [Linearize_transaction] else [])"

definition plan_used :: "retry_args \<Rightarrow> retry_state \<Rightarrow> string \<Rightarrow> plan" where
  "plan_used args st s = (case hash_find (stmthash st) s of Some (Some q) \<Rightarrow> q | _ \<Rightarrow> (s, param_types args))"

definition state_before :: "retry_args \<Rightarrow> retry_state \<Rightarrow> string \<Rightarrow> retry_state" where
  "state_before args st s = st \<lparr> backoff_values := (if collects args then [] else backoff_values st), retry_attempts := 0,
     stmthash := (if hash_find (stmthash st) s = None then hash_enter s (Some (plan_used args st s)) (stmthash st) else stmthash st) \<rparr>"

definition nulls_of :: "retry_args \<Rightarrow> bool list" where
  "nulls_of args = map param_null (case params args of Some ps \<Rightarrow> ps | None \<Rightarrow> [])"

lemma retry_runs:
  assumes "runs env args st s"
  shows "retry env args st =
    (case retry_loop env (max_attempts_of args) (collects args) (level_of args) (Some (plan_used args st s)) (nulls_of args)
       (state_before args st s) of (r, st', events) \<Rightarrow> (r, st', events_before env args @ events))"
proof -
  define ps where "ps = (case params args of Some ps \<Rightarrow> ps | None \<Rightarrow> [])"
  have "UNKNOWNOID env \<notin> param_type ` set ps"
    using assms unfolding runs_def param_types_def set_map ps_def by blast
  then have known: "\<not> list_ex (\<lambda>q. param_type q = UNKNOWNOID env) ps" unfolding list_ex_iff by (metis imageI)
  note defs = retry_def runs_def Let_def state_before_def plan_used_def max_attempts_of_def param_types_def
    collects_def[symmetric] level_of_def[symmetric] events_before_def nulls_of_def ps_def[symmetric]
  show ?thesis
  proof (cases "hash_find (stmthash st) s")
    case None
    then show ?thesis using assms known by (simp add: defs split: prod.splits)
  next
    case (Some q)
    then obtain q' where "q = Some q'" using assms by (auto simp: runs_def)
    with Some show ?thesis using assms known by (simp add: defs split: prod.splits)
  qed
qed

lemma before_nothing_runs:
  "filter is_execution (events_before env args) = []" "count_list (events_before env args) SPI_commit = 0"
  "sleeps (events_before env args) = []"
  by (simp_all add: events_before_def)


text \<open>
  C37: the time slept before another attempt.  It is at least a microsecond and at most 10 milliseconds, and before
  attempt \<open>n\<close> at most \<open>2 ^ n\<close> microseconds; if it is asked for, the values are collected, all of this call
  and none of an earlier one.
\<close>

theorem sleeps_bounded:
  assumes "runs env args st s" "jitter_ok env" "retry env args st = (r, st', events)"
  shows "all_sleeps_ok 0 (sleeps events) \<and>
    retry_backoff_values st' = (if collects args then sleeps events else retry_backoff_values st)"
proof -
  obtain r1 st1 events1 where run: "retry_loop env (max_attempts_of args) (collects args) (level_of args)
      (Some (plan_used args st s)) (nulls_of args) (state_before args st s) = (r1, st1, events1)"
    using prod_cases3 by blast
  then have "st' = st1" "sleeps events = sleeps events1"
    using assms(3) unfolding retry_runs[OF assms(1)] by (auto simp: sleeps_append before_nothing_runs)
  then show ?thesis
    using retry_loop_sleeps[OF assms(2) run] by (simp add: state_before_def retry_backoff_values_def)
qed

text \<open>
  After the statements could not be prepared, the next call with the same statements reports success and does not execute
  anything, whatever its parameters.
\<close>

theorem failed_preparation_then_success:
  assumes "stmts args = Some s" "\<not> IsTransactionBlock env" "UNKNOWNOID env \<notin> set (param_types args)"
    and "hash_find (stmthash st) s = None" "SPI_prepare env s (param_types args) = Inl e"
    and "stmts args' = Some s" "\<not> IsTransactionBlock env'" "UNKNOWNOID env' \<notin> set (param_types args')"
  shows "case retry env args st of (r, st', _) \<Rightarrow> r = Inl e \<and>
    (case retry env' args' st' of (r', _, events) \<Rightarrow> r' = Inr () \<and> filter is_execution events = [])"
proof -
  define ps where "ps = (case params args of Some ps \<Rightarrow> ps | None \<Rightarrow> [])"
  define ps' where "ps' = (case params args' of Some ps \<Rightarrow> ps | None \<Rightarrow> [])"
  have "UNKNOWNOID env \<notin> param_type ` set ps" "UNKNOWNOID env' \<notin> param_type ` set ps'"
    using assms(3,8) unfolding param_types_def set_map ps_def ps'_def by blast+
  then have known: "\<not> list_ex (\<lambda>q. param_type q = UNKNOWNOID env) ps" "\<not> list_ex (\<lambda>q. param_type q = UNKNOWNOID env') ps'"
    unfolding list_ex_iff by (metis imageI)+
  obtain st1 pre where call1: "retry env args st = (Inl e, st1, pre)" "hash_find (stmthash st1) s = Some None"
    using assms(1,2,4,5) known(1)
    by (simp add: retry_def Let_def ps_def[symmetric] param_types_def htab_simps)
  have "retry_loop env' m collect level None nulls st2 =
      (Inr (), st2, [BeginInternalSubTransaction level, SPI_execute_plan None nulls, SPI_commit])" for m collect level nulls st2
    by (subst retry_loop.simps) (simp add: Let_def)
  then show ?thesis
    using call1 assms(6,7) known(2) by (simp add: retry_def Let_def ps'_def[symmetric])
qed

section \<open>Witnesses\<close>

definition retry_demo_env :: "bool outcome \<Rightarrow> retry_env" where
  "retry_demo_env prep = \<lparr> IsTransactionBlock = False, ActiveSnapshotSet = True, XactIsoLevel = XACT_READ_COMMITTED,
     UNKNOWNOID = 705, SPI_prepare = (\<lambda>_ _. prep),
     attempt_result = (\<lambda>n. if n < 2 then Inl (Ereport ERRCODE_T_R_SERIALIZATION_FAILURE ''conflict'') else Inr ()),
     jittered = (\<lambda>_ b. max 0 (b - 1)) \<rparr>"

definition out_of_memory :: pg_error where
  "out_of_memory = Ereport ERRCODE_OTHER ''out of memory''"

definition retry_demo_args :: retry_args where
  "retry_demo_args = \<lparr> stmts = Some ''select 1'', max_attempts_arg = Some 3, repeatable_read = None, collect_backoff = Some True,
     params = Some [Param 23 False], linearize_arg = None \<rparr>"

definition retry_demo_state :: retry_state where
  "retry_demo_state = \<lparr> backoff_values = [7], retry_attempts = 0, stmthash = [] \<rparr>"

lemma retry_demo_runs: "runs (retry_demo_env (Inr True)) retry_demo_args retry_demo_state ''select 1''"
  by (simp add: runs_def retry_demo_env_def retry_demo_args_def retry_demo_state_def param_types_def htab_simps)


theorem sleeps_bounded_witness:
  "case retry (retry_demo_env (Inr True)) retry_demo_args retry_demo_state of (r, st', events) \<Rightarrow>
     all_sleeps_ok 0 (sleeps events) \<and> retry_backoff_values st' = sleeps events"
proof -
  obtain r st' events where run: "retry (retry_demo_env (Inr True)) retry_demo_args retry_demo_state = (r, st', events)"
    using prod_cases3 by blast
  have "jitter_ok (retry_demo_env (Inr True))" by (auto simp: jitter_ok_def retry_demo_env_def)
  moreover have "collects retry_demo_args" by (simp add: collects_def retry_demo_args_def)
  ultimately show ?thesis using sleeps_bounded[OF retry_demo_runs _ run] by (simp add: run)
qed

theorem failed_preparation_then_success_witness:
  "case retry (retry_demo_env (Inl out_of_memory)) retry_demo_args retry_demo_state of (r, st', _) \<Rightarrow>
     (case retry (retry_demo_env (Inr True)) retry_demo_args st' of (r', _, events) \<Rightarrow> r' = Inr () \<and> filter is_execution events = [])"
  using failed_preparation_then_success[of retry_demo_args "''select 1''" "retry_demo_env (Inl out_of_memory)" retry_demo_state
      out_of_memory retry_demo_args "retry_demo_env (Inr True)"] retry_demo_runs
  by (auto simp: runs_def retry_demo_env_def retry_demo_state_def htab_simps split: prod.splits)

end
