(* ===== verification/Omni_Sum_Type.thy ===== *)
theory Omni_Sum_Type
  imports Omni_Prelude "HOL-Library.Sublist"
begin

text \<open>
  Sum types: \<open>src/extensions/omni_types/sum_type.c\<close> and \<open>sum_type.h\<close>.

  A value of a sum type is the list of its bytes: the whole of a \<open>FixedSizeVariant\<close>, or for a sum type of
  variable size what follows the header of the \<open>varlena\<close>, a \<open>VarSizeVariant\<close>.  Words are stored with
  their least significant byte first.  Memory from \<open>palloc\<close> has arbitrary contents, the argument \<open>garbage\<close>; a
  read that goes past the end of a value sees the bytes \<open>beyond\<close>.  The state is the cache
  \<open>sumtypehash\<close> of the backend.  \<open>sum_env\<close> is what PostgreSQL answers: its catalogs, the rows of the table
  \<open>omni_types.sum_types\<close>, the snapshot, and the functions of the variant types.
\<close>

unbundle bit_operations_syntax

section \<open>Catalogs\<close>

datatype typtype = TYPTYPE_BASE | TYPTYPE_COMPOSITE | TYPTYPE_DOMAIN | TYPTYPE_OTHER

record pg_type =
  typname :: string
  typlen :: int
  typbyval :: bool
  typtype :: typtype
  typpseudo :: bool
  typelem :: Oid
  typinput :: Oid
  typoutput :: Oid
  typreceive :: Oid
  typsend :: Oid
  typmodin :: Oid

datatype access_method = btree | hash

record SumTypeCacheEntry =
  entry_xmin :: TransactionId
  variant_type_oids :: "Oid list"
  variant_eq_ops :: "Oid list"
  variant_opc_hash :: "Oid list"
  variant_opc_btree :: "Oid list"

type_synonym sumtypehash = "(Oid, SumTypeCacheEntry) htab"

text \<open>
  \<open>freed_slot_xmin e\<close> is what the field \<open>xmin\<close> of the slot of the entry \<open>e\<close> reads after the entry was deleted from
  the table: the old value, or that of an entry that the deletion moved into the slot.  The functions of
  a type are called by their object id.
\<close>

record sum_env =
  syscache_type :: "Oid \<Rightarrow> pg_type option"
  sum_types :: "(Oid \<times> Oid list) list"
  active_snapshot_xmin :: "TransactionId option"
  freed_slot_xmin :: "SumTypeCacheEntry \<Rightarrow> TransactionId"
  OpernameGetOprid :: "string \<Rightarrow> Oid \<Rightarrow> Oid"
  OpernameGetCandidates :: "string \<Rightarrow> Oid list"
  func_match_argtypes :: "Oid \<Rightarrow> Oid list \<Rightarrow> Oid list"
  func_select_candidate :: "Oid \<Rightarrow> Oid list \<Rightarrow> Oid option"
  GetDefaultOpClass :: "Oid \<Rightarrow> access_method \<Rightarrow> Oid"
  support_proc :: "Oid \<Rightarrow> Oid \<Rightarrow> Oid"
  get_opcode :: "Oid \<Rightarrow> Oid"
  format_type_be :: "Oid \<Rightarrow> string"
  makeArrayTypeName :: "string \<Rightarrow> string"
  call_input :: "Oid \<Rightarrow> string \<Rightarrow> Oid \<Rightarrow> 32 word \<Rightarrow> Datum outcome"
  call_output :: "Oid \<Rightarrow> Datum \<Rightarrow> string"
  call_receive :: "Oid \<Rightarrow> byte list \<Rightarrow> Oid \<Rightarrow> 32 word \<Rightarrow> Datum outcome"
  call_send :: "Oid \<Rightarrow> Datum \<Rightarrow> byte list"
  call_bool :: "Oid \<Rightarrow> Datum \<Rightarrow> Datum \<Rightarrow> bool"
  call_cmp :: "Oid \<Rightarrow> Datum \<Rightarrow> Datum \<Rightarrow> 32 word"
  call_hash :: "Oid \<Rightarrow> Datum \<Rightarrow> 32 word"

section \<open>Memory\<close>

definition word_bytes :: "nat \<Rightarrow> 'a::len word \<Rightarrow> byte list" where
  "word_bytes n w = rev (be_bytes n w)"

definition bytes_word :: "byte list \<Rightarrow> 'a::len word" where
  "bytes_word bs = be_word (rev bs)"

definition palloc :: "(nat \<Rightarrow> byte) \<Rightarrow> nat \<Rightarrow> byte list" where
  "palloc garbage n = map garbage [0..<n]"

text \<open>Copying \<open>n\<close> bytes to an offset of a buffer; a negative length is a huge one.\<close>

definition memcpy_at :: "byte list \<Rightarrow> nat \<Rightarrow> byte list \<Rightarrow> int \<Rightarrow> byte list outcome" where
  "memcpy_at buf off src n =
     (if n < 0 \<or> length src < nat n \<or> length buf < off + nat n then Inl (Crash ''memcpy out of bounds'')
      else Inr (take off buf @ take (nat n) src @ drop (off + nat n) buf))"

definition read_bytes :: "(nat \<Rightarrow> byte) \<Rightarrow> byte list \<Rightarrow> nat \<Rightarrow> nat \<Rightarrow> byte list" where
  "read_bytes beyond bs off n = map (\<lambda>i. if i < length bs then bs ! i else beyond (i - length bs)) [off..<off + n]"

text \<open>The offset of the contents of a \<open>varlena\<close> whose header is at an offset: headers of one byte are odd.\<close>

definition vardata_any :: "byte list \<Rightarrow> nat \<Rightarrow> nat" where
  "vardata_any bs off = (if bit (bs ! off) 0 then off + 1 else off + 4)"

text \<open>
  The size that the header of a \<open>varlena\<close> states, header included.  Values are taken as \<open>PG_DETOAST_DATUM_PACKED\<close> returns
  them: neither compressed nor stored elsewhere.
\<close>

definition varsize_any :: "byte list \<Rightarrow> nat" where
  "varsize_any bs = (if bit (bs ! 0) 0 then unat (drop_bit 1 (bs ! 0)) else unat (drop_bit 2 (bytes_word (take 4 bs) :: 32 word)))"

fun by_value :: "Datum \<Rightarrow> byte list outcome" where
  "by_value (DWord w) = Inr (word_bytes 8 w)"
| "by_value (DPointer _ _) = Inl (Crash ''not a by-value datum'')"

fun by_reference :: "Datum \<Rightarrow> byte list outcome" where
  "by_reference (DPointer _ bs) = Inr bs"
| "by_reference (DWord _) = Inl (Crash ''not a pointer'')"

section \<open>Making a value\<close>

definition make_fixed_size :: "(nat \<Rightarrow> byte) \<Rightarrow> int \<Rightarrow> 32 word \<Rightarrow> int \<Rightarrow> bool \<Rightarrow> Datum \<Rightarrow> byte list outcome" where
  "make_fixed_size garbage sum_type_len discriminant variant_type_len variant_byval variant_value =
     bind_outcome (memcpy_at (palloc garbage (nat sum_type_len)) 0 (word_bytes 4 discriminant) 4) (\<lambda>fixed_size.
     bind_outcome (if variant_byval then by_value variant_value else by_reference variant_value) (\<lambda>src.
       memcpy_at fixed_size 4 src variant_type_len))"

definition make_var_size :: "(nat \<Rightarrow> byte) \<Rightarrow> 32 word \<Rightarrow> int \<Rightarrow> bool \<Rightarrow> Datum \<Rightarrow> byte list outcome" where
  "make_var_size garbage discriminant variant_type_len variant_byval variant_value =
     bind_outcome (if variant_type_len = -1 then map_sum id (int \<circ> varsize_any) (by_reference variant_value)
                   else Inr variant_type_len) (\<lambda>sz.
     bind_outcome (memcpy_at (palloc garbage (nat (8 + sz))) 0 (word_bytes 4 discriminant) 4) (\<lambda>var_size_variant.
     bind_outcome (memcpy_at var_size_variant 4 (word_bytes 4 (push_bit 2 (word_of_int sz) :: 32 word)) 4) (\<lambda>var_size_variant.
       if variant_byval then
         bind_outcome (by_value variant_value) (\<lambda>src.
           memcpy_at var_size_variant (vardata_any var_size_variant 4) src sz)
       else
         bind_outcome (by_reference variant_value) (\<lambda>src. memcpy_at var_size_variant 4 src sz))))"

definition make_variant :: "(nat \<Rightarrow> byte) \<Rightarrow> int \<Rightarrow> 32 word \<Rightarrow> int \<Rightarrow> bool \<Rightarrow> Datum \<Rightarrow> Datum outcome" where
  "make_variant garbage sum_type_len discriminant variant_type_len variant_byval variant_value =
     map_sum id (DPointer CallerContext)
       (if sum_type_len \<noteq> -1
        then make_fixed_size garbage sum_type_len discriminant variant_type_len variant_byval variant_value
        else make_var_size garbage discriminant variant_type_len variant_byval variant_value)"

section \<open>The cache of sum types\<close>

text \<open>The operator is called with two arguments of the same type.\<close>

definition oper_select_candidate :: "sum_env \<Rightarrow> Oid \<Rightarrow> Oid list \<Rightarrow> Oid" where
  "oper_select_candidate env type candidates =
     (case func_match_argtypes env type candidates of
        [] \<Rightarrow> InvalidOid
      | [c] \<Rightarrow> c
      | cs \<Rightarrow> (case func_select_candidate env type cs of Some c \<Rightarrow> c | None \<Rightarrow> InvalidOid))"

definition lookup_operator :: "sum_env \<Rightarrow> Oid \<Rightarrow> string \<Rightarrow> Oid" where
  "lookup_operator env type name =
     (let oid = OpernameGetOprid env name type in
      if oid \<noteq> InvalidOid then oid
      else if OpernameGetCandidates env name \<noteq> [] then oper_select_candidate env type (OpernameGetCandidates env name)
      else oid)"

definition fill_entry :: "sum_env \<Rightarrow> TransactionId \<Rightarrow> Oid list \<Rightarrow> SumTypeCacheEntry" where
  "fill_entry env xmin variants =
     \<lparr>entry_xmin = xmin,
      variant_type_oids = variants,
      variant_eq_ops = map (\<lambda>v. lookup_operator env v ''='') variants,
      variant_opc_hash = map (\<lambda>v. GetDefaultOpClass env v hash) variants,
      variant_opc_btree = map (\<lambda>v. GetDefaultOpClass env v btree) variants\<rparr>"

definition snapshot_xmin :: "sum_env \<Rightarrow> TransactionId" where
  "snapshot_xmin env = (case active_snapshot_xmin env of Some x \<Rightarrow> x | None \<Rightarrow> 0)"

function lookup_sumtype_cache :: "sum_env \<Rightarrow> Oid \<Rightarrow> sumtypehash \<Rightarrow> SumTypeCacheEntry option \<times> sumtypehash" where
  "lookup_sumtype_cache env sum_type_oid cache =
     (case hash_find cache sum_type_oid of
        None \<Rightarrow>
          (case map_of (sum_types env) sum_type_oid of
             Some variants \<Rightarrow>
               (let entry = fill_entry env (snapshot_xmin env) variants in
                (Some entry, hash_enter sum_type_oid entry cache))
           | None \<Rightarrow> (None, cache))
      | Some entry \<Rightarrow>
          if entry_xmin entry \<noteq> snapshot_xmin env then
            (let cache = hash_remove sum_type_oid cache in
             if freed_slot_xmin env entry \<noteq> snapshot_xmin env
             then lookup_sumtype_cache env sum_type_oid cache
             else (None, cache))
          else (Some entry, cache))"
  by pat_completeness auto
termination
  by (relation "measure (\<lambda>(_, oid, cache). if hash_find cache oid = None then 0 else 1)")
     (auto simp: htab_simps)

declare lookup_sumtype_cache.simps [simp del]

section \<open>Reading a value\<close>

type_synonym 'a cache_action = "(sumtypehash, 'a) state_action"

definition cached_entry :: "sum_env \<Rightarrow> Oid \<Rightarrow> SumTypeCacheEntry option cache_action" where
  "cached_entry env sum_type_oid cache =
     (case lookup_sumtype_cache env sum_type_oid cache of (entry, cache) \<Rightarrow> (Inr entry, cache))"

text \<open>\<open>SearchSysCache1(TYPEOID, ...)\<close> followed by \<open>GETSTRUCT\<close>: a missing type is a null pointer.\<close>

definition type_tuple :: "sum_env \<Rightarrow> Oid \<Rightarrow> pg_type cache_action" where
  "type_tuple env oid cache =
     (case syscache_type env oid of Some t \<Rightarrow> (Inr t, cache) | None \<Rightarrow> (Inl (Crash ''no such type''), cache))"

definition lift_outcome :: "'a outcome \<Rightarrow> 'a cache_action" where
  "lift_outcome r cache = (r, cache)"

definition oid_at :: "Oid list \<Rightarrow> 32 word \<Rightarrow> Oid outcome" where
  "oid_at values i =
     (if 0 \<le> sint i \<and> sint i < int (length values) then Inr (values ! nat (sint i))
      else Inl (Crash ''index out of bounds''))"

fun discriminant_of :: "Datum \<Rightarrow> 32 word outcome" where
  "discriminant_of (DPointer _ bs) =
     (if length bs < 4 then Inl (Crash ''read out of bounds'') else Inr (bytes_word (take 4 bs)))"
| "discriminant_of (DWord _) = Inl (Crash ''not a pointer'')"

definition variant_datum :: "(nat \<Rightarrow> byte) \<Rightarrow> int \<Rightarrow> bool \<Rightarrow> byte list \<Rightarrow> Datum" where
  "variant_datum beyond sum_type_len variant_byval bs =
     (if sum_type_len = -1 then
        (if variant_byval then DWord (bytes_word (read_bytes beyond bs (vardata_any bs 4) 8))
         else DPointer CallerContext (drop 4 bs))
      else if variant_byval then DWord (bytes_word (read_bytes beyond bs 4 8))
      else DPointer CallerContext (drop 4 bs))"

text \<open>The value is uninitialised, \<open>None\<close>, if the type is no sum type.\<close>

definition get_variant_val ::
  "sum_env \<Rightarrow> (nat \<Rightarrow> byte) \<Rightarrow> Datum \<Rightarrow> Oid \<Rightarrow> bool \<Rightarrow> (Oid \<times> Datum option \<times> 32 word) cache_action" where
  "get_variant_val env beyond arg sum_type_oid wants_discriminant =
     bind_action (type_tuple env sum_type_oid) (\<lambda>sum_typ.
     bind_action (if wants_discriminant then lift_outcome (discriminant_of arg) else return_action 0) (\<lambda>d0.
     bind_action (cached_entry env sum_type_oid) (\<lambda>found.
       case found of
         None \<Rightarrow> return_action (InvalidOid, None, d0)
       | Some entry \<Rightarrow>
           bind_action (lift_outcome (discriminant_of arg)) (\<lambda>d.
           bind_action (lift_outcome (oid_at (variant_type_oids entry) d)) (\<lambda>variant.
           bind_action (type_tuple env variant) (\<lambda>typ.
           bind_action (lift_outcome (by_reference arg)) (\<lambda>bs.
             return_action (variant, Some (variant_datum beyond (typlen sum_typ) (typbyval typ) bs), d))))))))"

definition initialised :: "'a option \<Rightarrow> 'a cache_action" where
  "initialised x = (case x of Some v \<Rightarrow> return_action v | None \<Rightarrow> fail_action (Crash ''uninitialised value''))"

definition get_fn_expr_argtype_reliable :: "(nat \<times> Oid \<times> Oid list) option \<Rightarrow> nat \<Rightarrow> Oid" where
  "get_fn_expr_argtype_reliable info argnum =
     (case info of
        None \<Rightarrow> InvalidOid
      | Some (fn_nargs, fn_expr_argtype, proargtypes) \<Rightarrow>
          if fn_nargs < argnum + 1 then InvalidOid
          else if fn_expr_argtype \<noteq> InvalidOid then fn_expr_argtype
          else proargtypes ! argnum)"

text \<open>The argument is \<open>None\<close> if it is null; so is the result.\<close>

definition sum_variant :: "sum_env \<Rightarrow> (nat \<Rightarrow> byte) \<Rightarrow> Oid \<Rightarrow> Datum option \<Rightarrow> Oid option cache_action" where
  "sum_variant env beyond sum_type_oid arg =
     (case arg of
        None \<Rightarrow> fail_action (Ereport ERRCODE_INTERNAL_ERROR ''Sum type value can't be null'')
      | Some arg \<Rightarrow>
          bind_action (get_variant_val env beyond arg sum_type_oid False) (\<lambda>(variant, _, _).
            return_action (if variant = InvalidOid then None else Some variant)))"

section \<open>Text form\<close>

definition type_io_param :: "Oid \<Rightarrow> pg_type \<Rightarrow> Oid" where
  "type_io_param oid typ = (if typelem typ \<noteq> InvalidOid then typelem typ else oid)"

definition names_variant :: "string \<Rightarrow> string \<Rightarrow> bool" where
  "names_variant input type \<longleftrightarrow> prefix type input \<and> length type < length input \<and> input ! length type = CHR ''(''"

fun match_variant :: "sum_env \<Rightarrow> string \<Rightarrow> 32 word \<Rightarrow> Oid list \<Rightarrow> 32 word \<times> Oid" where
  "match_variant env input i [] = (0, InvalidOid)"
| "match_variant env input i (v # vs) =
     (if names_variant input (format_type_be env v) then (i, v) else match_variant env input (i + 1) vs)"

definition sum_in :: "sum_env \<Rightarrow> (nat \<Rightarrow> byte) \<Rightarrow> Oid \<Rightarrow> string \<Rightarrow> Datum cache_action" where
  "sum_in env garbage sum_type_oid input =
     (if input = [] then fail_action (Crash ''read out of bounds'')
      else if last input \<noteq> CHR '')'' then fail_action (Ereport ERRCODE_INTERNAL_ERROR ''Invalid syntax'')
      else
        bind_action (type_tuple env sum_type_oid) (\<lambda>sum_typ.
        bind_action (cached_entry env sum_type_oid) (\<lambda>found.
          let (discriminant, variant) =
                (case found of Some entry \<Rightarrow> match_variant env input 0 (variant_type_oids entry) | None \<Rightarrow> (0, InvalidOid)) in
          bind_action (type_tuple env variant) (\<lambda>typ.
            let modified_input = butlast (tl (dropWhile (\<lambda>c. c \<noteq> CHR ''('') input)) in
            bind_action (lift_outcome (call_input env (typinput typ) modified_input (type_io_param variant typ) (typmodin typ))) (\<lambda>result.
              lift_outcome (make_variant garbage (typlen sum_typ) discriminant (typlen typ) (typbyval typ) result))))))"

definition sum_out :: "sum_env \<Rightarrow> (nat \<Rightarrow> byte) \<Rightarrow> Oid \<Rightarrow> Datum \<Rightarrow> string cache_action" where
  "sum_out env beyond sum_type_oid arg =
     bind_action (get_variant_val env beyond arg sum_type_oid False) (\<lambda>(variant, val, _).
     bind_action (type_tuple env variant) (\<lambda>typ.
     bind_action (initialised val) (\<lambda>val.
       return_action (format_type_be env variant @ ''('' @ call_output env (typoutput typ) val @ '')''))))"

section \<open>Binary form\<close>

definition sum_recv :: "sum_env \<Rightarrow> (nat \<Rightarrow> byte) \<Rightarrow> Oid \<Rightarrow> byte list \<Rightarrow> Datum cache_action" where
  "sum_recv env garbage sum_type_oid input =
     (if length input < 4 then fail_action (Ereport ERRCODE_INTERNAL_ERROR ''input is too short to fit a discriminant'')
      else
        bind_action (type_tuple env sum_type_oid) (\<lambda>sum_typ.
          let discriminant = be_word (take 4 input) in
        bind_action (cached_entry env sum_type_oid) (\<lambda>found.
        bind_action (case found of
            None \<Rightarrow> return_action InvalidOid
          | Some entry \<Rightarrow>
              if int (length (variant_type_oids entry)) < sint (discriminant + 1)
              then fail_action (Ereport ERRCODE_INTERNAL_ERROR ''invalid discriminant'')
              else lift_outcome (oid_at (variant_type_oids entry) discriminant)) (\<lambda>variant.
          if variant = InvalidOid then fail_action (Ereport ERRCODE_INTERNAL_ERROR ''No valid variant found'')
          else
            bind_action (type_tuple env variant) (\<lambda>typ.
            bind_action (lift_outcome (call_receive env (typreceive typ) (drop 4 input) (type_io_param variant typ) (typmodin typ))) (\<lambda>result.
              lift_outcome (make_variant garbage (typlen sum_typ) discriminant (typlen typ) (typbyval typ) result)))))))"

definition sum_send :: "sum_env \<Rightarrow> (nat \<Rightarrow> byte) \<Rightarrow> Oid \<Rightarrow> Datum \<Rightarrow> byte list cache_action" where
  "sum_send env beyond sum_type_oid arg =
     bind_action (get_variant_val env beyond arg sum_type_oid True) (\<lambda>(variant, val, discriminant).
     bind_action (type_tuple env variant) (\<lambda>typ.
     bind_action (initialised val) (\<lambda>val.
       return_action (be_bytes 4 discriminant @ call_send env (typsend typ) val))))"

section \<open>Casts\<close>

definition sum_cast_to :: "sum_env \<Rightarrow> (nat \<Rightarrow> byte) \<Rightarrow> Oid \<Rightarrow> Oid \<Rightarrow> Datum \<Rightarrow> Datum option cache_action" where
  "sum_cast_to env beyond sum_type_oid variant_type_oid arg =
     bind_action (get_variant_val env beyond arg sum_type_oid False) (\<lambda>(variant, val, _).
       if variant \<noteq> variant_type_oid then return_action None
       else bind_action (initialised val) (\<lambda>val. return_action (Some val)))"

fun index_of_variant :: "Oid \<Rightarrow> 32 word \<Rightarrow> Oid list \<Rightarrow> 32 word option" where
  "index_of_variant v i [] = None"
| "index_of_variant v i (x # xs) = (if x = v then Some i else index_of_variant v (i + 1) xs)"

definition sum_cast_from :: "sum_env \<Rightarrow> (nat \<Rightarrow> byte) \<Rightarrow> Oid \<Rightarrow> Oid \<Rightarrow> Datum \<Rightarrow> Datum cache_action" where
  "sum_cast_from env garbage sum_type_oid variant_type_oid arg =
     bind_action (cached_entry env sum_type_oid) (\<lambda>found.
       case (case found of Some entry \<Rightarrow> index_of_variant variant_type_oid 0 (variant_type_oids entry) | None \<Rightarrow> None) of
         None \<Rightarrow> fail_action (Ereport ERRCODE_INTERNAL_ERROR ''No valid variant found'')
       | Some discriminant \<Rightarrow>
           bind_action (type_tuple env sum_type_oid) (\<lambda>sum_typ.
           bind_action (type_tuple env variant_type_oid) (\<lambda>typ.
             lift_outcome (make_variant garbage (typlen sum_typ) discriminant (typlen typ) (typbyval typ) arg))))"

section \<open>Comparisons and hashing\<close>

datatype cmp_operator = OP_EQUAL | OP_NOT_EQUAL | OP_LESS | OP_LESS_EQUAL | OP_GREATER | OP_GREATER_EQUAL

fun operator_names :: "cmp_operator \<Rightarrow> string" where
  "operator_names OP_EQUAL = ''=''"
| "operator_names OP_NOT_EQUAL = ''<>''"
| "operator_names OP_LESS = ''<''"
| "operator_names OP_LESS_EQUAL = ''<=''"
| "operator_names OP_GREATER = ''>''"
| "operator_names OP_GREATER_EQUAL = ''>=''"

fun compare_discriminants :: "cmp_operator \<Rightarrow> 32 word \<Rightarrow> 32 word \<Rightarrow> bool option" where
  "compare_discriminants OP_EQUAL d1 d2 = Some False"
| "compare_discriminants OP_LESS d1 d2 = Some (sint d1 < sint d2)"
| "compare_discriminants OP_LESS_EQUAL d1 d2 = Some (sint d1 \<le> sint d2)"
| "compare_discriminants OP_GREATER d1 d2 = Some (sint d1 \<ge> sint d2)"
| "compare_discriminants OP_GREATER_EQUAL d1 d2 = Some (sint d1 \<ge> sint d2)"
| "compare_discriminants OP_NOT_EQUAL d1 d2 = None"

definition sumtypehash_lookup :: "Oid \<Rightarrow> SumTypeCacheEntry option cache_action" where
  "sumtypehash_lookup type cache = (Inr (hash_find cache type), cache)"

definition call_operator :: "sum_env \<Rightarrow> Oid \<Rightarrow> Datum option \<Rightarrow> Datum option \<Rightarrow> bool cache_action" where
  "call_operator env op_oid val1 val2 =
     (if op_oid = InvalidOid then fail_action (Ereport ERRCODE_INTERNAL_ERROR ''operator does not exist'')
      else if get_opcode env op_oid = InvalidOid
      then fail_action (Ereport ERRCODE_INTERNAL_ERROR ''operator does not have a valid underlying function'')
      else
        bind_action (initialised val1) (\<lambda>v1.
        bind_action (initialised val2) (\<lambda>v2.
          return_action (call_bool env (get_opcode env op_oid) v1 v2))))"

definition sum_binary_op ::
  "sum_env \<Rightarrow> (nat \<Rightarrow> byte) \<Rightarrow> Oid \<Rightarrow> cmp_operator \<Rightarrow> Datum \<Rightarrow> Datum \<Rightarrow> bool cache_action" where
  "sum_binary_op env beyond type oper arg1 arg2 =
     bind_action (get_variant_val env beyond arg1 type True) (\<lambda>(variant1, val1, discriminant1).
     bind_action (get_variant_val env beyond arg2 type True) (\<lambda>(variant2, val2, discriminant2).
       case (if variant1 \<noteq> variant2 then compare_discriminants oper discriminant1 discriminant2 else None) of
         Some r \<Rightarrow> return_action r
       | None \<Rightarrow>
           if oper = OP_EQUAL then
             bind_action (sumtypehash_lookup type) (\<lambda>found.
             bind_action (case found of
                 Some entry \<Rightarrow> lift_outcome (oid_at (variant_eq_ops entry) discriminant1)
               | None \<Rightarrow> return_action InvalidOid) (\<lambda>op_oid.
               call_operator env op_oid val1 val2))
           else call_operator env (lookup_operator env variant1 (operator_names oper)) val1 val2))"

definition sum_eq :: "sum_env \<Rightarrow> (nat \<Rightarrow> byte) \<Rightarrow> Oid \<Rightarrow> Datum \<Rightarrow> Datum \<Rightarrow> bool cache_action" where
  "sum_eq env beyond type arg1 arg2 = sum_binary_op env beyond type OP_EQUAL arg1 arg2"

definition sum_neq :: "sum_env \<Rightarrow> (nat \<Rightarrow> byte) \<Rightarrow> Oid \<Rightarrow> Datum \<Rightarrow> Datum \<Rightarrow> bool cache_action" where
  "sum_neq env beyond type arg1 arg2 =
     bind_action (sum_binary_op env beyond type OP_EQUAL arg1 arg2) (\<lambda>b. return_action (\<not> b))"

definition sum_lt :: "sum_env \<Rightarrow> (nat \<Rightarrow> byte) \<Rightarrow> Oid \<Rightarrow> Datum \<Rightarrow> Datum \<Rightarrow> bool cache_action" where
  "sum_lt env beyond type arg1 arg2 = sum_binary_op env beyond type OP_LESS arg1 arg2"

definition sum_lte :: "sum_env \<Rightarrow> (nat \<Rightarrow> byte) \<Rightarrow> Oid \<Rightarrow> Datum \<Rightarrow> Datum \<Rightarrow> bool cache_action" where
  "sum_lte env beyond type arg1 arg2 = sum_binary_op env beyond type OP_LESS_EQUAL arg1 arg2"

definition sum_gt :: "sum_env \<Rightarrow> (nat \<Rightarrow> byte) \<Rightarrow> Oid \<Rightarrow> Datum \<Rightarrow> Datum \<Rightarrow> bool cache_action" where
  "sum_gt env beyond type arg1 arg2 = sum_binary_op env beyond type OP_GREATER arg1 arg2"

definition sum_gte :: "sum_env \<Rightarrow> (nat \<Rightarrow> byte) \<Rightarrow> Oid \<Rightarrow> Datum \<Rightarrow> Datum \<Rightarrow> bool cache_action" where
  "sum_gte env beyond type arg1 arg2 = sum_binary_op env beyond type OP_GREATER_EQUAL arg1 arg2"

definition sum_compare :: "sum_env \<Rightarrow> (nat \<Rightarrow> byte) \<Rightarrow> Oid \<Rightarrow> Datum \<Rightarrow> Datum \<Rightarrow> 32 word cache_action" where
  "sum_compare env beyond type arg1 arg2 =
     bind_action (get_variant_val env beyond arg1 type True) (\<lambda>(variant1, val1, discriminant1).
     bind_action (get_variant_val env beyond arg2 type True) (\<lambda>(variant2, val2, discriminant2).
       if variant1 \<noteq> variant2 then return_action (if sint discriminant1 < sint discriminant2 then -1 else 1)
       else
         bind_action (sumtypehash_lookup type) (\<lambda>found.
         bind_action (case found of
             Some entry \<Rightarrow> lift_outcome (oid_at (variant_opc_btree entry) discriminant1)
           | None \<Rightarrow> return_action (GetDefaultOpClass env variant1 btree)) (\<lambda>opclass.
           if opclass = InvalidOid then fail_action (Ereport ERRCODE_INTERNAL_ERROR ''No default btree opclass'')
           else
             let operand = (if map_option typtype (syscache_type env variant1) = Some TYPTYPE_COMPOSITE then 2249 else variant1);
                 cmp_proc_oid = support_proc env opclass operand in
             if cmp_proc_oid = InvalidOid then fail_action (Ereport ERRCODE_INTERNAL_ERROR ''No cmp function found'')
             else
               bind_action (initialised val1) (\<lambda>v1.
               bind_action (initialised val2) (\<lambda>v2. return_action (call_cmp env cmp_proc_oid v1 v2)))))))"

definition sum_cmp :: "sum_env \<Rightarrow> (nat \<Rightarrow> byte) \<Rightarrow> Oid \<Rightarrow> Datum \<Rightarrow> Datum \<Rightarrow> 32 word cache_action" where
  "sum_cmp env beyond type arg1 arg2 = sum_compare env beyond type arg1 arg2"

definition mix_hash :: "32 word \<Rightarrow> 32 word \<Rightarrow> 32 word" where
  "mix_hash h discriminant = h XOR (discriminant + 0x9e3779b9 + push_bit 6 h + signed_drop_bit 2 h)"

definition sum_hash :: "sum_env \<Rightarrow> (nat \<Rightarrow> byte) \<Rightarrow> Oid \<Rightarrow> Datum \<Rightarrow> 32 word cache_action" where
  "sum_hash env beyond type arg1 =
     bind_action (get_variant_val env beyond arg1 type True) (\<lambda>(variant1, val1, discriminant).
     bind_action (sumtypehash_lookup type) (\<lambda>found.
     bind_action (case found of
         Some entry \<Rightarrow> lift_outcome (oid_at (variant_opc_hash entry) discriminant)
       | None \<Rightarrow> return_action (GetDefaultOpClass env variant1 hash)) (\<lambda>opclass.
       if opclass = InvalidOid then fail_action (Ereport ERRCODE_INTERNAL_ERROR ''No default hash opclass'')
       else
         let hash_proc_oid = support_proc env opclass variant1 in
         if hash_proc_oid = InvalidOid then fail_action (Ereport ERRCODE_INTERNAL_ERROR ''No hash function found'')
         else bind_action (initialised val1) (\<lambda>v1. return_action (mix_hash (call_hash env hash_proc_oid v1) discriminant)))))"

section \<open>Defining a sum type\<close>

record variant_traits =
  variant_size :: int
  varlen :: bool
  binary_io :: bool
  can_hash :: bool
  can_cmp :: bool

definition no_variants :: variant_traits where
  "no_variants = \<lparr>variant_size = 0, varlen = False, binary_io = True, can_hash = True, can_cmp = True\<rparr>"

definition add_traits :: "sum_env \<Rightarrow> Oid \<Rightarrow> pg_type \<Rightarrow> variant_traits \<Rightarrow> variant_traits" where
  "add_traits env v typ tr =
     \<lparr>variant_size = (if typlen typ = -1 then variant_size tr else max (variant_size tr) (typlen typ)),
      varlen = (varlen tr \<or> typlen typ = -1),
      binary_io = (binary_io tr \<and> typsend typ \<noteq> InvalidOid \<and> typreceive typ \<noteq> InvalidOid),
      can_hash = (can_hash tr \<and> typtype typ \<noteq> TYPTYPE_COMPOSITE \<and> GetDefaultOpClass env v hash \<noteq> InvalidOid),
      can_cmp = (can_cmp tr \<and> GetDefaultOpClass env v btree \<noteq> InvalidOid)\<rparr>"

text \<open>A null element of the array, \<open>None\<close>, is skipped.\<close>

fun scan_variants :: "sum_env \<Rightarrow> Oid option list \<Rightarrow> variant_traits \<Rightarrow> variant_traits outcome" where
  "scan_variants env [] tr = Inr tr"
| "scan_variants env (None # vs) tr = scan_variants env vs tr"
| "scan_variants env (Some v # vs) tr =
     (case syscache_type env v of
        None \<Rightarrow> elog_error ''Type OID is invalid''
      | Some typ \<Rightarrow>
          if typpseudo typ then elog_error ''Pseudo-types can't be variants''
          else scan_variants env vs (add_traits env v typ tr))"

definition type_size :: "variant_traits \<Rightarrow> int" where
  "type_size tr = (if varlen tr then -1 else sint (word_of_int (4 + variant_size tr) :: 16 word))"

text \<open>
  What \<open>sum_type\<close> asks PostgreSQL to create, in order.  Functions are referred to by their names; a
  function has the symbol of the C function that implements it, its result and its arguments.
\<close>

datatype ddl =
    TypeShellMake string
  | ProcedureCreate string string Oid "Oid list"
  | TypeCreate string int
  | OperatorCreate string string string string bool bool
  | InsertSumType Oid "Oid option list"
  | CastCreate Oid Oid string

abbreviation CSTRINGOID :: Oid where "CSTRINGOID \<equiv> 2275"
abbreviation BYTEAOID :: Oid where "BYTEAOID \<equiv> 17"
abbreviation INT4OID :: Oid where "INT4OID \<equiv> 23"
abbreviation BOOLOID :: Oid where "BOOLOID \<equiv> 16"

definition io_functions :: "string \<Rightarrow> Oid \<Rightarrow> variant_traits \<Rightarrow> ddl list" where
  "io_functions name oid tr =
     [ProcedureCreate (name @ ''_in'') ''sum_in'' oid [CSTRINGOID],
      ProcedureCreate (name @ ''_out'') ''sum_out'' CSTRINGOID [oid]] @
     (if binary_io tr then
        [ProcedureCreate (name @ ''_recv'') ''sum_recv'' oid [BYTEAOID],
         ProcedureCreate (name @ ''_send'') ''sum_send'' BYTEAOID [oid]]
      else [])"

definition sum_pg_type :: "(string \<Rightarrow> Oid) \<Rightarrow> string \<Rightarrow> variant_traits \<Rightarrow> pg_type" where
  "sum_pg_type proc_oid name tr =
     \<lparr>typname = name, typlen = type_size tr, typbyval = False, typtype = TYPTYPE_BASE, typpseudo = False,
      typelem = InvalidOid, typinput = proc_oid (name @ ''_in''), typoutput = proc_oid (name @ ''_out''),
      typreceive = (if binary_io tr then proc_oid (name @ ''_recv'') else InvalidOid),
      typsend = (if binary_io tr then proc_oid (name @ ''_send'') else InvalidOid),
      typmodin = InvalidOid\<rparr>"

definition equality_operators :: "string \<Rightarrow> Oid \<Rightarrow> variant_traits \<Rightarrow> ddl list" where
  "equality_operators name oid tr =
     (if can_hash tr then [ProcedureCreate (name @ ''_hash'') ''sum_hash'' INT4OID [oid]] else []) @
     [ProcedureCreate (name @ ''_eq'') ''sum_eq'' BOOLOID [oid, oid],
      OperatorCreate ''='' (name @ ''_eq'') ''='' ''<>'' (can_cmp tr) (can_hash tr),
      ProcedureCreate (name @ ''_neq'') ''sum_neq'' BOOLOID [oid, oid],
      OperatorCreate ''<>'' (name @ ''_neq'') ''<>'' ''='' (can_cmp tr) (can_hash tr)]"

definition comparison_operators :: "string \<Rightarrow> Oid \<Rightarrow> variant_traits \<Rightarrow> ddl list" where
  "comparison_operators name oid tr =
     (if can_cmp tr then
        [ProcedureCreate (name @ ''_cmp'') ''sum_cmp'' INT4OID [oid, oid],
         ProcedureCreate (name @ ''_lt'') ''sum_lt'' BOOLOID [oid, oid],
         OperatorCreate ''<'' (name @ ''_lt'') ''>'' ''>='' (can_cmp tr) (can_hash tr),
         ProcedureCreate (name @ ''_lte'') ''sum_lte'' BOOLOID [oid, oid],
         OperatorCreate ''<='' (name @ ''_lte'') ''>='' ''>'' (can_cmp tr) (can_hash tr),
         ProcedureCreate (name @ ''_gt'') ''sum_gt'' BOOLOID [oid, oid],
         OperatorCreate ''>'' (name @ ''_gt'') ''<'' ''<='' (can_cmp tr) (can_hash tr),
         ProcedureCreate (name @ ''_gte'') ''sum_gte'' BOOLOID [oid, oid],
         OperatorCreate ''>='' (name @ ''_gte'') ''<='' ''<'' (can_cmp tr) (can_hash tr)]
      else [])"

fun cast_functions :: "sum_env \<Rightarrow> string \<Rightarrow> Oid \<Rightarrow> Oid option list \<Rightarrow> ddl list outcome" where
  "cast_functions env name oid [] = Inr []"
| "cast_functions env name oid (None # vs) = cast_functions env name oid vs"
| "cast_functions env name oid (Some v # vs) =
     (case syscache_type env v of
        None \<Rightarrow> Inl (Crash ''no such type'')
      | Some typ \<Rightarrow>
          bind_outcome (cast_functions env name oid vs) (\<lambda>rest.
            Inr ([ProcedureCreate (typname typ @ ''_from_'' @ name) ''sum_cast_to'' v [oid],
                  ProcedureCreate (name @ ''_from_'' @ typname typ) ''sum_cast_from'' oid [v]] @
                 (if typtype typ = TYPTYPE_DOMAIN then []
                  else [CastCreate oid v (typname typ @ ''_from_'' @ name),
                        CastCreate v oid (name @ ''_from_'' @ typname typ)]) @ rest)))"

text \<open>
  The trigger on the table refuses rows whose variants have duplicates or, as it counts the elements and the distinct
  elements that are not null, nulls.
\<close>

definition unique_variants :: "Oid option list \<Rightarrow> bool" where
  "unique_variants vs \<longleftrightarrow> None \<notin> set vs \<and> distinct vs"

text \<open>
  The result is the object id of the new type, \<open>oid\<close>, the requests, and the environment with the rows that
  the requests add.  \<open>proc_oid\<close> gives the object ids of the new functions.  PostgreSQL may refuse a request, for example
  for a name that is taken; then the transaction ends and nothing is added.
\<close>

definition sum_type ::
  "sum_env \<Rightarrow> Oid \<Rightarrow> (string \<Rightarrow> Oid) \<Rightarrow> string option \<Rightarrow> Oid option list option \<Rightarrow> (Oid \<times> ddl list \<times> sum_env) outcome" where
  "sum_type env oid proc_oid name_arg variants_arg =
     (case name_arg of
        None \<Rightarrow> elog_error ''sum type must have a non-NULL name''
      | Some name \<Rightarrow>
     (case variants_arg of
        None \<Rightarrow> elog_error ''sum type must have a non-NULL array of variants''
      | Some arr \<Rightarrow>
     bind_outcome (scan_variants env arr no_variants) (\<lambda>tr.
       let env1 = env\<lparr>syscache_type := (syscache_type env)(oid := Some (sum_pg_type proc_oid name tr))\<rparr> in
     if \<not> unique_variants arr then elog_error ''Sum types can not contain duplicate variants''
     else
       let env2 = env1\<lparr>sum_types := sum_types env1 @ [(oid, map the arr)]\<rparr> in
     bind_outcome (cast_functions env2 name oid arr) (\<lambda>casts.
       Inr (oid,
            [TypeShellMake name] @ io_functions name oid tr @
            [TypeCreate name (type_size tr), TypeCreate (makeArrayTypeName env name) (-1)] @
            equality_operators name oid tr @ comparison_operators name oid tr @
            [InsertSumType oid arr] @ casts,
            env2)))))"

definition append_variant :: "Oid \<Rightarrow> Oid \<Rightarrow> (Oid \<times> Oid list) list \<Rightarrow> (Oid \<times> Oid list) list outcome" where
  "append_variant oid v rows =
     mapM_outcome (\<lambda>(typ, variants).
       if typ \<noteq> oid then Inr (typ, variants)
       else if v \<in> set variants \<or> \<not> distinct variants then elog_error ''Sum types can not contain duplicate variants''
       else Inr (typ, variants @ [v])) rows"

definition add_variant :: "sum_env \<Rightarrow> Oid option \<Rightarrow> Oid option \<Rightarrow> sum_env outcome" where
  "add_variant env sum_type_arg variant_arg =
     (case sum_type_arg of
        None \<Rightarrow> elog_error ''sum type must have a non-NULL value''
      | Some sum_type_oid \<Rightarrow>
     (case variant_arg of
        None \<Rightarrow> elog_error ''variant type must have a non-NULL value''
      | Some variant_type_oid \<Rightarrow>
     (case (syscache_type env sum_type_oid, syscache_type env variant_type_oid) of
        (Some sum_typ, Some variant_typ) \<Rightarrow>
          (let sum_type_len = typlen sum_typ; variant_type_len = typlen variant_typ in
           if sum_type_len \<noteq> -1 \<and>
              (variant_type_len < 0 \<or>
               (word_of_int (sum_type_len - 4) :: 64 word) < word_of_int variant_type_len)
           then elog_error ''variant type size must not be larger than that of the largest existing variant type's''
           else bind_outcome (append_variant sum_type_oid variant_type_oid (sum_types env)) (\<lambda>rows.
                  Inr (env\<lparr>sum_types := rows\<rparr>)))
      | _ \<Rightarrow> Inl (Crash ''no such type''))))"

section \<open>Storing and reading back\<close>

lemma word_bytes_0 [simp]: "word_bytes 0 w = []"
  by (simp add: word_bytes_def)

lemma word_bytes_Suc: "word_bytes (Suc n) w = ucast w # word_bytes n (drop_bit 8 w)"
  by (simp add: word_bytes_def)

lemma length_word_bytes [simp]: "length (word_bytes n w) = n"
  by (simp add: word_bytes_def)

lemma bytes_word_Cons: "bytes_word (b # bs) = push_bit 8 (bytes_word bs) OR ucast b"
  by (simp add: bytes_word_def be_word_def)

lemma bytes_word_word_bytes: "bytes_word (word_bytes n w) = take_bit (8 * n) w"
  by (simp add: bytes_word_def word_bytes_def be_word_be_bytes)

lemma take_bit_bytes_word:
  "k \<le> n \<Longrightarrow> k \<le> length bs \<Longrightarrow> take k bs = take k (word_bytes n w) \<Longrightarrow>
   take_bit (8 * k) (bytes_word bs) = take_bit (8 * k) w"
proof (induction k arbitrary: n bs w)
  case (Suc k)
  obtain m where n: "n = Suc m" using Suc.prems by (cases n) auto
  obtain b cs where bs: "bs = b # cs" using Suc.prems by (cases bs) auto
  have b: "b = ucast w" and cs: "take k cs = take k (word_bytes m (drop_bit 8 w))"
    using Suc.prems by (simp_all add: n bs word_bytes_Suc)
  have IH: "take_bit (8 * k) (bytes_word cs) = take_bit (8 * k) (drop_bit 8 w)"
    using Suc.prems n bs cs by (intro Suc.IH[of m]) auto
  show ?case
  proof (rule bit_word_eqI)
    fix i
    assume "i < LENGTH('a)"
    have *: "bit (bytes_word cs :: 'a word) j \<longleftrightarrow> bit w (8 + j)" if "j < 8 * k" for j
      using arg_cong[OF IH, of "\<lambda>x. bit x j"] that by (simp add: bit_simps)
    show "bit (take_bit (8 * Suc k) (bytes_word bs :: 'a word)) i \<longleftrightarrow> bit (take_bit (8 * Suc k) w) i"
      using \<open>i < LENGTH('a)\<close> *[of "i - 8"]
      by (cases "i < 8") (auto simp: bs b bytes_word_Cons bit_simps)
  qed
qed simp

lemma memcpy_at_Inr:
  "memcpy_at buf off src n = Inr buf' \<longleftrightarrow>
     0 \<le> n \<and> nat n \<le> length src \<and> off + nat n \<le> length buf \<and>
     buf' = take off buf @ take (nat n) src @ drop (off + nat n) buf"
  by (auto simp: memcpy_at_def)

lemma length_palloc [simp]: "length (palloc garbage n) = n"
  by (simp add: palloc_def)

lemma length_read_bytes [simp]: "length (read_bytes beyond bs off n) = n"
  by (simp add: read_bytes_def)

lemma take_read_bytes:
  assumes "off + k \<le> length bs" "k \<le> n"
  shows "take k (read_bytes beyond bs off n) = take k (drop off bs)"
  using assms by (intro nth_equalityI) (auto simp: read_bytes_def)

text \<open>
  A datum of a type: by-value types have at most eight bytes; a reference points to as many bytes as the type has, or as the
  header states.
\<close>

definition varlena_ok :: "byte list \<Rightarrow> bool" where
  "varlena_ok bs \<longleftrightarrow> bs \<noteq> [] \<and> (bit (bs ! 0) 0 \<or> 4 \<le> length bs) \<and> varsize_any bs = length bs"

fun datum_ok :: "pg_type \<Rightarrow> Datum \<Rightarrow> bool" where
  "datum_ok t (DWord _) \<longleftrightarrow> typbyval t \<and> 0 < typlen t \<and> typlen t \<le> 8"
| "datum_ok t (DPointer _ bs) \<longleftrightarrow> \<not> typbyval t \<and>
     (if typlen t = -1 then varlena_ok bs else 0 < typlen t \<and> int (length bs) = typlen t)"

text \<open>The bytes of a value behind a pointer: as many as the type has, or as the header states.\<close>

definition extent :: "pg_type \<Rightarrow> byte list \<Rightarrow> byte list" where
  "extent t bs = take (if typlen t = -1 then varsize_any bs else nat (typlen t)) bs"

text \<open>
  Two data with the same bytes of the type.  Of a by-value datum these are the low bytes; the others are not part of the
  value, but \<open>DatumGetBool\<close> looks at them.
\<close>

fun reads_as :: "pg_type \<Rightarrow> Datum \<Rightarrow> Datum \<Rightarrow> bool" where
  "reads_as t (DWord w') (DWord w) \<longleftrightarrow> take_bit (8 * nat (typlen t)) w' = take_bit (8 * nat (typlen t)) w"
| "reads_as t (DPointer _ bs') (DPointer _ bs) \<longleftrightarrow> extent t bs' = extent t bs"
| "reads_as t _ _ \<longleftrightarrow> False"

text \<open>The bytes \<open>bs\<close> are the value with the discriminant and the datum.\<close>

definition stores :: "int \<Rightarrow> pg_type \<Rightarrow> 32 word \<Rightarrow> Datum \<Rightarrow> byte list \<Rightarrow> bool" where
  "stores sum_len t discriminant d bs \<longleftrightarrow>
     4 \<le> length bs \<and> take 4 bs = word_bytes 4 discriminant \<and> (sum_len \<noteq> -1 \<longrightarrow> length bs = nat sum_len) \<and>
     (\<forall>beyond. reads_as t (variant_datum beyond sum_len (typbyval t) bs) d)"

lemma varsize_any_append: "varlena_ok bs \<Longrightarrow> varsize_any (bs @ zs) = length bs"
  by (auto simp: varlena_ok_def varsize_any_def nth_append)

lemma extent_append: "datum_ok t (DPointer c bs) \<Longrightarrow> extent t (bs @ zs) = extent t bs"
  using varsize_any_append[of bs zs] by (auto simp: extent_def varlena_ok_def split: if_splits)

lemma make_fixed_size_stores:
  assumes "datum_ok t d" "0 < typlen t" "typlen t + 4 \<le> sum_len"
  shows "\<exists>bs. make_fixed_size garbage sum_len discriminant (typlen t) (typbyval t) d = Inr bs \<and>
    stores sum_len t discriminant d bs"
proof -
  define n where "n = nat (typlen t)"
  have n: "typlen t = int n" "0 < n" using assms by (auto simp: n_def)
  obtain src where src: "(if typbyval t then by_value d else by_reference d) = Inr src" "n \<le> length src"
    using assms n by (cases d) auto
  define buf where "buf = word_bytes 4 discriminant @ take n src @ drop (4 + n) (palloc garbage (nat sum_len))"
  have len: "4 + n \<le> nat sum_len" using assms n by linarith
  then have made: "make_fixed_size garbage sum_len discriminant (typlen t) (typbyval t) d = Inr buf"
    using src by (simp add: make_fixed_size_def memcpy_at_def n buf_def add.commute)
  have lenb: "length buf = nat sum_len" using len src by (simp add: buf_def)
  have "reads_as t (variant_datum beyond sum_len (typbyval t) buf) d" for beyond
  proof (cases d)
    case (DWord w)
    with assms src have t: "typbyval t" "src = word_bytes 8 w" "n \<le> 8" using n by auto
    have "take n (read_bytes beyond buf 4 8) = take n (drop 4 buf)"
      using lenb len t by (intro take_read_bytes) auto
    also have "\<dots> = take n (word_bytes 8 w)" using t by (simp add: buf_def)
    finally have "take_bit (8 * n) (bytes_word (read_bytes beyond buf 4 8)) = take_bit (8 * n) w"
      using t by (intro take_bit_bytes_word) auto
    then show ?thesis using DWord t assms by (simp add: variant_datum_def n)
  next
    case (DPointer c bs)
    then show ?thesis
      using assms src n extent_append[of t c bs "drop (4 + n) (palloc garbage (nat sum_len))"]
      by (auto simp: variant_datum_def buf_def split: if_splits)
  qed
  then show ?thesis using made lenb len by (auto simp: stores_def buf_def)
qed

lemma header_even: "\<not> bit (word_bytes 4 (push_bit 2 (w :: 32 word)) ! 0) 0"
proof -
  have "word_bytes 4 v ! 0 = ucast v" for v :: "32 word"
    by (simp add: word_bytes_Suc numeral_eq_Suc)
  then show ?thesis by (simp only: bit_simps) simp
qed

lemma make_var_size_stores:
  assumes "datum_ok t d"
  shows "\<exists>bs. make_var_size garbage discriminant (typlen t) (typbyval t) d = Inr bs \<and>
    stores (-1) t discriminant d bs"
proof (cases d)
  case (DWord w)
  define n where "n = nat (typlen t)"
  define hdr where "hdr = word_bytes 4 (push_bit 2 (word_of_nat n) :: 32 word)"
  define rest where "rest = take n (word_bytes 8 w)"
  define buf where "buf = word_bytes 4 discriminant @ hdr @ rest"
  have t: "typbyval t" "typlen t = int n" "0 < n" "n \<le> 8" using assms DWord by (auto simp: n_def)
  have lens: "length hdr = 4" "length rest = n" using t by (simp_all add: hdr_def rest_def)
  have even: "vardata_any (word_bytes 4 discriminant @ hdr @ xs) 4 = 8" for xs
    using header_even[of "word_of_nat n"] by (simp add: vardata_any_def nth_append hdr_def)
  have "nat (8 + int n) = 8 + n" by simp
  then have "make_var_size garbage discriminant (typlen t) (typbyval t) d = Inr buf"
    using t even lens by (simp add: make_var_size_def memcpy_at_def DWord buf_def hdr_def[symmetric] rest_def)
  moreover have "reads_as t (variant_datum beyond (-1) (typbyval t) buf) d" for beyond
  proof -
    have "take n (read_bytes beyond buf 8 8) = take n (drop 8 buf)"
      using lens t by (intro take_read_bytes) (auto simp: buf_def)
    also have "\<dots> = take n (word_bytes 8 w)" using lens by (simp add: buf_def rest_def)
    finally have "take_bit (8 * n) (bytes_word (read_bytes beyond buf 8 8)) = take_bit (8 * n) w"
      using t by (intro take_bit_bytes_word) auto
    then show ?thesis using t even by (simp add: variant_datum_def DWord buf_def)
  qed
  ultimately show ?thesis by (auto simp: stores_def buf_def)
next
  case (DPointer c bs)
  define n where "n = length bs"
  define buf where "buf = word_bytes 4 discriminant @ bs @
    drop n (word_bytes 4 (push_bit 2 (word_of_int (int n)) :: 32 word) @ drop 8 (palloc garbage (8 + n)))"
  have t: "\<not> typbyval t" "typlen t = -1 \<or> typlen t = int n" using assms DPointer by (auto simp: n_def split: if_splits)
  have sz: "(if typlen t = -1 then map_sum id (int \<circ> varsize_any) (by_reference d) else Inr (typlen t)) = Inr (int n)"
    using t assms DPointer by (auto simp: n_def varlena_ok_def)
  have "nat (8 + int n) = 8 + n" by simp
  then have "make_var_size garbage discriminant (typlen t) (typbyval t) d = Inr buf"
    unfolding make_var_size_def sz using t
    by (simp add: memcpy_at_def DPointer buf_def n_def)
  moreover have "reads_as t (variant_datum beyond (-1) (typbyval t) buf) d" for beyond
    using t assms extent_append[of t c bs] by (simp add: variant_datum_def DPointer buf_def)
  ultimately show ?thesis by (auto simp: stores_def buf_def)
qed

section \<open>Sum types whose variants fit\<close>

definition variant_fits :: "sum_env \<Rightarrow> int \<Rightarrow> Oid \<Rightarrow> bool" where
  "variant_fits env sum_len v \<longleftrightarrow>
     (case syscache_type env v of
        None \<Rightarrow> False
      | Some t \<Rightarrow> sum_len = -1 \<or> 0 < typlen t \<and> typlen t + 4 \<le> sum_len)"

definition sum_type_ok :: "sum_env \<Rightarrow> Oid \<times> Oid list \<Rightarrow> bool" where
  "sum_type_ok env row \<longleftrightarrow>
     (case syscache_type env (fst row) of
        None \<Rightarrow> False
      | Some st \<Rightarrow> (typlen st = -1 \<or> 4 \<le> typlen st) \<and> distinct (snd row) \<and> list_all (variant_fits env (typlen st)) (snd row))"

definition sum_types_ok :: "sum_env \<Rightarrow> bool" where
  "sum_types_ok env \<longleftrightarrow> distinct (map fst (sum_types env)) \<and> list_all (sum_type_ok env) (sum_types env)"

text \<open>
  What the catalog promises of the types: they are of variable length, or have a positive length.  This leaves out
  \<open>cstring\<close>, a pseudo-type, and \<open>unknown\<close>.  The invalid object id is no type.
\<close>

definition catalog_ok :: "sum_env \<Rightarrow> bool" where
  "catalog_ok env \<longleftrightarrow> syscache_type env InvalidOid = None \<and> (\<forall>v t. syscache_type env v = Some t \<longrightarrow> typlen t = -1 \<or> 0 < typlen t \<and> typlen t < 32768)"

definition all_small :: "sum_env \<Rightarrow> Oid option list \<Rightarrow> bool" where
  "all_small env vs \<longleftrightarrow> list_all (\<lambda>v. case v of None \<Rightarrow> True | Some v \<Rightarrow>
     (case syscache_type env v of None \<Rightarrow> True | Some t \<Rightarrow> typlen t < 32764)) vs"

lemma scan_variants_traits:
  "scan_variants env vs tr = Inr tr' \<Longrightarrow>
     variant_size tr \<le> variant_size tr' \<and> (varlen tr \<longrightarrow> varlen tr') \<and>
     (\<forall>v. Some v \<in> set vs \<longrightarrow> (\<exists>t. syscache_type env v = Some t \<and> (typlen t = -1 \<longrightarrow> varlen tr') \<and>
        (typlen t \<noteq> -1 \<longrightarrow> typlen t \<le> variant_size tr')))"
proof (induction env vs tr rule: scan_variants.induct)
  case (3 env v vs tr)
  then obtain t where t: "syscache_type env v = Some t" "\<not> typpseudo t"
    "scan_variants env vs (add_traits env v t tr) = Inr tr'"
    by (auto split: option.splits if_splits)
  have "variant_size tr \<le> variant_size (add_traits env v t tr)"
    "typlen t \<noteq> -1 \<Longrightarrow> typlen t \<le> variant_size (add_traits env v t tr)"
    "varlen (add_traits env v t tr) \<longleftrightarrow> varlen tr \<or> typlen t = -1"
    by (auto simp: add_traits_def)
  with 3(1)[OF t(1,2,3)] t(1) show ?case by fastforce
qed auto

lemma scan_variants_size:
  assumes "catalog_ok env"
  shows "scan_variants env vs tr = Inr tr' \<Longrightarrow> all_small env vs \<Longrightarrow> 0 \<le> variant_size tr \<Longrightarrow> variant_size tr < 32764 \<Longrightarrow>
    0 \<le> variant_size tr' \<and> variant_size tr' < 32764"
  using assms
proof (induction env vs tr rule: scan_variants.induct)
  case (3 env v vs tr)
  then obtain t where t: "syscache_type env v = Some t" "\<not> typpseudo t"
    "scan_variants env vs (add_traits env v t tr) = Inr tr'"
    by (auto split: option.splits if_splits)
  have "typlen t = -1 \<or> 0 < typlen t \<and> typlen t < 32764"
    using 3(3,6) t(1) by (auto simp: catalog_ok_def all_small_def)
  then have "0 \<le> variant_size (add_traits env v t tr) \<and> variant_size (add_traits env v t tr) < 32764"
    using 3(4,5) by (auto simp: add_traits_def)
  then show ?case using 3(1)[OF t(1,2,3)] 3(3,6) by (auto simp: all_small_def)
qed (auto simp: all_small_def)

lemma sint_of_int16: "- (2 ^ 15) \<le> k \<Longrightarrow> k < 2 ^ 15 \<Longrightarrow> sint (word_of_int k :: 16 word) = k"
  by (simp add: signed_of_int signed_take_bit_int_eq_self)

lemma type_size_eq:
  "0 \<le> variant_size tr \<Longrightarrow> variant_size tr < 32764 \<Longrightarrow>
   type_size tr = (if varlen tr then -1 else 4 + variant_size tr)"
  using sint_of_int16[of "4 + variant_size tr"] by (simp add: type_size_def)

lemma variant_fits_cong:
  "syscache_type env' v = syscache_type env v \<Longrightarrow> variant_fits env' n v = variant_fits env n v"
  by (simp add: variant_fits_def)

lemma new_sum_type_ok:
  assumes "catalog_ok env" "all_small env arr" "scan_variants env arr no_variants = Inr tr" "unique_variants arr"
    "syscache_type env oid = None"
    "syscache_type env' = (syscache_type env)(oid := Some (sum_pg_type proc_oid name tr))"
  shows "sum_type_ok env' (oid, map the arr)"
proof -
  have size: "0 \<le> variant_size tr" "variant_size tr < 32764"
    using scan_variants_size[OF assms(1,3,2)] by (simp_all add: no_variants_def)
  have "variant_fits env' (type_size tr) v" if mem: "Some v \<in> set arr" for v
  proof -
    obtain t where t: "syscache_type env v = Some t" "typlen t = -1 \<Longrightarrow> varlen tr"
      "typlen t \<noteq> -1 \<Longrightarrow> typlen t \<le> variant_size tr"
      using scan_variants_traits[OF assms(3)] mem by blast
    moreover have "typlen t = -1 \<or> 0 < typlen t" using assms(1) t(1) by (auto simp: catalog_ok_def)
    moreover have "v \<noteq> oid" using t(1) assms(5) by auto
    ultimately show ?thesis
      using size by (auto simp: variant_fits_def assms(6) type_size_eq)
  qed
  then have "list_all (variant_fits env' (type_size tr)) (map the arr)"
    using assms(4) by (auto simp: list_all_iff unique_variants_def) (metis option.exhaust_sel)
  moreover have "distinct (map the arr)"
    using assms(4) by (auto simp: unique_variants_def distinct_map inj_on_def) (metis option.expand)
  ultimately show ?thesis using size by (simp add: sum_type_ok_def assms(6) sum_pg_type_def type_size_eq)
qed

lemma other_sum_type_ok:
  assumes "sum_type_ok env row" "syscache_type env oid = None" "syscache_type env' = (syscache_type env)(oid := x)"
  shows "sum_type_ok env' row"
  using assms
  by (auto simp: sum_type_ok_def list_all_iff variant_fits_def split: option.splits)

lemma sum_type_keeps_ok:
  assumes "catalog_ok env" "sum_types_ok env" "syscache_type env oid = None"
    "sum_type env oid proc_oid name variants = Inr (r, cmds, env')" "\<And>vs. variants = Some vs \<Longrightarrow> all_small env vs"
  shows "sum_types_ok env'"
proof -
  obtain nm arr tr where d: "name = Some nm" "variants = Some arr" "scan_variants env arr no_variants = Inr tr"
    "unique_variants arr"
    "env' = env\<lparr>syscache_type := (syscache_type env)(oid := Some (sum_pg_type proc_oid nm tr)),
       sum_types := sum_types env @ [(oid, map the arr)]\<rparr>"
    using assms(4)
    by (auto simp: sum_type_def Let_def bind_outcome_Inr_iff split: option.splits if_splits)
  have "oid \<notin> fst ` set (sum_types env)"
    using assms(2,3) by (auto simp: sum_types_ok_def list_all_iff sum_type_ok_def split: option.splits)
  moreover have "sum_type_ok env' (oid, map the arr)"
    using new_sum_type_ok[OF assms(1) assms(5)[OF d(2)] d(3,4) assms(3)] by (simp add: d(5))
  moreover have "sum_type_ok env' row" if "row \<in> set (sum_types env)" for row
    using other_sum_type_ok[of env row oid env'] assms(2,3) that
    by (auto simp: d(5) sum_types_ok_def list_all_iff)
  ultimately show ?thesis
    using assms(2) by (auto simp: sum_types_ok_def list_all_iff d(5))
qed

lemma word64_less: "0 \<le> a \<Longrightarrow> a < 2 ^ 63 \<Longrightarrow> 0 \<le> b \<Longrightarrow> b < 2 ^ 63 \<Longrightarrow>
    (word_of_int a :: 64 word) < word_of_int b \<longleftrightarrow> a < b"
  by (simp add: word_less_def uint_word_of_int_eq take_bit_int_eq_self)

lemma add_variant_keeps_ok:
  assumes "catalog_ok env" "sum_types_ok env" "add_variant env a b = Inr env'"
  shows "sum_types_ok env'"
proof -
  obtain oid v st t rows where d: "syscache_type env oid = Some st" "syscache_type env v = Some t"
    "\<not> (typlen st \<noteq> -1 \<and> (typlen t < 0 \<or> (word_of_int (typlen st - 4) :: 64 word) < word_of_int (typlen t)))"
    "append_variant oid v (sum_types env) = Inr rows" "env' = env\<lparr>sum_types := rows\<rparr>"
    using assms(3)
    by (auto simp: add_variant_def Let_def bind_outcome_Inr_iff split: option.splits if_splits)
  define upd where "upd = (\<lambda>row y. fst y = fst row \<and>
    (snd y = snd row \<or> fst row = oid \<and> v \<notin> set (snd row) \<and> snd y = snd row @ [v]))"
  have all2: "list_all2 upd (sum_types env) rows"
    using d(4) unfolding append_variant_def mapM_outcome_list_all2
    by (rule list_all2_mono) (auto simp: upd_def split: if_splits)
  then have "map fst rows = map fst (sum_types env)"
    by (induction rule: list_all2_induct) (auto simp: upd_def)
  moreover have "sum_type_ok env' y" if "upd row y" "sum_type_ok env row" for row y
  proof -
    have "variant_fits env (typlen st) v" if "typlen st = -1 \<or> 4 \<le> typlen st"
    proof -
      have "typlen t = -1 \<or> 0 < typlen t \<and> typlen t < 32768" "typlen st = -1 \<or> typlen st < 32768"
        using assms(1) d(1,2) by (auto simp: catalog_ok_def)
      then show ?thesis
        using that d(2,3) word64_less[of "typlen st - 4" "typlen t"] by (auto simp: variant_fits_def)
    qed
    moreover have "variant_fits env' = variant_fits env"
      by (intro ext) (simp add: variant_fits_def d(5))
    ultimately show ?thesis
      using that d(1) by (auto simp: upd_def sum_type_ok_def d(5) split: option.splits)
  qed
  then have "list_all (sum_type_ok env') rows"
    using all2 assms(2) unfolding list_all_length list_all2_conv_all_nth sum_types_ok_def by metis
  ultimately show ?thesis using assms(2) by (simp add: sum_types_ok_def d(5))
qed

section \<open>The cache\<close>

text \<open>
  The cached entry of a type is of use: if it has the \<open>xmin\<close> of the current snapshot, it holds the variants that the
  table has, and if not, the slot it leaves does not read as if it had.
\<close>

definition cache_agrees :: "sum_env \<Rightarrow> Oid \<Rightarrow> sumtypehash \<Rightarrow> bool" where
  "cache_agrees env oid cache \<longleftrightarrow>
     (case hash_find cache oid of
        None \<Rightarrow> True
      | Some entry \<Rightarrow>
          if entry_xmin entry = snapshot_xmin env
          then map_option (fill_entry env (snapshot_xmin env)) (map_of (sum_types env) oid) = Some entry
          else freed_slot_xmin env entry \<noteq> snapshot_xmin env)"

definition warm :: "sum_env \<Rightarrow> Oid \<Rightarrow> SumTypeCacheEntry \<Rightarrow> sumtypehash \<Rightarrow> bool" where
  "warm env oid entry cache \<longleftrightarrow> hash_find cache oid = Some entry \<and> entry_xmin entry = snapshot_xmin env"

lemma lookup_warm: "warm env oid entry cache \<Longrightarrow> lookup_sumtype_cache env oid cache = (Some entry, cache)"
  by (subst lookup_sumtype_cache.simps) (simp add: warm_def)

lemma lookup_absent:
  "hash_find cache oid = None \<Longrightarrow> lookup_sumtype_cache env oid cache =
     (case map_of (sum_types env) oid of
        Some variants \<Rightarrow>
          (Some (fill_entry env (snapshot_xmin env) variants),
           hash_enter oid (fill_entry env (snapshot_xmin env) variants) cache)
      | None \<Rightarrow> (None, cache))"
  by (subst lookup_sumtype_cache.simps) (simp add: Let_def split: option.split)

lemma lookup_stale:
  "hash_find cache oid = Some entry \<Longrightarrow> entry_xmin entry \<noteq> snapshot_xmin env \<Longrightarrow>
   lookup_sumtype_cache env oid cache =
     (if freed_slot_xmin env entry \<noteq> snapshot_xmin env
      then lookup_sumtype_cache env oid (hash_remove oid cache)
      else (None, hash_remove oid cache))"
  by (subst lookup_sumtype_cache.simps) (simp add: Let_def)

lemma lookup_agrees:
  assumes "cache_agrees env oid cache" "map_of (sum_types env) oid = Some variants"
  shows "\<exists>cache'. lookup_sumtype_cache env oid cache = (Some (fill_entry env (snapshot_xmin env) variants), cache') \<and>
    warm env oid (fill_entry env (snapshot_xmin env) variants) cache'"
proof (cases "hash_find cache oid")
  case None
  then show ?thesis using assms by (simp add: lookup_absent warm_def htab_simps fill_entry_def)
next
  case (Some entry)
  show ?thesis
  proof (cases "entry_xmin entry = snapshot_xmin env")
    case True
    with Some assms have "warm env oid (fill_entry env (snapshot_xmin env) variants) cache"
      by (simp add: cache_agrees_def warm_def)
    then show ?thesis using lookup_warm by blast
  next
    case False
    have "hash_find (hash_remove oid cache) oid = None" by (simp add: htab_simps)
    then show ?thesis
      using Some False assms
      by (simp add: lookup_stale lookup_absent cache_agrees_def warm_def htab_simps fill_entry_def)
  qed
qed

lemmas action_simps = bind_action_def return_action_def fail_action_def lift_outcome_def

lemma cached_entry_warm: "warm env oid entry cache \<Longrightarrow> cached_entry env oid cache = (Inr (Some entry), cache)"
  by (simp add: cached_entry_def lookup_warm)

lemma index_of_variant_nth:
  "v \<in> set xs \<Longrightarrow> \<exists>k < length xs. xs ! k = v \<and> index_of_variant v i xs = Some (i + of_nat k)"
proof (induction xs arbitrary: i)
  case (Cons x xs)
  show ?case
  proof (cases "x = v")
    case False
    then obtain k where "k < length xs" "xs ! k = v" "index_of_variant v (i + 1) xs = Some (i + 1 + of_nat k)"
      using Cons by force
    then show ?thesis using False by (intro exI[of _ "Suc k"]) (simp add: add_ac)
  qed auto
qed simp

lemma oid_at_nth: "k < length xs \<Longrightarrow> length xs < 2 ^ 31 \<Longrightarrow> oid_at xs (of_nat k) = Inr (xs ! k)"
proof -
  assume k: "k < length xs" "length xs < 2 ^ 31"
  have "sint (of_nat k :: 32 word) = int k"
    using k by (simp add: signed_of_nat signed_take_bit_int_eq_self)
  then show ?thesis using k by (simp add: oid_at_def)
qed

lemma bytes_word_discriminant: "bytes_word (word_bytes 4 (d :: 32 word)) = d"
  by (simp add: bytes_word_word_bytes take_bit_word_eq_self)

text \<open>Reading back a stored value.\<close>

lemma get_variant_val_stores:
  assumes "warm env oid entry cache" "syscache_type env oid = Some st"
    "stores (typlen st) t (of_nat k) d bs" "k < length (variant_type_oids entry)"
    "length (variant_type_oids entry) < 2 ^ 31" "syscache_type env (variant_type_oids entry ! k) = Some t"
  shows "\<exists>d'. reads_as t d' d \<and>
    (\<forall>w. get_variant_val env beyond (DPointer c bs) oid w cache =
       (Inr (variant_type_oids entry ! k, Some d', of_nat k), cache))"
proof (intro exI conjI allI)
  show "reads_as t (variant_datum beyond (typlen st) (typbyval t) bs) d"
    using assms(3) by (simp add: stores_def)
  have "discriminant_of (DPointer c bs) = Inr (of_nat k)"
    using assms(3) by (simp add: stores_def bytes_word_discriminant)
  then show "get_variant_val env beyond (DPointer c bs) oid w cache =
     (Inr (variant_type_oids entry ! k, Some (variant_datum beyond (typlen st) (typbyval t) bs), of_nat k), cache)" for w
    using assms(1,2,6) oid_at_nth[OF assms(4,5)]
    by (simp add: get_variant_val_def action_simps type_tuple_def cached_entry_warm)
qed

section \<open>Values of a sum type\<close>

text \<open>The datum \<open>val\<close> is a value of the sum type that holds \<open>d\<close> as its variant number \<open>k\<close>.\<close>

definition is_value :: "sum_env \<Rightarrow> Oid \<Rightarrow> nat \<Rightarrow> Datum \<Rightarrow> Datum \<Rightarrow> bool" where
  "is_value env oid k d val \<longleftrightarrow>
     (\<exists>st vs t bs c. syscache_type env oid = Some st \<and> map_of (sum_types env) oid = Some vs \<and>
        k < length vs \<and> length vs < 2 ^ 31 \<and> syscache_type env (vs ! k) = Some t \<and>
        val = DPointer c bs \<and> stores (typlen st) t (of_nat k) d bs)"

definition current_entry :: "sum_env \<Rightarrow> Oid \<Rightarrow> SumTypeCacheEntry" where
  "current_entry env oid = fill_entry env (snapshot_xmin env) (the (map_of (sum_types env) oid))"

lemma current_entry_variants:
  "map_of (sum_types env) oid = Some vs \<Longrightarrow> variant_type_oids (current_entry env oid) = vs"
  by (simp add: current_entry_def fill_entry_def)

lemma cached_entry_agrees:
  assumes "cache_agrees env oid cache" "map_of (sum_types env) oid = Some variants"
  shows "\<exists>cache'. cached_entry env oid cache = (Inr (Some (current_entry env oid)), cache') \<and>
    warm env oid (current_entry env oid) cache'"
  using lookup_agrees[OF assms] assms(2) by (auto simp: cached_entry_def current_entry_def)

lemma warm_agrees:
  "warm env oid (current_entry env oid) cache \<Longrightarrow> map_of (sum_types env) oid = Some vs \<Longrightarrow> cache_agrees env oid cache"
  by (simp add: warm_def cache_agrees_def current_entry_def)

lemma get_variant_val_cached:
  assumes "cached_entry env oid cache = (Inr (Some entry), cache')" "warm env oid entry cache'"
    "get_variant_val env beyond (DPointer c bs) oid w cache' = (Inr x, cache')"
  shows "get_variant_val env beyond (DPointer c bs) oid w cache = (Inr x, cache')"
  using assms(1,3) cached_entry_warm[OF assms(2)]
  by (auto simp: get_variant_val_def action_simps type_tuple_def
      split: option.splits if_splits prod.splits sum.splits)

lemma get_value:
  assumes "is_value env oid k d val" "cache_agrees env oid cache"
    "map_of (sum_types env) oid = Some vs" "syscache_type env (vs ! k) = Some t"
  shows "\<exists>d' cache'. reads_as t d' d \<and> warm env oid (current_entry env oid) cache' \<and>
    (warm env oid (current_entry env oid) cache \<longrightarrow> cache' = cache) \<and>
    (\<forall>w. get_variant_val env beyond val oid w cache = (Inr (vs ! k, Some d', of_nat k), cache'))"
proof -
  obtain st bs c where v: "syscache_type env oid = Some st" "k < length vs" "length vs < 2 ^ 31"
    "val = DPointer c bs" "stores (typlen st) t (of_nat k) d bs"
    using assms(1,3,4) by (auto simp: is_value_def)
  obtain cache' where c: "cached_entry env oid cache = (Inr (Some (current_entry env oid)), cache')"
    "warm env oid (current_entry env oid) cache'"
    using cached_entry_agrees[OF assms(2,3)] by (elim exE conjE)
  obtain d' where d': "reads_as t d' d"
    "\<forall>w. get_variant_val env beyond (DPointer c bs) oid w cache' = (Inr (vs ! k, Some d', of_nat k), cache')"
    using get_variant_val_stores[OF c(2) v(1,5)] v assms(4) current_entry_variants[OF assms(3)] by metis
  moreover have "warm env oid (current_entry env oid) cache \<longrightarrow> cache' = cache"
    using cached_entry_warm[of env oid "current_entry env oid" cache] c(1) by simp
  ultimately show ?thesis
    using get_variant_val_cached[OF c] c(2) v(4) by blast
qed

lemma make_variant_value:
  assumes "syscache_type env oid = Some st" "map_of (sum_types env) oid = Some vs" "k < length vs" "length vs < 2 ^ 31"
    "syscache_type env (vs ! k) = Some t" "sum_types_ok env" "datum_ok t d"
  shows "\<exists>val. make_variant garbage (typlen st) (of_nat k) (typlen t) (typbyval t) d = Inr val \<and> is_value env oid k d val"
proof -
  have row: "sum_type_ok env (oid, vs)"
    using assms(2,6) map_of_SomeD by (fastforce simp: sum_types_ok_def list_all_iff)
  then have "variant_fits env (typlen st) (vs ! k)" "typlen st = -1 \<or> 4 \<le> typlen st"
    using assms(1,3) by (auto simp: sum_type_ok_def list_all_length)
  then have fits: "typlen st = -1 \<or> 0 < typlen t \<and> typlen t + 4 \<le> typlen st"
    using assms(5) by (simp add: variant_fits_def)
  have "\<exists>bs. make_variant garbage (typlen st) (of_nat k) (typlen t) (typbyval t) d = Inr (DPointer CallerContext bs) \<and>
    stores (typlen st) t (of_nat k) d bs"
  proof (cases "typlen st = -1")
    case True
    then show ?thesis using make_var_size_stores[OF assms(7), of garbage "of_nat k"] by (auto simp: make_variant_def)
  next
    case False
    then show ?thesis
      using make_fixed_size_stores[OF assms(7), of "typlen st" garbage "of_nat k"] fits by (auto simp: make_variant_def)
  qed
  then show ?thesis using assms(1-5) by (auto simp: is_value_def)
qed

lemma reads_as_trans: "reads_as t d'' d' \<Longrightarrow> reads_as t d' d \<Longrightarrow> reads_as t d'' d"
  by (cases d; cases d'; cases d'') auto

lemma is_value_reads_as:
  assumes "is_value env oid k d' val" "map_of (sum_types env) oid = Some vs" "syscache_type env (vs ! k) = Some t"
    "reads_as t d' d"
  shows "is_value env oid k d val"
proof -
  obtain st bs c where "syscache_type env oid = Some st" "k < length vs" "length vs < 2 ^ 31"
    "val = DPointer c bs" "stores (typlen st) t (of_nat k) d' bs"
    using assms(1-3) by (auto simp: is_value_def)
  moreover from this(5) have "stores (typlen st) t (of_nat k) d bs"
    using reads_as_trans[OF _ assms(4)] by (auto simp: stores_def)
  ultimately show ?thesis using assms(2,3) by (auto simp: is_value_def)
qed

section \<open>Sum types that have been defined\<close>

text \<open>The calls that change the definitions of sum types, each for a new object id or an existing type.\<close>

inductive ddl_step :: "sum_env \<Rightarrow> sum_env \<Rightarrow> bool" where
  define_type: "syscache_type env oid = None \<Longrightarrow> oid \<noteq> InvalidOid \<Longrightarrow> all_small env arr \<Longrightarrow>
    sum_type env oid proc_oid name (Some arr) = Inr (r, cmds, env') \<Longrightarrow> ddl_step env env'"
| extend_type: "add_variant env (Some oid) (Some v) = Inr env' \<Longrightarrow> ddl_step env env'"

inductive_cases ddl_stepE: "ddl_step env env'"

lemma sum_type_catalog:
  assumes "catalog_ok env" "oid \<noteq> InvalidOid" "all_small env arr"
    "sum_type env oid proc_oid name (Some arr) = Inr (r, cmds, env')"
  shows "catalog_ok env'"
proof -
  obtain nm tr where d: "scan_variants env arr no_variants = Inr tr"
    "syscache_type env' = (syscache_type env)(oid := Some (sum_pg_type proc_oid nm tr))"
    using assms(4) by (auto simp: sum_type_def Let_def bind_outcome_Inr_iff split: option.splits if_splits)
  have "0 \<le> variant_size tr" "variant_size tr < 32764"
    using scan_variants_size[OF assms(1) d(1) assms(3)] by (simp_all add: no_variants_def)
  then show ?thesis
    using assms(1,2) by (auto simp: catalog_ok_def d(2) sum_pg_type_def type_size_eq)
qed

lemma ddl_step_ok:
  assumes "ddl_step env env'" "catalog_ok env" "sum_types_ok env"
  shows "catalog_ok env' \<and> sum_types_ok env'"
  using assms(1)
proof cases
  case (define_type oid arr proc_oid name r cmds)
  then show ?thesis
    using sum_type_catalog[OF assms(2)] sum_type_keeps_ok[OF assms(2,3)] by blast
next
  case (extend_type oid v)
  then have "syscache_type env' = syscache_type env"
    by (auto simp: add_variant_def Let_def bind_outcome_Inr_iff split: option.splits if_splits)
  then show ?thesis
    using extend_type add_variant_keeps_ok[OF assms(2,3)] assms(2) by (simp add: catalog_ok_def)
qed

lemma defined_ok:
  "ddl_step\<^sup>*\<^sup>* env0 env \<Longrightarrow> catalog_ok env0 \<Longrightarrow> sum_types env0 = [] \<Longrightarrow> catalog_ok env \<and> sum_types_ok env"
  by (induction rule: rtranclp_induct) (auto simp: sum_types_ok_def dest: ddl_step_ok)

lemma sum_cast_from_value:
  assumes "cache_agrees env oid cache" "sum_types_ok env" "map_of (sum_types env) oid = Some vs" "v \<in> set vs"
    "length vs < 2 ^ 31" "syscache_type env v = Some t" "datum_ok t d"
  shows "\<exists>k val cache'. k < length vs \<and> vs ! k = v \<and> sum_cast_from env garbage oid v d cache = (Inr val, cache') \<and>
    is_value env oid k d val \<and> warm env oid (current_entry env oid) cache'"
proof -
  obtain cache' where c: "cached_entry env oid cache = (Inr (Some (current_entry env oid)), cache')"
    "warm env oid (current_entry env oid) cache'"
    using cached_entry_agrees[OF assms(1,3)] by (elim exE conjE)
  obtain k where k: "k < length vs" "vs ! k = v" "index_of_variant v 0 vs = Some (of_nat k)"
    using index_of_variant_nth[OF assms(4), of 0] by auto
  have "sum_type_ok env (oid, vs)"
    using assms(2,3) map_of_SomeD by (fastforce simp: sum_types_ok_def list_all_iff)
  then obtain st where st: "syscache_type env oid = Some st"
    by (auto simp: sum_type_ok_def split: option.splits)
  obtain val where "make_variant garbage (typlen st) (of_nat k) (typlen t) (typbyval t) d = Inr val"
    "is_value env oid k d val"
    using make_variant_value[OF st assms(3) k(1) assms(5) _ assms(2,7)] k(2) assms(6) by blast
  then have "sum_cast_from env garbage oid v d cache = (Inr val, cache')" "is_value env oid k d val"
    using c(1) k(3) st assms(6) current_entry_variants[OF assms(3)]
    by (simp_all add: sum_cast_from_def action_simps type_tuple_def)
  then show ?thesis using k c(2) by blast
qed


section \<open>Text and binary forms\<close>

lemma names_variant_iff:
  assumes "CHR ''('' \<notin> set name" "CHR ''('' \<notin> set type"
  shows "names_variant (name @ CHR ''('' # rest) type \<longleftrightarrow> type = name"
proof
  assume nv: "names_variant (name @ CHR ''('' # rest) type"
  then obtain zs where zs0: "name @ CHR ''('' # rest = type @ zs"
    by (auto simp: names_variant_def prefix_def)
  then have zs: "zs \<noteq> []" "hd zs = CHR ''(''"
    using nv unfolding names_variant_def zs0 by (auto simp: hd_conv_nth nth_append)
  from zs0 have "takeWhile (\<lambda>c. c \<noteq> CHR ''('') (name @ CHR ''('' # rest) = takeWhile (\<lambda>c. c \<noteq> CHR ''('') (type @ zs)"
    by simp
  moreover have "takeWhile (\<lambda>c. c \<noteq> CHR ''('') (xs @ CHR ''('' # ys) = xs" if "CHR ''('' \<notin> set xs" for xs ys
    using that by (induction xs) auto
  ultimately show "type = name" using assms zs by (metis list.collapse)
qed (simp add: names_variant_def)

lemma match_variant_nth:
  assumes "distinct (map (format_type_be env) vs)" "list_all (\<lambda>v. CHR ''('' \<notin> set (format_type_be env v)) vs"
    "k < length vs"
  shows "match_variant env (format_type_be env (vs ! k) @ CHR ''('' # rest) i vs = (i + of_nat k, vs ! k)"
  using assms
proof (induction vs arbitrary: i k)
  case (Cons v vs)
  show ?case
  proof (cases k)
    case 0
    with Cons.prems show ?thesis by (simp add: names_variant_def)
  next
    case (Suc m)
    then have "format_type_be env v \<noteq> format_type_be env (vs ! m)" "CHR ''('' \<notin> set (format_type_be env (vs ! m))"
      using Cons.prems by (auto simp: list_all_length)
    then show ?thesis
      using Cons.prems Suc Cons.IH[of m "i + 1"] by (simp add: names_variant_iff add_ac)
  qed
qed simp

text \<open>What the text form needs of the names of the variants.\<close>

definition names_ok :: "sum_env \<Rightarrow> Oid list \<Rightarrow> bool" where
  "names_ok env vs \<longleftrightarrow> distinct (map (format_type_be env) vs) \<and>
     list_all (\<lambda>v. CHR ''('' \<notin> set (format_type_be env v)) vs"

text \<open>
  Reading what was written gives back the datum, in the text and in the binary form of a type.  The functions that read are called with
  \<open>typmodin\<close> as the type modifier, as the code does; for types whose \<open>typmodin\<close> is 0 this is the modifier 0, which
  their functions ignore.
\<close>

definition text_io_ok :: "sum_env \<Rightarrow> Oid \<Rightarrow> pg_type \<Rightarrow> Datum \<Rightarrow> bool" where
  "text_io_ok env v t d \<longleftrightarrow> (\<forall>d'. reads_as t d' d \<longrightarrow>
     (\<exists>d''. call_input env (typinput t) (call_output env (typoutput t) d') (type_io_param v t) (typmodin t) = Inr d'' \<and>
        datum_ok t d'' \<and> reads_as t d'' d))"

definition binary_io_ok :: "sum_env \<Rightarrow> Oid \<Rightarrow> pg_type \<Rightarrow> Datum \<Rightarrow> bool" where
  "binary_io_ok env v t d \<longleftrightarrow> (\<forall>d'. reads_as t d' d \<longrightarrow>
     (\<exists>d''. call_receive env (typreceive t) (call_send env (typsend t) d') (type_io_param v t) (typmodin t) = Inr d'' \<and>
        datum_ok t d'' \<and> reads_as t d'' d))"

lemma value_facts:
  assumes "is_value env oid k d val"
  shows "\<exists>st vs t. syscache_type env oid = Some st \<and> map_of (sum_types env) oid = Some vs \<and>
    k < length vs \<and> length vs < 2 ^ 31 \<and> syscache_type env (vs ! k) = Some t"
  using assms by (auto simp: is_value_def)

lemma text_round_trip:
  assumes "is_value env oid k d val" "map_of (sum_types env) oid = Some vs" "syscache_type env (vs ! k) = Some t"
    "cache_agrees env oid cache" "sum_types_ok env" "names_ok env vs" "text_io_ok env (vs ! k) t d"
  shows "\<exists>s val' cache'. sum_out env beyond oid val cache = (Inr s, cache') \<and>
    sum_in env garbage oid s cache' = (Inr val', cache') \<and> is_value env oid k d val'"
proof -
  obtain st where st: "syscache_type env oid = Some st" "k < length vs" "length vs < 2 ^ 31"
    using value_facts[OF assms(1)] assms(2) by auto
  obtain d' cache' where d': "reads_as t d' d" "warm env oid (current_entry env oid) cache'"
    "\<forall>w. get_variant_val env beyond val oid w cache = (Inr (vs ! k, Some d', of_nat k), cache')"
    using get_value[OF assms(1,4,2,3)] by blast
  define s where "s = format_type_be env (vs ! k) @ ''('' @ call_output env (typoutput t) d' @ '')''"
  have out: "sum_out env beyond oid val cache = (Inr s, cache')"
    using d'(3) assms(3) by (simp add: sum_out_def action_simps type_tuple_def initialised_def s_def)
  have names: "distinct (map (format_type_be env) vs)" "list_all (\<lambda>v. CHR ''('' \<notin> set (format_type_be env v)) vs"
    using assms(6) by (simp_all add: names_ok_def)
  have matched: "match_variant env s 0 vs = (of_nat k, vs ! k)"
    using match_variant_nth[OF names st(2), of "call_output env (typoutput t) d' @ '')''" 0] by (simp add: s_def)
  have "CHR ''('' \<notin> set (format_type_be env (vs ! k))" using names(2) st(2) by (simp add: list_all_length)
  then have "dropWhile (\<lambda>c. c \<noteq> CHR ''('') s = CHR ''('' # call_output env (typoutput t) d' @ '')''"
    unfolding s_def by (subst dropWhile_append2) auto
  then have inner: "butlast (tl (dropWhile (\<lambda>c. c \<noteq> CHR ''('') s)) = call_output env (typoutput t) d'"
    by (simp add: butlast_append)
  obtain d'' where d'': "call_input env (typinput t) (call_output env (typoutput t) d') (type_io_param (vs ! k) t) (typmodin t) = Inr d''"
    "datum_ok t d''" "reads_as t d'' d"
    using assms(7) d'(1) unfolding text_io_ok_def by blast
  obtain val' where val': "make_variant garbage (typlen st) (of_nat k) (typlen t) (typbyval t) d'' = Inr val'"
    "is_value env oid k d'' val'"
    using make_variant_value[OF st(1) assms(2) st(2,3) assms(3,5) d''(2)] by blast
  have "sum_in env garbage oid s cache' = (Inr val', cache')"
    using st(1) matched inner d''(1) val'(1) assms(3) current_entry_variants[OF assms(2)]
    by (simp add: sum_in_def action_simps type_tuple_def cached_entry_warm[OF d'(2)] s_def Let_def)
  then show ?thesis using out is_value_reads_as[OF val'(2) assms(2,3) d''(3)] by blast
qed

lemma binary_round_trip:
  assumes "is_value env oid k d val" "map_of (sum_types env) oid = Some vs" "syscache_type env (vs ! k) = Some t"
    "cache_agrees env oid cache" "sum_types_ok env" "catalog_ok env" "binary_io_ok env (vs ! k) t d"
  shows "\<exists>bytes val' cache'. sum_send env beyond oid val cache = (Inr bytes, cache') \<and>
    sum_recv env garbage oid bytes cache' = (Inr val', cache') \<and> is_value env oid k d val'"
proof -
  obtain st where st: "syscache_type env oid = Some st" "k < length vs" "length vs < 2 ^ 31"
    using value_facts[OF assms(1)] assms(2) by auto
  obtain d' cache' where d': "reads_as t d' d" "warm env oid (current_entry env oid) cache'"
    "\<forall>w. get_variant_val env beyond val oid w cache = (Inr (vs ! k, Some d', of_nat k), cache')"
    using get_value[OF assms(1,4,2,3)] by blast
  define bytes where "bytes = be_bytes 4 (of_nat k :: 32 word) @ call_send env (typsend t) d'"
  have out: "sum_send env beyond oid val cache = (Inr bytes, cache')"
    using d'(3) assms(3) by (simp add: sum_send_def action_simps type_tuple_def initialised_def bytes_def)
  have disc: "be_word (take 4 bytes) = (of_nat k :: 32 word)"
    by (simp add: bytes_def be_word_be_bytes take_bit_word_eq_self)
  have "int (length vs) \<ge> sint (of_nat (Suc k) :: 32 word)"
  proof (cases "Suc k < 2 ^ 31")
    case True
    then have "sint (of_nat (Suc k) :: 32 word) = int (Suc k)"
      by (simp add: signed_of_nat signed_take_bit_int_eq_self del: of_nat_Suc)
    then show ?thesis using st(2) by simp
  qed (use st in simp)
  then have bound: "\<not> int (length vs) < sint ((of_nat k :: 32 word) + 1)" by (simp add: add.commute)
  obtain d'' where d'': "call_receive env (typreceive t) (call_send env (typsend t) d') (type_io_param (vs ! k) t) (typmodin t) = Inr d''"
    "datum_ok t d''" "reads_as t d'' d"
    using assms(7) d'(1) unfolding binary_io_ok_def by blast
  obtain val' where val': "make_variant garbage (typlen st) (of_nat k) (typlen t) (typbyval t) d'' = Inr val'"
    "is_value env oid k d'' val'"
    using make_variant_value[OF st(1) assms(2) st(2,3) assms(3,5) d''(2)] by blast
  have "vs ! k \<noteq> InvalidOid" using assms(3,6) by (auto simp: catalog_ok_def)
  moreover have "drop 4 bytes = call_send env (typsend t) d'" "\<not> length bytes < 4" by (simp_all add: bytes_def)
  ultimately have "sum_recv env garbage oid bytes cache' = (Inr val', cache')"
    using st(1) disc bound d''(1) val'(1) assms(3) current_entry_variants[OF assms(2)] oid_at_nth[OF st(2,3)]
    by (simp add: sum_recv_def action_simps type_tuple_def cached_entry_warm[OF d'(2)] Let_def)
  then show ?thesis using out is_value_reads_as[OF val'(2) assms(2,3) d''(3)] by blast
qed


section \<open>The order on a sum type\<close>

fun cmp_holds :: "cmp_operator \<Rightarrow> int \<Rightarrow> bool" where
  "cmp_holds OP_EQUAL c \<longleftrightarrow> c = 0"
| "cmp_holds OP_NOT_EQUAL c \<longleftrightarrow> c \<noteq> 0"
| "cmp_holds OP_LESS c \<longleftrightarrow> c < 0"
| "cmp_holds OP_LESS_EQUAL c \<longleftrightarrow> c \<le> 0"
| "cmp_holds OP_GREATER c \<longleftrightarrow> c > 0"
| "cmp_holds OP_GREATER_EQUAL c \<longleftrightarrow> c \<ge> 0"

definition cmp_proc :: "sum_env \<Rightarrow> Oid \<Rightarrow> Oid" where
  "cmp_proc env v = support_proc env (GetDefaultOpClass env v btree)
     (if map_option typtype (syscache_type env v) = Some TYPTYPE_COMPOSITE then 2249 else v)"

text \<open>
  What a default operator class for B-trees promises: there is a comparison function, the operators agree with
  it, and it depends only on the bytes of the values.  The last does not hold for \<open>boolean\<close>, which is compared
  by whole words.
\<close>

definition btree_ok :: "sum_env \<Rightarrow> Oid \<Rightarrow> pg_type \<Rightarrow> bool" where
  "btree_ok env v t \<longleftrightarrow>
     GetDefaultOpClass env v btree \<noteq> InvalidOid \<and> cmp_proc env v \<noteq> InvalidOid \<and>
     (\<forall>oper. lookup_operator env v (operator_names oper) \<noteq> InvalidOid \<and>
        get_opcode env (lookup_operator env v (operator_names oper)) \<noteq> InvalidOid \<and>
        (\<forall>x y. call_bool env (get_opcode env (lookup_operator env v (operator_names oper))) x y \<longleftrightarrow>
           cmp_holds oper (sint (call_cmp env (cmp_proc env v) x y)))) \<and>
     (\<forall>x x' y y'. reads_as t x' x \<longrightarrow> reads_as t y' y \<longrightarrow>
        call_cmp env (cmp_proc env v) x' y' = call_cmp env (cmp_proc env v) x y)"

text \<open>The order of a sum type: first by the position of the variant, then by the order of the variant's type.\<close>

definition sum_order :: "sum_env \<Rightarrow> Oid list \<Rightarrow> nat \<times> Datum \<Rightarrow> nat \<times> Datum \<Rightarrow> int" where
  "sum_order env vs = (\<lambda>(k1, d1) (k2, d2).
     if k1 = k2 then sint (call_cmp env (cmp_proc env (vs ! k1)) d1 d2) else if k1 < k2 then -1 else 1)"

lemma oid_at_map:
  assumes "k < length vs" "length vs < 2 ^ 31" shows "oid_at (map f vs) (of_nat k) = Inr (f (vs ! k))"
  using oid_at_nth[of k "map f vs"] assms by simp

lemma sint_of_nat_index: "k < length vs \<Longrightarrow> length vs < 2 ^ 31 \<Longrightarrow> sint (of_nat k :: 32 word) = int k"
  by (simp add: signed_of_nat signed_take_bit_int_eq_self)

lemma get_two_values:
  assumes "is_value env oid k1 d1 a" "is_value env oid k2 d2 b" "cache_agrees env oid cache"
    "map_of (sum_types env) oid = Some vs" "syscache_type env (vs ! k1) = Some t1" "syscache_type env (vs ! k2) = Some t2"
  shows "\<exists>d1' d2' cache'. reads_as t1 d1' d1 \<and> reads_as t2 d2' d2 \<and> warm env oid (current_entry env oid) cache' \<and>
    get_variant_val env beyond a oid True cache = (Inr (vs ! k1, Some d1', of_nat k1), cache') \<and>
    get_variant_val env beyond b oid True cache' = (Inr (vs ! k2, Some d2', of_nat k2), cache')"
proof -
  obtain d1' cache' where 1: "reads_as t1 d1' d1" "warm env oid (current_entry env oid) cache'"
    "\<forall>w. get_variant_val env beyond a oid w cache = (Inr (vs ! k1, Some d1', of_nat k1), cache')"
    using get_value[OF assms(1,3,4,5)] by blast
  obtain d2' where "reads_as t2 d2' d2"
    "\<forall>w. get_variant_val env beyond b oid w cache' = (Inr (vs ! k2, Some d2', of_nat k2), cache')"
    using get_value[OF assms(2) warm_agrees[OF 1(2) assms(4)] assms(4,6)] 1(2) by blast
  with 1 show ?thesis by blast
qed

lemma call_operator_btree:
  assumes "btree_ok env v t"
  shows "call_operator env (lookup_operator env v (operator_names oper)) (Some x) (Some y) cache =
    (Inr (cmp_holds oper (sint (call_cmp env (cmp_proc env v) x y))), cache)"
  using assms by (simp add: call_operator_def btree_ok_def action_simps initialised_def)

lemma sum_binary_op_order:
  assumes "is_value env oid k1 d1 a" "is_value env oid k2 d2 b" "cache_agrees env oid cache"
    "map_of (sum_types env) oid = Some vs" "syscache_type env (vs ! k1) = Some t1" "distinct vs"
    "btree_ok env (vs ! k1) t1" "oper \<noteq> OP_NOT_EQUAL"
  shows "\<exists>cache'. sum_binary_op env beyond oid oper a b cache =
    (Inr (cmp_holds oper (sum_order env vs (k1, d1) (k2, d2))), cache')"
proof -
  obtain t2 where t2: "syscache_type env (vs ! k2) = Some t2" and ks: "k1 < length vs" "k2 < length vs" "length vs < 2 ^ 31"
    using value_facts[OF assms(1)] value_facts[OF assms(2)] assms(4) by auto
  obtain d1' d2' cache' where g: "reads_as t1 d1' d1" "reads_as t2 d2' d2" "warm env oid (current_entry env oid) cache'"
    "get_variant_val env beyond a oid True cache = (Inr (vs ! k1, Some d1', of_nat k1), cache')"
    "get_variant_val env beyond b oid True cache' = (Inr (vs ! k2, Some d2', of_nat k2), cache')"
    using get_two_values[OF assms(1-5) t2] by blast
  show ?thesis
  proof (cases "k1 = k2")
    case True
    have eqop: "oid_at (variant_eq_ops (current_entry env oid)) (of_nat k1) = Inr (lookup_operator env (vs ! k1) ''='')"
      using oid_at_map[OF ks(1,3)] assms(4) by (simp add: current_entry_def fill_entry_def)
    have "sum_binary_op env beyond oid oper a b cache =
        call_operator env (lookup_operator env (vs ! k1) (operator_names oper)) (Some d1') (Some d2') cache'"
      using g(3-5) eqop True
      by (cases oper) (simp_all add: sum_binary_op_def action_simps sumtypehash_lookup_def warm_def)
    moreover have "call_cmp env (cmp_proc env (vs ! k1)) d1' d2' = call_cmp env (cmp_proc env (vs ! k1)) d1 d2"
      using assms(7) g(1,2) t2 assms(5) True unfolding btree_ok_def by simp
    ultimately show ?thesis
      by (simp add: call_operator_btree[OF assms(7), unfolded True] sum_order_def True)
  next
    case False
    then have "vs ! k1 \<noteq> vs ! k2" using assms(6) ks by (simp add: nth_eq_iff_index_eq)
    then show ?thesis
      using g(4,5) False assms(8) sint_of_nat_index[OF ks(1,3)] sint_of_nat_index[OF ks(2,3)]
      by (cases oper) (auto simp: sum_binary_op_def action_simps sum_order_def)
  qed
qed

lemma sum_compare_order:
  assumes "is_value env oid k1 d1 a" "is_value env oid k2 d2 b" "cache_agrees env oid cache"
    "map_of (sum_types env) oid = Some vs" "syscache_type env (vs ! k1) = Some t1" "distinct vs"
    "btree_ok env (vs ! k1) t1"
  shows "\<exists>c cache'. sum_compare env beyond oid a b cache = (Inr c, cache') \<and>
    sint c = sum_order env vs (k1, d1) (k2, d2)"
proof -
  obtain t2 where t2: "syscache_type env (vs ! k2) = Some t2" and ks: "k1 < length vs" "k2 < length vs" "length vs < 2 ^ 31"
    using value_facts[OF assms(1)] value_facts[OF assms(2)] assms(4) by auto
  obtain d1' d2' cache' where g: "reads_as t1 d1' d1" "reads_as t2 d2' d2" "warm env oid (current_entry env oid) cache'"
    "get_variant_val env beyond a oid True cache = (Inr (vs ! k1, Some d1', of_nat k1), cache')"
    "get_variant_val env beyond b oid True cache' = (Inr (vs ! k2, Some d2', of_nat k2), cache')"
    using get_two_values[OF assms(1-5) t2] by blast
  show ?thesis
  proof (cases "k1 = k2")
    case True
    have opc: "oid_at (variant_opc_btree (current_entry env oid)) (of_nat k1) = Inr (GetDefaultOpClass env (vs ! k1) btree)"
      using oid_at_map[OF ks(1,3)] assms(4) by (simp add: current_entry_def fill_entry_def)
    have "sum_compare env beyond oid a b cache = (Inr (call_cmp env (cmp_proc env (vs ! k1)) d1' d2'), cache')"
      using g(3-5) opc True assms(7)
      by (simp add: sum_compare_def action_simps sumtypehash_lookup_def warm_def btree_ok_def cmp_proc_def
          initialised_def Let_def)
    moreover have "call_cmp env (cmp_proc env (vs ! k1)) d1' d2' = call_cmp env (cmp_proc env (vs ! k1)) d1 d2"
      using assms(7) g(1,2) t2 assms(5) True unfolding btree_ok_def by simp
    ultimately show ?thesis by (simp add: sum_order_def True)
  next
    case False
    then have "vs ! k1 \<noteq> vs ! k2" using assms(6) ks by (simp add: nth_eq_iff_index_eq)
    then show ?thesis
      using g(4,5) False sint_of_nat_index[OF ks(1,3)] sint_of_nat_index[OF ks(2,3)]
      by (auto simp: sum_compare_def action_simps sum_order_def)
  qed
qed

text \<open>
  C13: All comparison functions of a sum type return, and implement one order: that of the positions of the
  variants, and within a variant the order of its type.  The type of the first value's variant has a default operator class for
  B-trees whose operators agree with its comparison function, and this looks only at the bytes of the values, which excludes
  \<open>boolean\<close>.  The cache is not outdated.
\<close>

theorem sum_comparisons_refine_order:
  assumes "ddl_step\<^sup>*\<^sup>* env0 env" "catalog_ok env0" "sum_types env0 = []"
    "map_of (sum_types env) oid = Some vs" "is_value env oid k1 d1 a" "is_value env oid k2 d2 b"
    "cache_agrees env oid cache" "syscache_type env (vs ! k1) = Some t1" "btree_ok env (vs ! k1) t1"
  shows "(let ord = sum_order env vs (k1, d1) (k2, d2) in
    (\<exists>c. fst (sum_cmp env beyond oid a b cache) = Inr c \<and> sint c = ord) \<and>
    fst (sum_eq env beyond oid a b cache) = Inr (ord = 0) \<and>
    fst (sum_neq env beyond oid a b cache) = Inr (ord \<noteq> 0) \<and>
    fst (sum_lt env beyond oid a b cache) = Inr (ord < 0) \<and>
    fst (sum_lte env beyond oid a b cache) = Inr (ord \<le> 0) \<and>
    fst (sum_gt env beyond oid a b cache) = Inr (ord > 0) \<and>
    fst (sum_gte env beyond oid a b cache) = Inr (ord \<ge> 0))"
proof -
  have "sum_types_ok env" using defined_ok[OF assms(1-3)] by simp
  then have dist: "distinct vs"
    using map_of_SomeD[OF assms(4)] by (auto simp: sum_types_ok_def list_all_iff sum_type_ok_def split: option.splits)
  have op: "\<exists>cache'. sum_binary_op env beyond oid oper a b cache =
      (Inr (cmp_holds oper (sum_order env vs (k1, d1) (k2, d2))), cache')" if "oper \<noteq> OP_NOT_EQUAL" for oper
    using sum_binary_op_order[OF assms(5-7,4,8) dist assms(9) that] .
  show ?thesis
    using sum_compare_order[OF assms(5-7,4,8) dist assms(9), of beyond]
      op[of OP_EQUAL] op[of OP_LESS] op[of OP_LESS_EQUAL] op[of OP_GREATER] op[of OP_GREATER_EQUAL]
    by (auto simp: Let_def sum_cmp_def sum_eq_def sum_neq_def sum_lt_def sum_lte_def sum_gt_def sum_gte_def
        action_simps)
qed

section \<open>Where the code fails\<close>

text \<open>
  A text that names no variant of the sum type, and the empty text, make the input function read through a null pointer or before
  the start of the text.  In the binary form a negative discriminant passes the range check and indexes
  before the start of the array; so does the largest number, for which the check overflows.
\<close>

theorem malformed_values_crash:
  assumes "syscache_type env InvalidOid = None" "syscache_type env oid = Some st"
    "cache_agrees env oid cache" "map_of (sum_types env) oid = Some vs" "length vs < 2 ^ 31"
    "list_all (\<lambda>v. \<not> names_variant input (format_type_be env v)) vs" "input \<noteq> []" "last input = CHR '')''"
    "4 \<le> length bytes" "sint (be_word (take 4 bytes) :: 32 word) < 0 \<or> be_word (take 4 bytes) = (0x7fffffff :: 32 word)"
  shows "(\<exists>msg. fst (sum_in env garbage oid input cache) = Inl (Crash msg)) \<and>
    (\<exists>msg. fst (sum_in env garbage oid [] cache) = Inl (Crash msg)) \<and>
    (\<exists>msg. fst (sum_recv env garbage oid bytes cache) = Inl (Crash msg))"
proof -
  obtain cache' where c: "cached_entry env oid cache = (Inr (Some (current_entry env oid)), cache')"
    using cached_entry_agrees[OF assms(3,4)] by (elim exE conjE)
  have vs: "variant_type_oids (current_entry env oid) = vs" by (rule current_entry_variants[OF assms(4)])
  have "match_variant env input i vs = (0, InvalidOid)" for i
    using assms(6) by (induction vs arbitrary: i) auto
  then have "\<exists>msg. fst (sum_in env garbage oid input cache) = Inl (Crash msg)"
    using assms(1,2,7,8) c vs by (simp add: sum_in_def action_simps type_tuple_def Let_def)
  moreover have "\<exists>msg. fst (sum_in env garbage oid [] cache) = Inl (Crash msg)"
    by (simp add: sum_in_def action_simps)
  moreover have "\<exists>msg. fst (sum_recv env garbage oid bytes cache) = Inl (Crash msg)"
  proof -
    define w :: "32 word" where "w = be_word (take 4 bytes)"
    have "sint (w + 1) \<le> 0 \<and> (sint w < 0 \<or> int (length vs) \<le> sint w)"
    proof (cases "sint w < 0")
      case True
      have "w = word_of_int (sint w)" by simp
      then have "w + 1 = word_of_int (sint w + 1)" by (metis word_of_int_inverse wi_hom_succ word_succ_p1 of_int_sint)
      moreover have "- (2 ^ 31) \<le> sint w" using sint_greater_eq[of w] by simp
      ultimately have "sint (w + 1) = sint w + 1"
        using True by (simp add: signed_of_int signed_take_bit_int_eq_self del: of_int_add)
      then show ?thesis using True by simp
    next
      case False
      then have "w = 0x7fffffff" using assms(10) by (simp add: w_def)
      then show ?thesis using assms(5) by simp
    qed
    then have "\<not> int (length vs) < sint (w + 1)" "\<exists>msg. oid_at vs w = Inl (Crash msg)"
      by (auto simp: oid_at_def)
    then show ?thesis
      using assms(2,9) c vs unfolding w_def by (auto simp: sum_recv_def action_simps type_tuple_def Let_def)
  qed
  ultimately show ?thesis by blast
qed

text \<open>
  The cache is keyed by the \<open>xmin\<close> of the snapshot, which does not change when a variant is added or its addition is rolled back.
  A backend that cached the type before a variant was added in the same snapshot refuses the new
  variant.  A backend that cached it before the addition was rolled back goes on making values of the
  variant that is gone, and every later attempt to print such a value indexes outside of the array.
\<close>

theorem stale_variants:
  assumes "warm env oid entry cache" "syscache_type env oid = Some st" "syscache_type env v = Some t" "datum_ok t d"
    "typlen st = -1 \<or> 0 < typlen t \<and> typlen t + 4 \<le> typlen st" "v \<notin> set vs" "length vs + 1 < 2 ^ 31"
  shows "(variant_type_oids entry = vs \<and> map_of (sum_types env) oid = Some (vs @ [v]) \<longrightarrow>
      (\<exists>msg. sum_cast_from env garbage oid v d cache = (Inl (Ereport ERRCODE_INTERNAL_ERROR msg), cache))) \<and>
    (variant_type_oids entry = vs @ [v] \<and> map_of (sum_types env) oid = Some vs \<longrightarrow>
      (\<exists>val. sum_cast_from env garbage oid v d cache = (Inr val, cache) \<and>
         (\<forall>env2 cache2 beyond. syscache_type env2 = syscache_type env \<longrightarrow> sum_types env2 = sum_types env \<longrightarrow>
            cache_agrees env2 oid cache2 \<longrightarrow> (\<exists>msg. fst (sum_out env2 beyond oid val cache2) = Inl (Crash msg)))))"
proof (intro conjI impI)
  have none: "index_of_variant v i vs = None" for i
    using assms(6) by (induction vs arbitrary: i) auto
  assume *: "variant_type_oids entry = vs \<and> map_of (sum_types env) oid = Some (vs @ [v])"
  then show "\<exists>msg. sum_cast_from env garbage oid v d cache = (Inl (Ereport ERRCODE_INTERNAL_ERROR msg), cache)"
    by (simp add: sum_cast_from_def action_simps cached_entry_warm[OF assms(1)] none)
next
  assume *: "variant_type_oids entry = vs @ [v] \<and> map_of (sum_types env) oid = Some vs"
  have last: "index_of_variant v i (vs @ [v]) = Some (i + of_nat (length vs))" for i
    using assms(6) by (induction vs arbitrary: i) (auto simp: add_ac)
  have "\<exists>bs. make_variant garbage (typlen st) (of_nat (length vs)) (typlen t) (typbyval t) d =
      Inr (DPointer CallerContext bs) \<and> stores (typlen st) t (of_nat (length vs)) d bs"
    using make_var_size_stores[OF assms(4), of garbage "of_nat (length vs)"] assms(5)
      make_fixed_size_stores[OF assms(4), of "typlen st" garbage "of_nat (length vs)"]
    by (auto simp: make_variant_def)
  then obtain bs where bs: "make_variant garbage (typlen st) (of_nat (length vs)) (typlen t) (typbyval t) d =
      Inr (DPointer CallerContext bs)" "4 \<le> length bs" "take 4 bs = word_bytes 4 (of_nat (length vs) :: 32 word)"
    by (auto simp: stores_def)
  have "sum_cast_from env garbage oid v d cache = (Inr (DPointer CallerContext bs), cache)"
    using * bs(1) last[of 0] assms(2,3)
    by (simp add: sum_cast_from_def action_simps type_tuple_def cached_entry_warm[OF assms(1)])
  moreover have "\<exists>msg. fst (sum_out env2 beyond oid (DPointer CallerContext bs) cache2) = Inl (Crash msg)"
    if prem: "syscache_type env2 = syscache_type env" "sum_types env2 = sum_types env" "cache_agrees env2 oid cache2"
    for env2 cache2 beyond
  proof -
    have tab: "map_of (sum_types env2) oid = Some vs" using * prem(2) by simp
    obtain cache' where c: "cached_entry env2 oid cache2 = (Inr (Some (current_entry env2 oid)), cache')"
      using cached_entry_agrees[OF prem(3) tab] by (elim exE conjE)
    have "sint (of_nat (length vs) :: 32 word) = int (length vs)"
      using assms(7) by (simp add: signed_of_nat signed_take_bit_int_eq_self)
    then show ?thesis
      using c current_entry_variants[OF tab] bs(2,3) prem(1) assms(2)
      by (simp add: sum_out_def get_variant_val_def action_simps type_tuple_def bytes_word_discriminant oid_at_def)
  qed
  ultimately show "\<exists>val. sum_cast_from env garbage oid v d cache = (Inr val, cache) \<and>
      (\<forall>env2 cache2 beyond. syscache_type env2 = syscache_type env \<longrightarrow> sum_types env2 = sum_types env \<longrightarrow>
         cache_agrees env2 oid cache2 \<longrightarrow> (\<exists>msg. fst (sum_out env2 beyond oid val cache2) = Inl (Crash msg)))"
    by blast
qed

lemma bytes_word_nonzero: "c \<noteq> 0 \<Longrightarrow> (bytes_word (b # c # rest) :: 64 word) \<noteq> 0"
proof -
  assume "c \<noteq> 0"
  then obtain i where i: "bit c i" by (auto simp: bit_eq_iff)
  then have "i < 8" using bit_imp_le_length[OF i] by simp
  then have "bit (bytes_word (b # c # rest) :: 64 word) (8 + i)"
    using i by (simp add: bytes_word_Cons bit_simps)
  then show ?thesis by auto
qed

text \<open>
  A by-value variant is read as eight bytes, whatever its length is.  A variant of one byte that holds 0, the boolean \<open>false\<close>,
  comes back as a word that is not 0 if the byte that follows is not, which \<open>palloc\<close> leaves to chance; PostgreSQL reads
  any word other than 0 as \<open>true\<close>.  Input functions get the object id of the function for type modifiers as their
  modifier, so a type whose input function accepts only small modifiers, as \<open>timestamp\<close> does, has no text input.
\<close>

theorem variants_misread:
  assumes "syscache_type env oid = Some st" "map_of (sum_types env) oid = Some vs" "k < length vs" "length vs < 2 ^ 31"
    "syscache_type env (vs ! k) = Some t" "typbyval t" "typlen t = 1" "6 \<le> typlen st" "garbage 5 \<noteq> 0"
    "warm env oid (current_entry env oid) cache" "distinct vs"
    "syscache_type env (vs ! j) = Some t'" "j < length vs" "names_ok env vs"
    "\<And>s m. sint m > 6 \<Longrightarrow> call_input env (typinput t') s (type_io_param (vs ! j) t') m = Inl err" "sint (typmodin t') > 6"
  shows "(\<exists>val w. sum_cast_from env garbage oid (vs ! k) (DWord 0) cache = (Inr val, cache) \<and>
      sum_cast_to env beyond oid (vs ! k) val cache = (Inr (Some (DWord w)), cache) \<and> w \<noteq> 0) \<and>
    sum_in env garbage oid (format_type_be env (vs ! j) @ ''('' @ s @ '')'') cache = (Inl err, cache)"
proof
  define buf where "buf = word_bytes 4 (of_nat k :: 32 word) @ 0 # drop 5 (palloc garbage (nat (typlen st)))"
  have len: "length buf = nat (typlen st)" using assms(8) by (simp add: buf_def)
  have "word_bytes 8 (0 :: 64 word) = 0 # word_bytes 7 (0 :: 64 word)"
    by (simp add: word_bytes_Suc numeral_eq_Suc)
  then have "make_variant garbage (typlen st) (of_nat k) (typlen t) (typbyval t) (DWord 0) = Inr (DPointer CallerContext buf)"
    using assms(6-8) by (simp add: make_variant_def make_fixed_size_def memcpy_at_def buf_def)
  moreover have "index_of_variant (vs ! k) 0 vs = Some (of_nat k)"
    using index_of_variant_nth[OF nth_mem[OF assms(3)], of 0] assms(3,11) by (auto simp: nth_eq_iff_index_eq)
  ultimately have cast: "sum_cast_from env garbage oid (vs ! k) (DWord 0) cache = (Inr (DPointer CallerContext buf), cache)"
    using assms(1,5) current_entry_variants[OF assms(2)]
    by (simp add: sum_cast_from_def action_simps type_tuple_def cached_entry_warm[OF assms(10)])
  have "5 < nat (typlen st)" using assms(8) by linarith
  have read: "read_bytes beyond buf 4 8 = 0 # garbage 5 # read_bytes beyond buf 6 6"
    using len \<open>5 < nat (typlen st)\<close>
    by (simp add: read_bytes_def upt_rec[of 4] upt_rec[of 5] buf_def nth_append palloc_def)
  have disc: "discriminant_of (DPointer CallerContext buf) = Inr (of_nat k)"
    by (simp add: buf_def bytes_word_discriminant)
  have "sum_cast_to env beyond oid (vs ! k) (DPointer CallerContext buf) cache =
      (Inr (Some (DWord (bytes_word (read_bytes beyond buf 4 8)))), cache)"
    using assms(1,5,6,8) current_entry_variants[OF assms(2)] oid_at_nth[OF assms(3,4)] disc
    by (simp add: sum_cast_to_def get_variant_val_def action_simps type_tuple_def cached_entry_warm[OF assms(10)]
        variant_datum_def initialised_def del: discriminant_of.simps)
  then show "\<exists>val w. sum_cast_from env garbage oid (vs ! k) (DWord 0) cache = (Inr val, cache) \<and>
      sum_cast_to env beyond oid (vs ! k) val cache = (Inr (Some (DWord w)), cache) \<and> w \<noteq> 0"
    using cast bytes_word_nonzero[OF assms(9)] read by metis
next
  have "match_variant env (format_type_be env (vs ! j) @ CHR ''('' # s @ '')'') 0 vs = (of_nat j, vs ! j)"
    using match_variant_nth[of env vs j "s @ '')''" 0] assms(13,14) by (simp add: names_ok_def)
  then show "sum_in env garbage oid (format_type_be env (vs ! j) @ ''('' @ s @ '')'') cache = (Inl err, cache)"
    using assms(1,12,15,16) current_entry_variants[OF assms(2)]
    by (simp add: sum_in_def action_simps type_tuple_def cached_entry_warm[OF assms(10)] Let_def)
qed

section \<open>An example\<close>

text \<open>
  The sum type \<open>st\<close> with the variants \<open>boolean\<close> and \<open>timestamp\<close>.  The functions of \<open>boolean\<close> here read one byte; the input function of
  \<open>timestamp\<close> accepts the modifiers up to 6.
\<close>

definition ex_bool :: pg_type where
  "ex_bool = \<lparr>typname = ''bool'', typlen = 1, typbyval = True, typtype = TYPTYPE_BASE, typpseudo = False, typelem = 0,
     typinput = 1242, typoutput = 1243, typreceive = 2436, typsend = 2437, typmodin = 0\<rparr>"

definition ex_timestamp :: pg_type where
  "ex_timestamp = \<lparr>typname = ''timestamp'', typlen = 8, typbyval = True, typtype = TYPTYPE_BASE, typpseudo = False, typelem = 0,
     typinput = 1312, typoutput = 1313, typreceive = 2474, typsend = 2475, typmodin = 2905\<rparr>"

fun ex_truth :: "Datum \<Rightarrow> bool" where
  "ex_truth (DWord w) \<longleftrightarrow> take_bit 8 w \<noteq> 0"
| "ex_truth (DPointer _ _) \<longleftrightarrow> False"

definition ex_compare :: "Datum \<Rightarrow> Datum \<Rightarrow> 32 word" where
  "ex_compare x y = (if ex_truth x = ex_truth y then 0 else if ex_truth y then -1 else 1)"

definition ex_env0 :: sum_env where
  "ex_env0 =
     \<lparr>syscache_type = (\<lambda>v. if v = 16 then Some ex_bool else if v = 1114 then Some ex_timestamp else None),
      sum_types = [], active_snapshot_xmin = Some 700, freed_slot_xmin = entry_xmin,
      OpernameGetOprid = (\<lambda>name _. if name = ''='' then 1 else if name = ''<>'' then 2 else if name = ''<'' then 3
        else if name = ''<='' then 4 else if name = ''>'' then 5 else 6),
      OpernameGetCandidates = (\<lambda>_. []), func_match_argtypes = (\<lambda>_ cs. cs), func_select_candidate = (\<lambda>_ _. None),
      GetDefaultOpClass = (\<lambda>_ _. 1), support_proc = (\<lambda>_ _. 1), get_opcode = (\<lambda>p. p),
      format_type_be = (\<lambda>v. if v = 16 then ''boolean'' else ''timestamp without time zone''), makeArrayTypeName = (\<lambda>name. CHR ''_'' # name),
      call_input = (\<lambda>f s _ m. if f = 1312 \<and> sint m > 6 then Inl (Ereport ERRCODE_INVALID_PARAMETER_VALUE ''precision'')
        else Inr (DWord (if s = ''t'' then 1 else 0))),
      call_output = (\<lambda>_ d. if ex_truth d then ''t'' else ''f''),
      call_receive = (\<lambda>_ bs _ _. Inr (DWord (if bs = [1] then 1 else 0))),
      call_send = (\<lambda>_ d. if ex_truth d then [1] else [0]),
      call_bool = (\<lambda>p x y. let c = sint (ex_compare x y) in
        if p = 1 then c = 0 else if p = 2 then c \<noteq> 0 else if p = 3 then c < 0
        else if p = 4 then c \<le> 0 else if p = 5 then c > 0 else c \<ge> 0),
      call_cmp = (\<lambda>_ x y. ex_compare x y), call_hash = (\<lambda>_ d. if ex_truth d then 1 else 0)\<rparr>"

definition ex_traits :: variant_traits where
  "ex_traits = \<lparr>variant_size = 8, varlen = False, binary_io = True, can_hash = True, can_cmp = True\<rparr>"

definition ex_env :: sum_env where
  "ex_env = ex_env0
     \<lparr>syscache_type := (syscache_type ex_env0)(5000 := Some (sum_pg_type (\<lambda>_. 6000) ''st'' ex_traits)),
      sum_types := [(5000, [16, 1114])]\<rparr>"

lemmas ex_defs = ex_env_def ex_env0_def ex_bool_def ex_timestamp_def ex_traits_def sum_pg_type_def type_size_def

lemma ex_sum_type:
  "\<exists>cmds. sum_type ex_env0 5000 (\<lambda>_. 6000) (Some ''st'') (Some [Some 16, Some 1114]) = Inr (5000, cmds, ex_env)"
  by (simp add: sum_type_def no_variants_def add_traits_def unique_variants_def Let_def ex_defs)

lemma ex_catalog: "catalog_ok ex_env0" "sum_types ex_env0 = []"
  by (simp_all add: catalog_ok_def ex_env0_def ex_bool_def ex_timestamp_def)

lemma ex_defined: "ddl_step\<^sup>*\<^sup>* ex_env0 ex_env"
proof -
  have "syscache_type ex_env0 5000 = None" "all_small ex_env0 [Some 16, Some 1114]"
    by (simp_all add: ex_defs all_small_def)
  then have "ddl_step ex_env0 ex_env" using ex_sum_type define_type[of ex_env0 5000] by fastforce
  then show ?thesis by simp
qed

lemma ex_lookup: "map_of (sum_types ex_env) 5000 = Some [16, 1114]" "syscache_type ex_env 16 = Some ex_bool"
  "syscache_type ex_env 1114 = Some ex_timestamp" "\<exists>st. syscache_type ex_env 5000 = Some st \<and> typlen st = 12"
  by (simp_all add: ex_defs)

lemma ex_cache: "cache_agrees ex_env 5000 []"
  by (simp add: cache_agrees_def hash_find_def)

lemma ex_names: "names_ok ex_env [16, 1114]"
  by (simp add: names_ok_def ex_env_def ex_env0_def)

theorem malformed_values_crash_witness:
  "(\<exists>msg. fst (sum_in ex_env (\<lambda>_. 7) 5000 ''text(a)'' []) = Inl (Crash msg)) \<and>
    (\<exists>msg. fst (sum_in ex_env (\<lambda>_. 7) 5000 [] []) = Inl (Crash msg)) \<and>
    (\<exists>msg. fst (sum_recv ex_env (\<lambda>_. 7) 5000 [255, 255, 255, 255] []) = Inl (Crash msg))"
proof -
  obtain st where st: "syscache_type ex_env 5000 = Some st" using ex_lookup(4) by blast
  have "syscache_type ex_env 0 = None" by (simp add: ex_defs)
  moreover have "list_all (\<lambda>v. \<not> names_variant ''text(a)'' (format_type_be ex_env v)) [16, 1114]"
    by (simp add: names_variant_def ex_env_def ex_env0_def)
  moreover have "sint (be_word (take 4 [255, 255, 255, 255]) :: 32 word) < 0"
    by (simp add: be_word_def)
  ultimately show ?thesis
    using malformed_values_crash[of ex_env 5000 st "[]" "[16, 1114]" "''text(a)''" "[255, 255, 255, 255]" "\<lambda>_. 7"]
      st ex_lookup(1) ex_cache
    by simp
qed

definition ex_rolled_back :: sum_env where
  "ex_rolled_back = ex_env\<lparr>sum_types := [(5000, [16])]\<rparr>"

theorem stale_variants_witness:
  "\<exists>val. sum_cast_from ex_rolled_back (\<lambda>_. 7) 5000 1114 (DWord 5) [(5000, current_entry ex_env 5000)] =
      (Inr val, [(5000, current_entry ex_env 5000)]) \<and>
    (\<exists>msg. fst (sum_out ex_rolled_back (\<lambda>_. 7) 5000 val []) = Inl (Crash msg))"
proof -
  obtain st where st: "syscache_type ex_rolled_back 5000 = Some st" "typlen st = 12"
    by (simp add: ex_rolled_back_def ex_defs)
  have warm: "warm ex_rolled_back 5000 (current_entry ex_env 5000) [(5000, current_entry ex_env 5000)]"
    by (simp add: warm_def hash_find_def ex_rolled_back_def current_entry_def fill_entry_def snapshot_xmin_def ex_env_def ex_env0_def)
  have t: "syscache_type ex_rolled_back 1114 = Some ex_timestamp" "datum_ok ex_timestamp (DWord 5)"
    by (simp_all add: ex_rolled_back_def ex_defs)
  have vs: "variant_type_oids (current_entry ex_env 5000) = [16] @ [1114]" "map_of (sum_types ex_rolled_back) 5000 = Some [16]"
    using current_entry_variants[OF ex_lookup(1)] by (simp_all add: ex_rolled_back_def)
  have fits: "typlen st = -1 \<or> 0 < typlen ex_timestamp \<and> typlen ex_timestamp + 4 \<le> typlen st"
    using st(2) by (simp add: ex_timestamp_def)
  have "cache_agrees ex_rolled_back 5000 []" by (simp add: cache_agrees_def hash_find_def)
  then show ?thesis
    using stale_variants[OF warm st(1) t fits, of "[16]" "\<lambda>_. 7"] vs by auto
qed

theorem variants_misread_witness:
  "(\<exists>val w. sum_cast_from ex_env (\<lambda>_. 7) 5000 16 (DWord 0) [(5000, current_entry ex_env 5000)] =
      (Inr val, [(5000, current_entry ex_env 5000)]) \<and>
    sum_cast_to ex_env (\<lambda>_. 7) 5000 16 val [(5000, current_entry ex_env 5000)] =
      (Inr (Some (DWord w)), [(5000, current_entry ex_env 5000)]) \<and> w \<noteq> 0) \<and>
    (\<exists>err. sum_in ex_env (\<lambda>_. 7) 5000 ''timestamp without time zone(2024-01-01)'' [(5000, current_entry ex_env 5000)] =
      (Inl err, [(5000, current_entry ex_env 5000)]))"
proof -
  obtain st where st: "syscache_type ex_env 5000 = Some st" "typlen st = 12" using ex_lookup(4) by blast
  have warm: "warm ex_env 5000 (current_entry ex_env 5000) [(5000, current_entry ex_env 5000)]"
    by (simp add: warm_def hash_find_def current_entry_def fill_entry_def)
  have "call_input ex_env (typinput ex_timestamp) s (type_io_param ([16, 1114] ! 1) ex_timestamp) m =
      Inl (Ereport ERRCODE_INVALID_PARAMETER_VALUE ''precision'')" if "sint m > 6" for s m
    using that by (simp add: ex_env_def ex_env0_def ex_timestamp_def)
  then show ?thesis
    using variants_misread[OF st(1) ex_lookup(1), of 0 ex_bool "\<lambda>_. 7" "[(5000, current_entry ex_env 5000)]" 1 ex_timestamp
        "Ereport ERRCODE_INVALID_PARAMETER_VALUE ''precision''" "\<lambda>_. 7" "''2024-01-01''"] st(2) warm ex_lookup(2,3) ex_names
    by (simp add: ex_bool_def ex_timestamp_def) (simp add: ex_env_def ex_env0_def)
qed

section \<open>An example with variants behind pointers\<close>

text \<open>
  The sum type \<open>st\<close> with the variants \<open>integer\<close> and \<open>text\<close>.  Texts have a header of four bytes here, and are compared
  byte by byte.
\<close>

definition ex_int4 :: pg_type where
  "ex_int4 = \<lparr>typname = ''int4'', typlen = 4, typbyval = True, typtype = TYPTYPE_BASE, typpseudo = False, typelem = 0,
     typinput = 42, typoutput = 43, typreceive = 2406, typsend = 2407, typmodin = 0\<rparr>"

definition ex_text :: pg_type where
  "ex_text = \<lparr>typname = ''text'', typlen = -1, typbyval = False, typtype = TYPTYPE_BASE, typpseudo = False, typelem = 0,
     typinput = 46, typoutput = 47, typreceive = 2414, typsend = 2415, typmodin = 0\<rparr>"

definition cstring_to_text :: "byte list \<Rightarrow> Datum" where
  "cstring_to_text bs = DPointer CallerContext (word_bytes 4 (push_bit 2 (word_of_nat (4 + length bs)) :: 32 word) @ bs)"

fun text_to_cstring :: "Datum \<Rightarrow> byte list" where
  "text_to_cstring (DPointer _ bs) = drop (vardata_any bs 0) (extent ex_text bs)"
| "text_to_cstring (DWord w) = []"

fun DatumGetInt32 :: "Datum \<Rightarrow> 32 word" where
  "DatumGetInt32 (DWord w) = ucast w"
| "DatumGetInt32 (DPointer _ _) = 0"

fun compare_bytes :: "byte list \<Rightarrow> byte list \<Rightarrow> 32 word" where
  "compare_bytes [] [] = 0"
| "compare_bytes [] (y # ys) = -1"
| "compare_bytes (x # xs) [] = 1"
| "compare_bytes (x # xs) (y # ys) = (if x < y then -1 else if y < x then 1 else compare_bytes xs ys)"

definition ex2_compare :: "Oid \<Rightarrow> Datum \<Rightarrow> Datum \<Rightarrow> 32 word" where
  "ex2_compare proc x y =
     (if proc = 360 then compare_bytes (text_to_cstring x) (text_to_cstring y)
      else if sint (DatumGetInt32 x) < sint (DatumGetInt32 y) then -1
      else if sint (DatumGetInt32 y) < sint (DatumGetInt32 x) then 1 else 0)"

text \<open>Operators, and their functions, are numbered from 1 for \<open>integer\<close> and from 11 for \<open>text\<close>.\<close>

fun ex2_operator :: "string \<Rightarrow> Oid \<Rightarrow> Oid" where
  "ex2_operator name v = (if v = 25 then 10 else 0) +
     (if name = ''='' then 1 else if name = ''<>'' then 2 else if name = ''<'' then 3
      else if name = ''<='' then 4 else if name = ''>'' then 5 else 6)"

fun ex2_call_bool :: "Oid \<Rightarrow> Datum \<Rightarrow> Datum \<Rightarrow> bool" where
  "ex2_call_bool p x y =
     (let c = sint (ex2_compare (if p > 10 then 360 else 351) x y); p = (if p > 10 then p - 10 else p) in
      if p = 1 then c = 0 else if p = 2 then c \<noteq> 0 else if p = 3 then c < 0
      else if p = 4 then c \<le> 0 else if p = 5 then c > 0 else c \<ge> 0)"

definition ex2_env0 :: sum_env where
  "ex2_env0 = ex_env0
     \<lparr>syscache_type := (\<lambda>v. if v = 23 then Some ex_int4 else if v = 25 then Some ex_text else None),
      OpernameGetOprid := ex2_operator, support_proc := (\<lambda>_ v. if v = 25 then 360 else 351),
      format_type_be := (\<lambda>v. if v = 23 then ''integer'' else ''text''),
      call_input := (\<lambda>f s _ m. if f = 46 then Inr (cstring_to_text (map (\<lambda>c. word_of_nat (of_char c)) s)) else Inr (DWord (of_nat (length s)))),
      call_output := (\<lambda>f d. if f = 47 then map (\<lambda>b. char_of (unat b)) (text_to_cstring d) else replicate (unat (DatumGetInt32 d)) CHR ''1''),
      call_receive := (\<lambda>f bs _ _. if f = 2414 then Inr (cstring_to_text bs) else Inr (DWord (be_word bs))),
      call_send := (\<lambda>f d. if f = 2415 then text_to_cstring d else be_bytes 4 (DatumGetInt32 d)),
      call_bool := ex2_call_bool, call_cmp := ex2_compare\<rparr>"

definition ex2_traits :: variant_traits where
  "ex2_traits = \<lparr>variant_size = 4, varlen = True, binary_io = True, can_hash = True, can_cmp = True\<rparr>"

definition ex2_env :: sum_env where
  "ex2_env = ex2_env0
     \<lparr>syscache_type := (syscache_type ex2_env0)(5000 := Some (sum_pg_type (\<lambda>_. 6000) ''st'' ex2_traits)),
      sum_types := [(5000, [23, 25])]\<rparr>"

lemmas ex2_defs = ex2_env_def ex2_env0_def ex_env0_def ex_int4_def ex_text_def ex2_traits_def sum_pg_type_def type_size_def

lemma ex2_sum_type:
  "\<exists>cmds. sum_type ex2_env0 5000 (\<lambda>_. 6000) (Some ''st'') (Some [Some 23, Some 25]) = Inr (5000, cmds, ex2_env)"
  by (simp add: sum_type_def no_variants_def add_traits_def unique_variants_def Let_def ex2_defs)

lemma ex2_catalog: "catalog_ok ex2_env0" "sum_types ex2_env0 = []"
  by (simp_all add: catalog_ok_def ex2_env0_def ex_env0_def ex_int4_def ex_text_def)

lemma ex2_defined: "ddl_step\<^sup>*\<^sup>* ex2_env0 ex2_env"
proof -
  have "syscache_type ex2_env0 5000 = None" "all_small ex2_env0 [Some 23, Some 25]"
    by (simp_all add: ex2_defs all_small_def)
  then have "ddl_step ex2_env0 ex2_env" using ex2_sum_type define_type[of ex2_env0 5000] by fastforce
  then show ?thesis by simp
qed

lemma ex2_lookup: "map_of (sum_types ex2_env) 5000 = Some [23, 25]" "syscache_type ex2_env 23 = Some ex_int4"
  "syscache_type ex2_env 25 = Some ex_text" "\<exists>st. syscache_type ex2_env 5000 = Some st \<and> typlen st = -1"
  by (simp_all add: ex2_defs)

lemma ex2_cache: "cache_agrees ex2_env 5000 []"
  by (simp add: cache_agrees_def hash_find_def)

lemma bytes_of_chars: "map (\<lambda>c. word_of_nat (of_char c)) (map (\<lambda>b. char_of (unat b) :: char) bs) = (bs :: byte list)"
proof -
  have "unat b < 2 ^ LENGTH(8)" for b :: byte by (rule unsigned_less)
  then have "unat b mod 256 = unat b" for b :: byte by simp
  then show ?thesis by (simp add: comp_def)
qed

text \<open>A text of fewer than 1000 bytes.\<close>

lemma cstring_to_text_ok:
  assumes "length bs < 1000"
  shows "datum_ok ex_text (cstring_to_text bs)" "text_to_cstring (cstring_to_text bs) = bs"
proof -
  define n where "n = 4 + length bs"
  define hdr :: "byte list" where "hdr = word_bytes 4 (push_bit 2 (word_of_nat n) :: 32 word)"
  have len: "length hdr = 4" by (simp add: hdr_def)
  have "\<not> bit ((hdr @ bs) ! 0) 0" using header_even[of "word_of_nat n"] len by (simp add: hdr_def nth_append)
  moreover have "unat (drop_bit 2 (bytes_word (take 4 (hdr @ bs)) :: 32 word)) = n"
  proof -
    have "bytes_word (take 4 (hdr @ bs)) = (push_bit 2 (word_of_nat n) :: 32 word)"
      by (simp add: hdr_def bytes_word_discriminant)
    moreover have "push_bit 2 (word_of_nat n) = (word_of_nat (4 * n) :: 32 word)" by (simp add: push_bit_eq_mult)
    moreover have "unat (word_of_nat (4 * n) :: 32 word) = 4 * n" using assms by (simp add: unat_of_nat n_def del: of_nat_mult of_nat_add)
    ultimately show ?thesis by (simp only: unat_drop_bit_eq) (simp add: drop_bit_eq_div)
  qed
  ultimately have size: "varsize_any (hdr @ bs) = n" and off: "vardata_any (hdr @ bs) 0 = 4"
    by (simp_all add: varsize_any_def vardata_any_def)
  have "4 \<le> n" by (simp add: n_def)
  then show "datum_ok ex_text (cstring_to_text bs)"
    using size len
    by (cases hdr) (simp_all add: cstring_to_text_def ex_text_def varlena_ok_def hdr_def[symmetric] n_def[symmetric])
  show "text_to_cstring (cstring_to_text bs) = bs"
    using size off len by (simp add: cstring_to_text_def extent_def ex_text_def hdr_def n_def)
qed

lemma text_to_cstring_reads_as:
  assumes "reads_as ex_text d' d"
  shows "text_to_cstring d' = text_to_cstring d"
proof (cases "\<exists>c bs c' bs'. d = DPointer c bs \<and> d' = DPointer c' bs'")
  case True
  then obtain c bs c' bs' where d: "d = DPointer c bs" "d' = DPointer c' bs'" by blast
  then have eq: "extent ex_text bs' = extent ex_text bs" using assms by simp
  show ?thesis
  proof (cases "extent ex_text bs = []")
    case False
    have first: "extent ex_text xs ! 0 = xs ! 0" if "extent ex_text xs \<noteq> []" for xs
      using that by (simp add: extent_def)
    have "bs' ! 0 = bs ! 0" using first[of bs] first[of bs'] False eq by simp
    then show ?thesis using eq d by (simp add: vardata_any_def)
  qed (use eq d in simp)
next
  case False
  then show ?thesis using assms by (cases d; cases d') auto
qed

lemma ex2_btree: "btree_ok ex2_env 25 ex_text"
proof -
  have op: "lookup_operator ex2_env 25 (operator_names oper) = ex2_operator (operator_names oper) 25"
    "ex2_operator (operator_names oper) 25 \<noteq> 0" for oper
    by (cases oper; simp add: lookup_operator_def ex2_env_def ex2_env0_def)+
  moreover have "ex2_call_bool (ex2_operator (operator_names oper) 25) x y \<longleftrightarrow>
      cmp_holds oper (sint (ex2_compare 360 x y))" for oper x y
    by (cases oper) (simp_all add: Let_def)
  moreover have "ex2_compare 360 x' y' = ex2_compare 360 x y" if "reads_as ex_text x' x" "reads_as ex_text y' y" for x x' y y'
    using that by (simp add: ex2_compare_def text_to_cstring_reads_as)
  moreover have "cmp_proc ex2_env 25 = 360" "get_opcode ex2_env = (\<lambda>p. p)" "call_bool ex2_env = ex2_call_bool"
    "call_cmp ex2_env = ex2_compare" "GetDefaultOpClass ex2_env 25 btree = 1"
    by (simp_all add: cmp_proc_def ex2_defs)
  ultimately show ?thesis by (simp add: btree_ok_def del: ex2_operator.simps ex2_call_bool.simps)
qed

lemma ex2_names: "names_ok ex2_env [23, 25]"
  by (simp add: names_ok_def ex2_env_def ex2_env0_def)

lemma ex2_io:
  assumes "length bs < 1000"
  shows "text_io_ok ex2_env 25 ex_text (cstring_to_text bs)" "binary_io_ok ex2_env 25 ex_text (cstring_to_text bs)"
proof -
  have calls: "call_input ex2_env (typinput ex_text) (call_output ex2_env (typoutput ex_text) d') i m =
      Inr (cstring_to_text (text_to_cstring d'))"
    "call_receive ex2_env (typreceive ex_text) (call_send ex2_env (typsend ex_text) d') i m =
      Inr (cstring_to_text (text_to_cstring d'))" for d' i m
    using bytes_of_chars[of "text_to_cstring d'"] by (simp_all add: ex2_env_def ex2_env0_def ex_text_def del: map_map)
  have "text_to_cstring d' = bs" if "reads_as ex_text d' (cstring_to_text bs)" for d'
    using text_to_cstring_reads_as[OF that] cstring_to_text_ok(2)[OF assms] by simp
  moreover have "reads_as ex_text (cstring_to_text bs) (cstring_to_text bs)" by (simp add: cstring_to_text_def)
  ultimately show "text_io_ok ex2_env 25 ex_text (cstring_to_text bs)" "binary_io_ok ex2_env 25 ex_text (cstring_to_text bs)"
    using cstring_to_text_ok(1)[OF assms] by (auto simp: text_io_ok_def binary_io_ok_def calls)
qed

lemma ex2_value:
  assumes "length bs < 1000"
  shows "\<exists>val. is_value ex2_env 5000 1 (cstring_to_text bs) val"
proof -
  obtain st where "syscache_type ex2_env 5000 = Some st" using ex2_lookup(4) by blast
  then show ?thesis
    using make_variant_value[of ex2_env 5000 st "[23, 25]" 1 ex_text "cstring_to_text bs"] ex2_lookup
      cstring_to_text_ok(1)[OF assms] defined_ok[OF ex2_defined ex2_catalog]
    by auto
qed



text \<open>The texts \<open>ab\<close> and \<open>b\<close>.\<close>

theorem sum_comparisons_refine_order_witness:
  "\<exists>a b. is_value ex2_env 5000 1 (cstring_to_text [97, 98]) a \<and> is_value ex2_env 5000 1 (cstring_to_text [98]) b \<and>
    (\<exists>c. fst (sum_cmp ex2_env (\<lambda>_. 7) 5000 a b []) = Inr c \<and> sint c = -1) \<and>
    fst (sum_eq ex2_env (\<lambda>_. 7) 5000 a b []) = Inr False \<and>
    fst (sum_neq ex2_env (\<lambda>_. 7) 5000 a b []) = Inr True \<and>
    fst (sum_lt ex2_env (\<lambda>_. 7) 5000 a b []) = Inr True \<and>
    fst (sum_lte ex2_env (\<lambda>_. 7) 5000 a b []) = Inr True \<and>
    fst (sum_gt ex2_env (\<lambda>_. 7) 5000 a b []) = Inr False \<and>
    fst (sum_gte ex2_env (\<lambda>_. 7) 5000 a b []) = Inr False"
proof -
  obtain a b where ab: "is_value ex2_env 5000 1 (cstring_to_text [97, 98]) a" "is_value ex2_env 5000 1 (cstring_to_text [98]) b"
    using ex2_value[of "[97, 98]"] ex2_value[of "[98]"] by auto
  have t: "syscache_type ex2_env ([23, 25] ! 1) = Some ex_text" using ex2_lookup(3) by simp
  have "cmp_proc ex2_env 25 = 360" "call_cmp ex2_env = ex2_compare"
    by (simp_all add: cmp_proc_def ex2_defs)
  then have "sum_order ex2_env [23, 25] (1, cstring_to_text [97, 98]) (1, cstring_to_text [98]) = -1"
    using cstring_to_text_ok(2)[of "[97, 98]"] cstring_to_text_ok(2)[of "[98]"]
    by (simp add: sum_order_def ex2_compare_def)
  then show ?thesis
    using sum_comparisons_refine_order[OF ex2_defined ex2_catalog ex2_lookup(1) ab ex2_cache t, of "\<lambda>_. 7"]
      ex2_btree ab
    by (auto simp: Let_def)
qed

end
