(* ===== verification/Omni_Httpd_Fds.thy ===== *)
theory Omni_Httpd_Fds
  imports Omni_Prelude
begin

text \<open>
  Sharing of listening sockets between the master worker and the HTTP workers: \<open>src/extensions/omni_httpd/fd.c\<close> and
  \<open>accept_fds\<close> of \<open>http_worker.c\<close>.

  A message carries descriptors twice: as ancillary data, which the kernel translates to descriptors of the
  receiving process, and as plain numbers, by which the receiver recognises sockets it already
  has.  What the system calls answer is given by arguments; the loops that wait for the master worker may wait for ever, so
  they are partial functions.
\<close>

section \<open>Messages\<close>

definition MAX_N_FDS :: nat where "MAX_N_FDS = 253"

record fd_message =
  has_more_fds :: bool
  payload :: "int list"
  rights :: "int list"

record fd_fd =
  fd :: int
  master_fd :: int

datatype errno = EAGAIN | EINTR | EADDRINUSE | ECONNREFUSED | ECONNRESET | EPIPE | EOTHER

section \<open>Sending\<close>

text \<open>\<open>send_ok k\<close> says whether the \<open>k\<close>th call of \<open>sendmsg\<close> succeeds.\<close>

function send_fds_with_buffer :: "(nat \<Rightarrow> bool) \<Rightarrow> nat \<Rightarrow> int list \<Rightarrow> int \<times> fd_message list" where
  "send_fds_with_buffer send_ok k fds =
     (if fds = [] then (0, [])
      else
        let n_fds_to_send = (if length fds > MAX_N_FDS then MAX_N_FDS else length fds);
            message = \<lparr>has_more_fds = length fds > MAX_N_FDS,
                       payload = take n_fds_to_send fds, rights = take n_fds_to_send fds\<rparr> in
        if \<not> send_ok k then (-1, [])
        else case send_fds_with_buffer send_ok (k + 1) (drop n_fds_to_send fds) of
               (r, messages) \<Rightarrow> (r, message # messages))"
  by pat_completeness auto
termination
  by (relation "measure (\<lambda>(_, _, fds). length fds)") (auto simp: MAX_N_FDS_def)

declare send_fds_with_buffer.simps [simp del]

lemma send_fds_with_buffer_Nil [simp]: "send_fds_with_buffer send_ok k [] = (0, [])"
  by (subst send_fds_with_buffer.simps) simp

lemma send_fds_with_buffer_fails: "fds \<noteq> [] \<Longrightarrow> \<not> send_ok k \<Longrightarrow> send_fds_with_buffer send_ok k fds = (-1, [])"
  by (subst send_fds_with_buffer.simps) (simp add: Let_def)

lemma send_fds_with_buffer_step:
  assumes "fds \<noteq> []" "send_ok k" "n = (if length fds > MAX_N_FDS then MAX_N_FDS else length fds)"
  shows "send_fds_with_buffer send_ok k fds =
    (case send_fds_with_buffer send_ok (k + 1) (drop n fds) of
       (r, messages) \<Rightarrow>
         (r, \<lparr>has_more_fds = length fds > MAX_N_FDS, payload = take n fds, rights = take n fds\<rparr> # messages))"
  using assms by (subst send_fds_with_buffer.simps) (simp add: Let_def)

definition send_fds :: "(nat \<Rightarrow> bool) \<Rightarrow> int list \<Rightarrow> int \<times> fd_message list" where
  "send_fds send_ok fds = send_fds_with_buffer send_ok 0 fds"

section \<open>Receiving\<close>

text \<open>What a call of \<open>recvmsg\<close> gives: an error, a message with descriptors of this process, or data without descriptors.\<close>

datatype recv_result =
    RecvError errno
  | RecvMessage fd_message
  | RecvNothing

definition pairs_of :: "fd_message \<Rightarrow> fd_fd list" where
  "pairs_of m = map (\<lambda>(f, g). \<lparr>fd = f, master_fd = g\<rparr>) (zip (rights m) (payload m))"

text \<open>
  The list is what the calls of \<open>recvmsg\<close> give; after it the socket, which does not block, answers \<open>EAGAIN\<close>.  The result
  has the descriptors, those that were closed, and the error that is left in \<open>errno\<close>.
\<close>

fun recv_fds_with_buffer :: "fd_fd list \<Rightarrow> recv_result list \<Rightarrow> fd_fd list \<times> int list \<times> errno option" where
  "recv_fds_with_buffer result [] = ([], map fd result, Some EAGAIN)"
| "recv_fds_with_buffer result (RecvError e # _) = ([], map fd result, Some e)"
| "recv_fds_with_buffer result (RecvNothing # _) = ([], map fd result, None)"
| "recv_fds_with_buffer result (RecvMessage m # rest) =
     (if has_more_fds m then recv_fds_with_buffer (result @ pairs_of m) rest
      else (result @ pairs_of m, [], None))"

definition recv_fds :: "recv_result list \<Rightarrow> fd_fd list \<times> int list \<times> errno option" where
  "recv_fds results = recv_fds_with_buffer [] results"

section \<open>Fetching the sockets\<close>

text \<open>
  \<open>connect_result k\<close> is the error of the \<open>k\<close>th call of \<open>connect\<close>, if any, \<open>stopping k\<close> what \<open>worker_reload || !worker_running\<close> is
  when it is tested for the \<open>k\<close>th time, and \<open>available k\<close> what the \<open>k\<close>th call of \<open>recv_fds\<close> can receive.
\<close>

record accept_env =
  connect_result :: "nat \<Rightarrow> errno option"
  stopping :: "nat \<Rightarrow> bool"
  available :: "nat \<Rightarrow> recv_result list"

text \<open>The result is an error, or whether a connection was made, with the number of tests of the flags.\<close>

partial_function (option) try_connect :: "accept_env \<Rightarrow> nat \<Rightarrow> nat \<Rightarrow> (bool \<times> nat) outcome option" where
  "try_connect env k tests =
     (case connect_result env k of
        None \<Rightarrow> Some (Inr (True, tests))
      | Some e \<Rightarrow>
          if e = EAGAIN \<or> e = ECONNREFUSED \<or> e = ECONNRESET then
            if stopping env tests then Some (Inr (False, tests + 1))
            else try_connect env (k + 1) (tests + 1)
          else Some (elog_error ''error connecting to sharing socket''))"

partial_function (option) receive_loop :: "accept_env \<Rightarrow> nat \<Rightarrow> nat \<Rightarrow> int list \<Rightarrow> (fd_fd list \<times> int list) option" where
  "receive_loop env k tests closed =
     (if stopping env tests then Some ([], closed)
      else case recv_fds (available env k) of
             (result, dropped, err) \<Rightarrow>
               if err = Some EAGAIN then receive_loop env (k + 1) (tests + 1) (closed @ dropped)
               else Some (result, closed @ dropped))"

definition accept_fds :: "accept_env \<Rightarrow> (fd_fd list \<times> int list) outcome option" where
  "accept_fds env =
     (case try_connect env 0 0 of
        None \<Rightarrow> None
      | Some (Inl e) \<Rightarrow> Some (Inl e)
      | Some (Inr (connected, tests)) \<Rightarrow>
          if connected then map_option Inr (receive_loop env 0 tests []) else Some (Inr ([], [])))"

section \<open>Round trip\<close>

text \<open>The kernel gives the receiver a descriptor \<open>install f\<close> for the descriptor \<open>f\<close> of the sender.\<close>

definition transfer :: "(int \<Rightarrow> int) \<Rightarrow> fd_message \<Rightarrow> recv_result" where
  "transfer install m = RecvMessage (m\<lparr>rights := map install (rights m)\<rparr>)"

lemma pairs_of_transfer:
  "pairs_of (m\<lparr>payload := xs, rights := map install xs\<rparr>) = map (\<lambda>f. \<lparr>fd = install f, master_fd = f\<rparr>) xs"
  by (auto simp: pairs_of_def zip_map1 zip_same_conv_map)

lemma recv_send:
  assumes "send_fds_with_buffer send_ok k fds = (0, messages)" "fds \<noteq> []"
  shows "recv_fds_with_buffer result (map (transfer install) messages @ rest) =
    (result @ map (\<lambda>f. \<lparr>fd = install f, master_fd = f\<rparr>) fds, [], None)"
  using assms
proof (induction send_ok k fds arbitrary: result messages rule: send_fds_with_buffer.induct)
  case (1 send_ok k fds)
  define n where "n = (if length fds > MAX_N_FDS then MAX_N_FDS else length fds)"
  define m where "m = \<lparr>has_more_fds = length fds > MAX_N_FDS, payload = take n fds, rights = take n fds\<rparr>"
  have ok: "send_ok k" using 1(2,3) send_fds_with_buffer_fails[of fds send_ok k] by auto
  obtain ms where ms: "send_fds_with_buffer send_ok (k + 1) (drop n fds) = (0, ms)" "messages = m # ms"
    using 1(2) send_fds_with_buffer_step[where send_ok = send_ok and k = k, OF 1(3) ok n_def] by (auto simp: m_def split: prod.splits)
  have pairs: "pairs_of (m\<lparr>rights := map install (rights m)\<rparr>) = map (\<lambda>f. \<lparr>fd = install f, master_fd = f\<rparr>) (take n fds)"
    using pairs_of_transfer[where m = m and xs = "take n fds" and install = install] by (simp add: m_def)
  show ?case
  proof (cases "length fds > MAX_N_FDS")
    case True
    then have "drop n fds \<noteq> []" by (simp add: n_def)
    have "recv_fds_with_buffer (result @ map (\<lambda>f. \<lparr>fd = install f, master_fd = f\<rparr>) (take n fds))
        (map (transfer install) ms @ rest) =
        ((result @ map (\<lambda>f. \<lparr>fd = install f, master_fd = f\<rparr>) (take n fds)) @
           map (\<lambda>f. \<lparr>fd = install f, master_fd = f\<rparr>) (drop n fds), [], None)"
      using 1(1)[OF 1(3) n_def m_def _ ms(1) \<open>drop n fds \<noteq> []\<close>] ok by simp
    moreover have "has_more_fds m" using True by (simp add: m_def)
    ultimately show ?thesis by (simp add: ms(2) transfer_def[of install m] pairs flip: map_append)
  next
    case False
    then have "\<not> has_more_fds m" "take n fds = fds" by (simp_all add: m_def n_def)
    then show ?thesis using pairs by (simp add: ms(2) transfer_def)
  qed
qed

lemma send_fds_ok: "(\<And>k. send_ok k) \<Longrightarrow> \<exists>messages. send_fds_with_buffer send_ok k fds = (0, messages)"
proof (induction send_ok k fds rule: send_fds_with_buffer.induct)
  case (1 send_ok k fds)
  show ?case
  proof (cases "fds = []")
    case False
    define n where "n = (if length fds > MAX_N_FDS then MAX_N_FDS else length fds)"
    define msg where "msg = \<lparr>has_more_fds = length fds > MAX_N_FDS, payload = take n fds, rights = take n fds\<rparr>"
    obtain ms where "send_fds_with_buffer send_ok (k + 1) (drop n fds) = (0, ms)"
      using 1(1)[OF False n_def msg_def] 1(2) by blast
    then have "send_ok k \<Longrightarrow> send_fds_with_buffer send_ok k fds = (0, msg # ms)"
      using send_fds_with_buffer_step[OF False _ n_def, of send_ok k] by (simp add: msg_def)
    then show ?thesis using 1(2) by blast
  qed simp
qed

lemma send_fds_bounds:
  "send_fds_with_buffer send_ok k fds = (r, messages) \<Longrightarrow> m \<in> set messages \<Longrightarrow>
   length (rights m) \<le> MAX_N_FDS \<and> payload m = rights m \<and> rights m \<noteq> []"
proof (induction send_ok k fds arbitrary: r messages rule: send_fds_with_buffer.induct)
  case (1 send_ok k fds)
  show ?case
  proof (cases "fds = [] \<or> \<not> send_ok k")
    case True
    then show ?thesis using 1(2,3) by (cases "fds = []") (auto simp: send_fds_with_buffer_fails)
  next
    case False
    define n where "n = (if length fds > MAX_N_FDS then MAX_N_FDS else length fds)"
    define msg where "msg = \<lparr>has_more_fds = length fds > MAX_N_FDS, payload = take n fds, rights = take n fds\<rparr>"
    obtain r' ms where ms: "send_fds_with_buffer send_ok (k + 1) (drop n fds) = (r', ms)" "messages = msg # ms"
      using 1(2) False send_fds_with_buffer_step[OF _ _ n_def] by (auto simp: msg_def split: prod.splits)
    have "m \<in> set ms \<Longrightarrow> ?thesis" using 1(1)[OF _ n_def msg_def _ ms(1)] False by blast
    moreover have "m = msg \<Longrightarrow> ?thesis" using False by (auto simp: msg_def n_def MAX_N_FDS_def)
    ultimately show ?thesis using 1(3) ms(2) by auto
  qed
qed

lemma receive_loop_waits:
  assumes "\<And>j. j \<le> k \<Longrightarrow> \<not> stopping env (tests + j)" "\<And>j. j < k \<Longrightarrow> available env (i + j) = []"
    "recv_fds (available env (i + k)) = (result, dropped, err)" "err \<noteq> Some EAGAIN"
  shows "receive_loop env i tests closed = Some (result, closed @ dropped)"
  using assms
proof (induction k arbitrary: i tests)
  case 0
  then show ?case by (subst receive_loop.simps) auto
next
  case (Suc k)
  have "available env i = []" "\<not> stopping env tests" using Suc.prems(1,2)[of 0] by simp_all
  moreover have "receive_loop env (i + 1) (tests + 1) closed = Some (result, closed @ dropped)"
    using Suc.prems(1)[of "Suc _"] Suc.prems(2)[of "Suc _"] Suc.prems(3,4) by (intro Suc.IH) auto
  ultimately show ?case by (subst receive_loop.simps) (simp add: recv_fds_def)
qed

lemma try_connect_waits:
  assumes "\<And>j. j < k \<Longrightarrow> connect_result env (i + j) \<in> Some ` {EAGAIN, ECONNREFUSED, ECONNRESET} \<and> \<not> stopping env (tests + j)"
    "connect_result env (i + k) = None"
  shows "try_connect env i tests = Some (Inr (True, tests + k))"
  using assms
proof (induction k arbitrary: i tests)
  case 0
  then show ?case by (subst try_connect.simps) simp
next
  case (Suc k)
  have "connect_result env i \<in> Some ` {EAGAIN, ECONNREFUSED, ECONNRESET}" "\<not> stopping env tests"
    using Suc.prems(1)[of 0] by simp_all
  moreover have "try_connect env (i + 1) (tests + 1) = Some (Inr (True, tests + 1 + k))"
    using Suc.prems(1)[of "Suc _"] Suc.prems(2) by (intro Suc.IH) auto
  ultimately show ?case by (subst try_connect.simps) auto
qed

lemma accept_fds_sent:
  assumes "fds \<noteq> []" "\<And>k. send_ok k" "send_fds send_ok fds = (r, messages)"
    "\<And>j. j < c \<Longrightarrow> connect_result env j \<in> Some ` {EAGAIN, ECONNREFUSED, ECONNRESET}" "connect_result env c = None"
    "\<And>j. \<not> stopping env j"
    "\<And>j. j < k \<Longrightarrow> available env j = []" "available env k = map (transfer install) messages"
  shows "r = 0 \<and> accept_fds env = Some (Inr (map (\<lambda>f. \<lparr>fd = install f, master_fd = f\<rparr>) fds, []))"
proof -
  have r: "r = 0" using send_fds_ok[where send_ok = send_ok and k = 0 and fds = fds] assms(2,3) by (auto simp: send_fds_def)
  have "try_connect env 0 0 = Some (Inr (True, c))" using try_connect_waits[of c env 0 0] assms(4-6) by auto
  moreover have "recv_fds (available env k) = (map (\<lambda>f. \<lparr>fd = install f, master_fd = f\<rparr>) fds, [], None)"
    using recv_send[of send_ok 0 fds messages "[]" install "[]"] assms(1,3,8) r by (simp add: send_fds_def recv_fds_def)
  then have "receive_loop env 0 c [] = Some (map (\<lambda>f. \<lparr>fd = install f, master_fd = f\<rparr>) fds, [])"
    using receive_loop_waits[of k env c 0 _ "[]" None "[]"] assms(6,7) by simp
  ultimately show ?thesis using r by (simp add: accept_fds_def)
qed

text \<open>
  C27: A worker that waits for the master worker gets all of its sockets, in order, with the numbers that they have in the
  master: it returns if the connection is made after any number of attempts, and the messages arrive
  together after any number of polls.  Each message has at most \<open>MAX_N_FDS\<close> descriptors.
\<close>

theorem sockets_shared:
  assumes "fds \<noteq> []" "\<And>k. send_ok k" "send_fds send_ok fds = (r, messages)"
    "\<And>j. j < c \<Longrightarrow> connect_result env j \<in> Some ` {EAGAIN, ECONNREFUSED, ECONNRESET}" "connect_result env c = None"
    "\<And>j. \<not> stopping env j"
    "\<And>j. j < k \<Longrightarrow> available env j = []" "available env k = map (transfer install) messages"
  shows "r = 0 \<and> list_all (\<lambda>m. length (rights m) \<le> MAX_N_FDS) messages \<and>
    accept_fds env = Some (Inr (map (\<lambda>f. \<lparr>fd = install f, master_fd = f\<rparr>) fds, []))"
  using accept_fds_sent[where send_ok = send_ok and fds = fds and c = c and k = k, OF assms] send_fds_bounds assms(3)
  by (auto simp: send_fds_def list_all_iff)

theorem sockets_shared_witness:
  "accept_fds \<lparr>connect_result = (\<lambda>j. if j = 0 then Some ECONNREFUSED else None), stopping = (\<lambda>_. False),
       available = (\<lambda>j. if j = 0 then [] else map (transfer (\<lambda>f. f + 10)) (snd (send_fds (\<lambda>_. True) [5, 6])))\<rparr> =
     Some (Inr ([\<lparr>fd = 15, master_fd = 5\<rparr>, \<lparr>fd = 16, master_fd = 6\<rparr>], []))"
  (is "accept_fds ?env = _")
proof -
  obtain r messages where send: "send_fds (\<lambda>_. True) [5, 6] = (r, messages)" by fastforce
  have "connect_result ?env j \<in> Some ` {EAGAIN, ECONNREFUSED, ECONNRESET}" if "j < 1" for j using that by simp
  moreover have "available ?env j = []" if "j < 1" for j using that by simp
  moreover have "available ?env 1 = map (transfer (\<lambda>f. f + 10)) messages" using send by simp
  ultimately show ?thesis
    using sockets_shared[of "[5, 6]" "\<lambda>_. True" r messages 1 ?env 1 "\<lambda>f. f + 10"] send by auto
qed

text \<open>
  If there are more sockets than fit in one message and the second message is not there yet when the first has been
  received, the sockets of the first message are closed and missing from the result.
\<close>

theorem late_message_loses_sockets:
  assumes "send_fds (\<lambda>_. True) fds = (r, m # m' # messages)" "connect_result env 0 = None" "\<And>j. \<not> stopping env j"
    "available env 0 = [transfer install m]" "available env 1 = map (transfer install) (m' # messages)"
  shows "accept_fds env =
    Some (Inr (map (\<lambda>f. \<lparr>fd = install f, master_fd = f\<rparr>) (drop MAX_N_FDS fds), map install (take MAX_N_FDS fds)))"
proof -
  have ne: "fds \<noteq> []" using assms(1) by (auto simp: send_fds_def)
  define n where "n = (if length fds > MAX_N_FDS then MAX_N_FDS else length fds)"
  have send: "m = \<lparr>has_more_fds = length fds > MAX_N_FDS, payload = take n fds, rights = take n fds\<rparr>"
    "send_fds_with_buffer (\<lambda>_. True) 1 (drop n fds) = (r, m' # messages)"
    using assms(1) send_fds_with_buffer_step[OF ne _ n_def, of "\<lambda>_. True" 0] by (auto simp: send_fds_def split: prod.splits)
  then have rest: "drop n fds \<noteq> []" by auto
  then have n: "n = MAX_N_FDS" "length fds > MAX_N_FDS" by (auto simp: n_def split: if_splits)
  have r: "r = 0" using send_fds_ok[where send_ok = "\<lambda>_. True" and k = 1 and fds = "drop n fds"] send(2) by auto
  have "recv_fds (available env 0) = ([], map install (take MAX_N_FDS fds), Some EAGAIN)"
    using n send(1) by (simp add: assms(4) recv_fds_def transfer_def pairs_of_def zip_map1 zip_same_conv_map comp_def)
  moreover have "recv_fds (available env 1) = (map (\<lambda>f. \<lparr>fd = install f, master_fd = f\<rparr>) (drop MAX_N_FDS fds), [], None)"
    using recv_send[OF send(2)[unfolded r] rest, of "[]" install "[]"] unfolding assms(5) by (simp add: recv_fds_def n(1))
  ultimately have "receive_loop env 0 0 [] =
      Some (map (\<lambda>f. \<lparr>fd = install f, master_fd = f\<rparr>) (drop MAX_N_FDS fds), map install (take MAX_N_FDS fds))"
    using assms(3) by (subst receive_loop.simps) (simp add: receive_loop.simps[of env "Suc 0"])
  moreover have "try_connect env 0 0 = Some (Inr (True, 0))" using assms(2) by (simp add: try_connect.simps)
  ultimately show ?thesis by (simp add: accept_fds_def)
qed

end
