(* ===== verification/Omni_Httpd_Listeners.thy ===== *)
theory Omni_Httpd_Listeners
  imports Omni_Httpd_Fds
begin

text \<open>
  Listeners of \<open>omni_httpd\<close>: how the master worker (\<open>master_worker.c\<close>) turns the rows of the table \<open>listeners\<close> into listening
  sockets, and how an HTTP worker (\<open>http_worker.c\<close>) takes them over.

  \<open>master\<close> is the state of the master worker with the table; \<open>listener_ctx\<close> is the worker's record of a socket.  The system
  calls that create a socket are given by \<open>os\<close>, by the number of the attempt.
\<close>

section \<open>Creating a socket\<close>

datatype sa_family = AF_INET | AF_INET6 | AF_UNSPEC

text \<open>The structures \<open>sockaddr_in\<close> and \<open>sockaddr_in6\<close> as they are filled in.  The flow information of the latter is 0.\<close>

datatype sockaddr =
    SockaddrIn sa_family string int
  | SockaddrIn6 sa_family string int

record os =
  sys_socket :: "nat \<Rightarrow> errno + int"
  sys_setsockopt :: "nat \<Rightarrow> errno option"
  sys_bind :: "nat \<Rightarrow> sa_family \<Rightarrow> sockaddr \<Rightarrow> errno option"
  sys_listen :: "nat \<Rightarrow> errno option"
  sys_getsockname_port :: "nat \<Rightarrow> int"

definition first_error :: "errno option list \<Rightarrow> errno option" where
  "first_error es = (case filter (\<lambda>e. e \<noteq> None) es of [] \<Rightarrow> None | e # _ \<Rightarrow> e)"

text \<open>
  The result is an error or the socket with its port, and the descriptors that are left open on failure.  The address is
  given to the system as the text it is parsed from.  Callers pass one of the two internet families; for
  another one \<open>errno\<close> is not set, which \<open>EOTHER\<close> stands for.
\<close>

definition create_listening_socket :: "os \<Rightarrow> nat \<Rightarrow> sa_family \<Rightarrow> int \<Rightarrow> string \<Rightarrow> (errno + int \<times> int) \<times> int list" where
  "create_listening_socket os t family port address =
     (let sa = (case family of
                  AF_INET \<Rightarrow> Some (SockaddrIn AF_INET address (port mod 65536))
                | AF_INET6 \<Rightarrow> Some (SockaddrIn6 AF_INET address (port mod 65536))
                | AF_UNSPEC \<Rightarrow> None) in
      case sa of
        None \<Rightarrow> (Inl EOTHER, [])
      | Some sa \<Rightarrow>
          (case sys_socket os t of
             Inl e \<Rightarrow> (Inl e, [])
           | Inr sock \<Rightarrow>
               (case first_error [sys_setsockopt os t, sys_bind os t AF_INET sa, sys_listen os t] of
                  Some e \<Rightarrow> (Inl e, [sock])
                | None \<Rightarrow> (Inr (sock, sys_getsockname_port os t), []))))"

section \<open>The master worker\<close>

datatype inet_family = PGSQL_AF_INET | PGSQL_AF_INET6

record listener =
  l_id :: int
  l_family :: inet_family
  l_address :: string
  l_port :: "int option"
  l_effective_port :: "int option"

record master =
  portsocks :: "(int, int) htab"
  sockets :: "int list"
  listeners :: "listener list"
  port_ready :: bool
  worker_reload :: bool
  closed :: "int list"
  leaked :: "int list"

datatype listen_result =
    Listening int int
  | Reused int int
  | ListenFailed errno

definition socket_family :: "listener \<Rightarrow> sa_family" where
  "socket_family l = (if l_family l = PGSQL_AF_INET then AF_INET else AF_INET6)"

lemma socket_family_internet [simp]: "socket_family l \<noteq> AF_UNSPEC"
  by (simp add: socket_family_def)

text \<open>
  The attempts for one listener: its own port, the port it had before, any port.  The arguments are the port to try and the
  port it had before, \<open>None\<close> if that is null.
\<close>

partial_function (option) try_listen ::
  "os \<Rightarrow> (int, int) htab \<Rightarrow> listener \<Rightarrow> int \<Rightarrow> int option \<Rightarrow> nat \<Rightarrow> int list \<Rightarrow> (listen_result \<times> nat \<times> int list) option" where
  "try_listen os ps l try_port_no current_effective_port t leaks =
     (case create_listening_socket os t (socket_family l) try_port_no (l_address l) of
        (r, lk) \<Rightarrow>
     (case r of
        Inr (sock, effective_port) \<Rightarrow> Some (Listening sock effective_port, t + 1, leaks @ lk)
      | Inl e \<Rightarrow>
          if e \<noteq> EADDRINUSE then Some (ListenFailed e, t + 1, leaks @ lk)
          else
            (case current_effective_port of
               None \<Rightarrow> try_listen os ps l 0 None (t + 1) (leaks @ lk)
             | Some p \<Rightarrow>
                 if p \<noteq> 0 \<and> p \<noteq> try_port_no then
                   (case hash_find ps p of
                      Some sock \<Rightarrow> Some (Reused p sock, t + 1, leaks @ lk)
                    | None \<Rightarrow> try_listen os ps l p None (t + 1) (leaks @ lk))
                 else try_listen os ps l 0 (Some p) (t + 1) (leaks @ lk))))"

definition set_effective_port :: "int \<Rightarrow> int \<Rightarrow> listener list \<Rightarrow> listener list" where
  "set_effective_port i port ls = map (\<lambda>l. if l_id l = i then l\<lparr>l_effective_port := Some port\<rparr> else l) ls"

text \<open>The map keeps an entry that is already there.\<close>

definition portsock_insert :: "int \<Rightarrow> int \<Rightarrow> (int, int) htab \<Rightarrow> (int, int) htab" where
  "portsock_insert port sock ps = (case hash_find ps port of None \<Rightarrow> hash_enter port sock ps | Some _ \<Rightarrow> ps)"

fun scan_listeners :: "os \<Rightarrow> listener list \<Rightarrow> nat \<Rightarrow> int list \<Rightarrow> master \<Rightarrow> (master \<times> int list \<times> nat) option" where
  "scan_listeners os [] t ports m = Some (m, ports, t)"
| "scan_listeners os (l # ls) t ports m =
     (if length (sockets m) = MAX_N_FDS then Some (m, ports, t)
      else
        (case l_port l of
           None \<Rightarrow> scan_listeners os ls t ports m
         | Some port_no \<Rightarrow>
             (case hash_find (portsocks m) port_no of
                Some sock \<Rightarrow> scan_listeners os ls t (ports @ [port_no]) (m\<lparr>sockets := sockets m @ [sock]\<rparr>)
              | None \<Rightarrow>
                  (case try_listen os (portsocks m) l port_no (l_effective_port l) t [] of
                     None \<Rightarrow> None
                   | Some (ListenFailed e, t', lk) \<Rightarrow>
                       scan_listeners os ls t' ports (m\<lparr>port_ready := True, leaked := leaked m @ lk\<rparr>)
                   | Some (Reused p sock, t', lk) \<Rightarrow>
                       scan_listeners os ls t' (ports @ [p])
                         (m\<lparr>port_ready := True, leaked := leaked m @ lk, sockets := sockets m @ [sock]\<rparr>)
                   | Some (Listening sock p, t', lk) \<Rightarrow>
                       scan_listeners os ls t' (ports @ [p])
                         (m\<lparr>port_ready := True, leaked := leaked m @ lk, sockets := sockets m @ [sock],
                            portsocks := portsock_insert p sock (portsocks m),
                            listeners := set_effective_port (l_id l) p (listeners m)\<rparr>)))))"

definition remove_unused :: "int list \<Rightarrow> master \<Rightarrow> master" where
  "remove_unused ports m =
     m\<lparr>portsocks := filter (\<lambda>(p, _). p \<in> set ports) (portsocks m),
       closed := closed m @ map snd (filter (\<lambda>(p, _). p \<notin> set ports) (portsocks m))\<rparr>"

definition reload_listeners :: "os \<Rightarrow> nat \<Rightarrow> master \<Rightarrow> (master \<times> nat) option" where
  "reload_listeners os t m =
     (let rows = sort_key l_id (listeners m) in
      case scan_listeners os rows t [] (if rows = [] then m\<lparr>port_ready := False\<rparr> else m) of
        None \<Rightarrow> None
      | Some (m', ports, t') \<Rightarrow> Some (remove_unused ports m', t'))"

text \<open>
  The outer loop, up to the point where the workers are told.  \<open>locked k\<close> says whether the table can be locked the \<open>k\<close>th time,
  \<open>notified k\<close> whether a change was announced and \<open>shutdown k\<close> whether the worker was told to stop by then.
  The result is \<open>False\<close> if it stops.
\<close>

record master_env =
  menv_os :: os
  locked :: "nat \<Rightarrow> bool"
  notified :: "nat \<Rightarrow> bool"
  shutdown :: "nat \<Rightarrow> bool"

partial_function (option) load_listeners :: "master_env \<Rightarrow> nat \<Rightarrow> nat \<Rightarrow> master \<Rightarrow> (bool \<times> master) option" where
  "load_listeners env k t m =
     (if \<not> worker_reload m then Some (True, m)
      else if \<not> locked env k then
        (if shutdown env k then Some (False, m) else load_listeners env (k + 1) t m)
      else
        (case reload_listeners (menv_os env) t (m\<lparr>worker_reload := False\<rparr>) of
           None \<Rightarrow> None
         | Some (m', t') \<Rightarrow>
             if port_ready m' then Some (True, m')
             else if shutdown env k then Some (False, m'\<lparr>worker_reload := notified env k\<rparr>)
             else load_listeners env (k + 1) t' (m'\<lparr>worker_reload := notified env k\<rparr>)))"

definition master_round :: "master_env \<Rightarrow> nat \<Rightarrow> master \<Rightarrow> (bool \<times> master) option" where
  "master_round env t m = load_listeners env 0 t (m\<lparr>sockets := []\<rparr>)"

section \<open>An HTTP worker\<close>

record listener_ctx =
  listener_id :: int
  has_socket :: bool
  ctx_fd :: int
  ctx_master_fd :: int

fun take_master_fd :: "int \<Rightarrow> fd_fd list \<Rightarrow> (fd_fd \<times> fd_fd list) option" where
  "take_master_fd i [] = None"
| "take_master_fd i (f # fs) =
     (if master_fd f = i then Some (f, fs) else map_option (\<lambda>(g, gs). (g, f # gs)) (take_master_fd i fs))"

text \<open>The contexts that stay, the descriptors that are new, and the descriptors that are closed.\<close>

fun dispose_contexts :: "listener_ctx list \<Rightarrow> fd_fd list \<Rightarrow> listener_ctx list \<times> fd_fd list \<times> int list" where
  "dispose_contexts [] new_fds = ([], new_fds, [])"
| "dispose_contexts (c # cs) new_fds =
     (case take_master_fd (ctx_master_fd c) new_fds of
        Some (f, new_fds') \<Rightarrow>
          (case dispose_contexts cs new_fds' of (kept, new_fds'', cl) \<Rightarrow> (c # kept, new_fds'', fd f # cl))
      | None \<Rightarrow>
          (case dispose_contexts cs new_fds of
             (kept, new_fds'', cl) \<Rightarrow> (kept, new_fds'', (if has_socket c then [ctx_fd c] else []) @ cl)))"

definition create_listener :: "fd_fd \<Rightarrow> listener_ctx" where
  "create_listener f = \<lparr>listener_id = 0, has_socket = (fd f \<noteq> -1), ctx_fd = fd f, ctx_master_fd = master_fd f\<rparr>"

fun set_listener_id :: "int \<Rightarrow> int \<Rightarrow> listener_ctx list \<Rightarrow> listener_ctx list option" where
  "set_listener_id i master [] = None"
| "set_listener_id i master (c # cs) =
     (if ctx_master_fd c = master then Some (c\<lparr>listener_id := i\<rparr> # cs)
      else map_option (\<lambda>cs'. c # cs') (set_listener_id i master cs))"

fun assign_listeners :: "fd_fd list \<Rightarrow> int list \<Rightarrow> int \<Rightarrow> int \<Rightarrow> listener_ctx list \<Rightarrow> listener_ctx list outcome" where
  "assign_listeners fds [] last_id index ctxs = Inr ctxs"
| "assign_listeners fds (i # ids) last_id index ctxs =
     (let index' = (if last_id \<noteq> i then index + 1 else index) in
      if index' < 0 \<or> int (length fds) \<le> index' then Inl (Crash ''no socket at this index'')
      else
        (case set_listener_id i (master_fd (fds ! nat index')) ctxs of
           None \<Rightarrow> Inl (Crash ''no context for the socket'')
         | Some ctxs' \<Rightarrow> assign_listeners fds ids i index' ctxs'))"

text \<open>\<open>ids\<close> are the ids of the listeners in ascending order.\<close>

definition reload_worker :: "int list \<Rightarrow> fd_fd list \<Rightarrow> listener_ctx list \<Rightarrow> (listener_ctx list \<times> int list) outcome" where
  "reload_worker ids fds ctxs =
     (if fds = [] then Inr (ctxs, [])
      else
        (case dispose_contexts ctxs fds of
           (kept, new_fds, cl) \<Rightarrow>
             bind_outcome (assign_listeners fds ids 0 (-1) (kept @ map create_listener new_fds)) (\<lambda>ctxs'.
               Inr (ctxs', cl))))"

section \<open>Opening sockets ends\<close>

text \<open>The system finds a free port if it is asked for any.\<close>

definition grants_ports :: "os \<Rightarrow> bool" where
  "grants_ports os \<longleftrightarrow> (\<forall>t family address. fst (create_listening_socket os t family 0 address) \<noteq> Inl EADDRINUSE)"

lemma try_listen_zero:
  assumes "grants_ports os"
  shows "\<exists>r lk. try_listen os ps l 0 p t leaks = Some (r, t + 1, lk)"
proof -
  obtain r lk where r: "create_listening_socket os t (socket_family l) 0 (l_address l) = (r, lk)" by fastforce
  then have "r \<noteq> Inl EADDRINUSE" using assms by (metis fst_conv grants_ports_def)
  then show ?thesis using r by (subst try_listen.simps) (auto split: sum.splits)
qed

lemma try_listen_forgotten:
  assumes "grants_ports os"
  shows "\<exists>r t' lk. try_listen os ps l q None t leaks = Some (r, t', lk) \<and> t' \<le> t + 2"
proof -
  obtain r lk where "create_listening_socket os t (socket_family l) q (l_address l) = (r, lk)" by fastforce
  then show ?thesis
    using try_listen_zero[OF assms, of ps l None "t + 1" "leaks @ lk"]
    by (subst try_listen.simps) (auto split: sum.splits)
qed

lemma try_listen_returns:
  assumes "grants_ports os"
  shows "\<exists>r t' lk. try_listen os ps l q p t leaks = Some (r, t', lk) \<and> t' \<le> t + 3"
proof -
  obtain r lk where r: "create_listening_socket os t (socket_family l) q (l_address l) = (r, lk)" by fastforce
  obtain r1 lk1 where zero: "try_listen os ps l 0 p (t + 1) (leaks @ lk) = Some (r1, t + 2, lk1)"
    using try_listen_zero[OF assms, of ps l p "t + 1" "leaks @ lk"] by auto
  have again: "\<exists>r t' lk'. try_listen os ps l x None (t + 1) (leaks @ lk) = Some (r, t', lk') \<and> t' \<le> t + 3" for x
    using try_listen_forgotten[OF assms, of ps l x "t + 1" "leaks @ lk"] by auto
  show ?thesis
    using r zero again by (subst try_listen.simps) (auto split: sum.splits option.splits)
qed

lemma scan_listeners_returns:
  assumes "grants_ports os"
  shows "\<exists>m' ports' t'. scan_listeners os ls t ports m = Some (m', ports', t') \<and> t' \<le> t + 3 * length ls"
proof (induction ls arbitrary: t ports m)
  case (Cons l ls)
  have rec: "\<exists>m' ports' t''. scan_listeners os ls t' ports m = Some (m', ports', t'') \<and> t'' \<le> t + 3 * Suc (length ls)"
    if "t' \<le> t + 3" for t' ports m
    using Cons.IH[of t' ports m] that by auto
  have now: "\<exists>m' ports' t''. scan_listeners os ls t ports m = Some (m', ports', t'') \<and> t'' \<le> t + 3 * Suc (length ls)"
    for ports m using rec[of t] by simp
  show ?case
  proof (cases "length (sockets m) = MAX_N_FDS \<or> l_port l = None")
    case True
    then show ?thesis using now by (auto split: option.splits)
  next
    case False
    then obtain port_no where p: "l_port l = Some port_no" "length (sockets m) \<noteq> MAX_N_FDS" by auto
    obtain r t' lk where tl: "try_listen os (portsocks m) l port_no (l_effective_port l) t [] = Some (r, t', lk)" "t' \<le> t + 3"
      using try_listen_returns[OF assms] by blast
    show ?thesis
      using p tl(1) rec[OF tl(2)] now by (cases r) (auto split: option.splits)
  qed
qed simp

section \<open>Sockets of the listeners\<close>

lemma portsock_insert_find:
  "hash_find (portsock_insert p s ps) q = (if q = p \<and> hash_find ps p = None then Some s else hash_find ps q)"
  by (auto simp: portsock_insert_def htab_simps split: option.splits)

lemma hash_wf_portsock_insert: "hash_wf ps \<Longrightarrow> hash_wf (portsock_insert p s ps)"
  by (auto simp: portsock_insert_def htab_simps split: option.splits)

text \<open>
  The attempts from number \<open>t\<close> on do not fail for reasons other than a port in use, and those that succeed give ports
  that differ from each other and from the open ones.  Of the attempts with one number only one is made; the others may be
  taken to find their port in use.
\<close>

definition fresh_ports :: "os \<Rightarrow> nat \<Rightarrow> (int, int) htab \<Rightarrow> bool" where
  "fresh_ports os t ps \<longleftrightarrow>
     (\<forall>u\<ge>t. \<forall>family q address. family \<noteq> AF_UNSPEC \<longrightarrow>
        (\<forall>e. fst (create_listening_socket os u family q address) = Inl e \<longrightarrow> e = EADDRINUSE) \<and>
        (\<forall>s p. fst (create_listening_socket os u family q address) = Inr (s, p) \<longrightarrow>
           hash_find ps p = None \<and>
           (\<forall>v>u. \<forall>family' q' address' s'. fst (create_listening_socket os v family' q' address') \<noteq> Inr (s', p))))"

definition allowed_result :: "(int, int) htab \<Rightarrow> listener \<Rightarrow> int option \<Rightarrow> os \<Rightarrow> nat \<Rightarrow> listen_result \<Rightarrow> nat \<Rightarrow> bool" where
  "allowed_result ps l eff os t r t' \<longleftrightarrow> t < t' \<and>
     (case r of
        Listening s p \<Rightarrow>
          (\<exists>u family q address. t \<le> u \<and> u < t' \<and> family \<noteq> AF_UNSPEC \<and> fst (create_listening_socket os u family q address) = Inr (s, p))
      | Reused p s \<Rightarrow> eff = Some p \<and> hash_find ps p = Some s
      | ListenFailed e \<Rightarrow>
          e \<noteq> EADDRINUSE \<and>
          (\<exists>u family q address. t \<le> u \<and> u < t' \<and> family \<noteq> AF_UNSPEC \<and> fst (create_listening_socket os u family q address) = Inl e))"

lemma allowed_result_later:
  "allowed_result ps l eff' os (t + 1) r t' \<Longrightarrow> eff' = None \<or> eff' = eff \<Longrightarrow> allowed_result ps l eff os t r t'"
  by (cases r) (auto simp: allowed_result_def intro: Suc_leD)

lemma allowed_now:
  "fst (create_listening_socket os t family q address) = Inr (s, p) \<Longrightarrow> family \<noteq> AF_UNSPEC \<Longrightarrow> allowed_result ps l eff os t (Listening s p) (t + 1)"
  "fst (create_listening_socket os t family q address) = Inl e \<Longrightarrow> e \<noteq> EADDRINUSE \<Longrightarrow> family \<noteq> AF_UNSPEC \<Longrightarrow>
     allowed_result ps l eff os t (ListenFailed e) (t + 1)"
  "hash_find ps p = Some s \<Longrightarrow> allowed_result ps l (Some p) os t (Reused p s) (t + 1)"
  unfolding allowed_result_def by (simp_all, (metis lessI order_refl)+)

lemma try_listen_allowed:
  assumes "try_listen os ps l q eff t leaks = Some (r, t', lk)"
  shows "allowed_result ps l eff os t r t'"
proof -
  have "allowed_result ps l eff os t (fst (r, t', lk)) (fst (snd (r, t', lk)))"
  proof (rule try_listen.raw_induct[where P = "\<lambda>os ps l q eff t leaks y. allowed_result ps l eff os t (fst y) (fst (snd y))",
      OF _ assms])
    fix f os ps l q eff t leaks y
    assume IH: "\<And>os ps l q eff t leaks y. f os ps l q eff t leaks = Some y \<Longrightarrow> allowed_result ps l eff os t (fst y) (fst (snd y))"
      and body: "(case create_listening_socket os t (socket_family l) q (l_address l) of
        (r, lk) \<Rightarrow>
     (case r of
        Inl e \<Rightarrow>
          if e \<noteq> EADDRINUSE then Some (ListenFailed e, t + 1, leaks @ lk)
          else
            (case eff of
               None \<Rightarrow> f os ps l 0 None (t + 1) (leaks @ lk)
             | Some p \<Rightarrow>
                 if p \<noteq> 0 \<and> p \<noteq> q then
                   (case hash_find ps p of
                      None \<Rightarrow> f os ps l p None (t + 1) (leaks @ lk)
                    | Some sock \<Rightarrow> Some (Reused p sock, t + 1, leaks @ lk))
                 else f os ps l 0 (Some p) (t + 1) (leaks @ lk))
      | Inr (sock, effective_port) \<Rightarrow> Some (Listening sock effective_port, t + 1, leaks @ lk))) = Some y"
    obtain c lk0 where c: "create_listening_socket os t (socket_family l) q (l_address l) = (c, lk0)" by fastforce
    have later: "allowed_result ps l eff os t (fst y) (fst (snd y))"
      if "f os ps l x eff' (t + 1) (leaks @ lk0) = Some y" "eff' = None \<or> eff' = eff" for x eff'
      using allowed_result_later[OF IH[OF that(1)] that(2)] .
    show "allowed_result ps l eff os t (fst y) (fst (snd y))"
    proof (cases c)
      case (Inr sp)
      then show ?thesis
        using body c allowed_now(1)[of os t "socket_family l" q "l_address l"] by (cases sp) auto
    next
      case (Inl e)
      show ?thesis
      proof (cases "e = EADDRINUSE")
        case True
        then show ?thesis
          using body c Inl later by (auto split: option.splits if_splits dest: allowed_now(3))
      next
        case False
        then show ?thesis using body c Inl allowed_now(2)[of os t "socket_family l" q "l_address l" e] by auto
      qed
    qed
  qed
  then show ?thesis by simp
qed

text \<open>What a scan keeps: ports in use, open sockets, rows of other listeners.\<close>

definition extends :: "listener list \<Rightarrow> int list \<Rightarrow> master \<Rightarrow> int list \<Rightarrow> master \<Rightarrow> bool" where
  "extends ls ports m ports' m' \<longleftrightarrow>
     set ports \<subseteq> set ports' \<and>
     (\<forall>p s. hash_find (portsocks m) p = Some s \<longrightarrow> hash_find (portsocks m') p = Some s) \<and>
     (\<forall>l'\<in>set (listeners m). l_id l' \<notin> l_id ` set ls \<longrightarrow> l' \<in> set (listeners m')) \<and>
     (\<exists>S. sockets m' = sockets m @ S \<and> length S \<le> length ls) \<and>
     (length (sockets m) \<le> MAX_N_FDS \<longrightarrow> length (sockets m') \<le> MAX_N_FDS) \<and>
     closed m' = closed m"

lemma extends_refl: "extends ls ports m ports m"
  by (simp add: extends_def)

lemma extends_trans:
  assumes "extends [l] ports m ports1 m1" "extends ls ports1 m1 ports' m'"
  shows "extends (l # ls) ports m ports' m'"
proof -
  obtain S S' where "sockets m1 = sockets m @ S" "length S \<le> 1" "sockets m' = sockets m1 @ S'" "length S' \<le> length ls"
    using assms by (auto simp: extends_def)
  then have "\<exists>S. sockets m' = sockets m @ S \<and> length S \<le> length (l # ls)" by auto
  then show ?thesis using assms by (auto simp: extends_def)
qed

lemma set_effective_port_mem:
  "l' \<in> set ls \<Longrightarrow> l_id l' \<noteq> i \<Longrightarrow> l' \<in> set (set_effective_port i p ls)"
  "l' \<in> set ls \<Longrightarrow> l_id l' = i \<Longrightarrow> l'\<lparr>l_effective_port := Some p\<rparr> \<in> set (set_effective_port i p ls)"
  by (auto simp: set_effective_port_def image_iff intro!: bexI[of _ l'])

lemma map_id_set_effective_port: "map l_id (set_effective_port i p ls) = map l_id ls"
  by (simp add: set_effective_port_def)

text \<open>One listener: what is left to do, and what has been done.\<close>

lemma scan_step:
  assumes "scan_listeners os (l # ls) t ports m = Some (m', ports', t')" "length (sockets m) \<noteq> MAX_N_FDS"
  shows "\<exists>t1 ports1 m1. scan_listeners os ls t1 ports1 m1 = Some (m', ports', t') \<and> extends [l] ports m ports1 m1 \<and>
    (\<forall>p. l_port l = Some p \<longrightarrow> hash_find (portsocks m) p \<noteq> None \<longrightarrow> p \<in> set ports1)"
proof (cases "l_port l")
  case None
  then have "scan_listeners os ls t ports m = Some (m', ports', t')" using assms by simp
  then show ?thesis by (intro exI conjI) (auto simp: None extends_def)
next
  case (Some port_no)
  show ?thesis
  proof (cases "hash_find (portsocks m) port_no")
    case (Some sock)
    then have "scan_listeners os ls t (ports @ [port_no]) (m\<lparr>sockets := sockets m @ [sock]\<rparr>) = Some (m', ports', t')"
      using assms \<open>l_port l = _\<close> by simp
    then show ?thesis by (intro exI conjI) (use assms(2) \<open>l_port l = _\<close> in \<open>auto simp: extends_def\<close>)
  next
    case None
    note defs = assms \<open>l_port l = _\<close> None
    obtain r t1 lk where tl: "try_listen os (portsocks m) l port_no (l_effective_port l) t [] = Some (r, t1, lk)"
      using defs by (auto split: option.splits)
    show ?thesis
    proof (cases r)
      case (Listening sock p)
      then have "scan_listeners os ls t1 (ports @ [p])
          (m\<lparr>port_ready := True, leaked := leaked m @ lk, sockets := sockets m @ [sock],
             portsocks := portsock_insert p sock (portsocks m),
             listeners := set_effective_port (l_id l) p (listeners m)\<rparr>) = Some (m', ports', t')"
        using defs tl by simp
      then show ?thesis by (intro exI conjI) (use defs(2-4) in \<open>auto simp: extends_def portsock_insert_find set_effective_port_mem\<close>)
    next
      case (Reused p sock)
      then have "scan_listeners os ls t1 (ports @ [p])
          (m\<lparr>port_ready := True, leaked := leaked m @ lk, sockets := sockets m @ [sock]\<rparr>) = Some (m', ports', t')"
        using defs tl by simp
      then show ?thesis by (intro exI conjI) (use defs(2-4) in \<open>auto simp: extends_def\<close>)
    next
      case (ListenFailed e)
      then have "scan_listeners os ls t1 ports (m\<lparr>port_ready := True, leaked := leaked m @ lk\<rparr>) = Some (m', ports', t')"
        using defs tl by simp
      then show ?thesis by (intro exI conjI) (use defs(2-4) in \<open>auto simp: extends_def\<close>)
    qed
  qed
qed

lemma scan_extends:
  "scan_listeners os ls t ports m = Some (m', ports', t') \<Longrightarrow> extends ls ports m ports' m'"
proof (induction ls arbitrary: t ports m)
  case (Cons l ls)
  show ?case
  proof (cases "length (sockets m) = MAX_N_FDS")
    case True
    then show ?thesis using Cons.prems extends_refl by simp
  next
    case False
    then show ?thesis using scan_step[OF Cons.prems] extends_trans Cons.IH by blast
  qed
qed (simp add: extends_refl)

text \<open>A port that is open and listed stays in use.\<close>

lemma scan_keeps_ports:
  assumes "scan_listeners os ls t ports m = Some (m', ports', t')" "length (sockets m) + length ls \<le> MAX_N_FDS"
    "l \<in> set ls" "l_port l = Some p" "hash_find (portsocks m) p = Some s"
  shows "p \<in> set ports'"
  using assms
proof (induction ls arbitrary: t ports m)
  case (Cons l' ls)
  have "length (sockets m) \<noteq> MAX_N_FDS" using Cons.prems(2) by simp
  then obtain t1 ports1 m1 where step: "scan_listeners os ls t1 ports1 m1 = Some (m', ports', t')" "extends [l'] ports m ports1 m1"
    "\<forall>p. l_port l' = Some p \<longrightarrow> hash_find (portsocks m) p \<noteq> None \<longrightarrow> p \<in> set ports1"
    using scan_step[OF Cons.prems(1)] by blast
  have m1: "hash_find (portsocks m1) p = Some s" "length (sockets m1) + length ls \<le> MAX_N_FDS"
    using step(2) Cons.prems(2,5) by (auto simp: extends_def)
  show ?case
  proof (cases "l' = l")
    case True
    then have "p \<in> set ports1" using step(3) Cons.prems(4,5) by simp
    then show ?thesis using scan_extends[OF step(1)] by (auto simp: extends_def)
  next
    case False
    then show ?thesis using Cons.IH[OF step(1) m1(2) _ Cons.prems(4) m1(1)] Cons.prems(3) by simp
  qed
qed simp

text \<open>The socket is open at the port of the listener, or at the port that the table now says it has.\<close>

definition served :: "int list \<Rightarrow> master \<Rightarrow> listener \<Rightarrow> int \<Rightarrow> bool" where
  "served ports m l s \<longleftrightarrow>
     (\<exists>p\<in>set ports. hash_find (portsocks m) p = Some s \<and>
        (l_port l = Some p \<or> (\<exists>l'\<in>set (listeners m). l_id l' = l_id l \<and> l_effective_port l' = Some p)))"

lemma served_extends:
  "served ports m l s \<Longrightarrow> extends ls ports m ports' m' \<Longrightarrow> l_id l \<notin> l_id ` set ls \<Longrightarrow> served ports' m' l s"
  by (auto simp: served_def extends_def) (metis subsetD)+

lemma fresh_ports_step:
  assumes "fresh_ports os t ps" "allowed_result ps l eff os t (Listening s p) t'"
  shows "hash_find ps p = None \<and> fresh_ports os t' (portsock_insert p s ps)"
proof -
  obtain u family q address where u: "t \<le> u" "u < t'" "family \<noteq> AF_UNSPEC" "fst (create_listening_socket os u family q address) = Inr (s, p)"
    using assms(2) by (auto simp: allowed_result_def)
  then have none: "hash_find ps p = None"
    and other: "\<forall>v>u. \<forall>family' q' address' s'. fst (create_listening_socket os v family' q' address') \<noteq> Inr (s', p)"
    using assms(1) unfolding fresh_ports_def by blast+
  show ?thesis
    unfolding fresh_ports_def
  proof (intro conjI allI impI none)
    fix v family q address e
    assume v: "t' \<le> v" and family: "family \<noteq> AF_UNSPEC"
    then have "t \<le> v" "u < v" using u by simp_all
    note f = assms(1)[unfolded fresh_ports_def, rule_format, OF \<open>t \<le> v\<close> family, of q address]
    show "fst (create_listening_socket os v family q address) = Inl e \<Longrightarrow> e = EADDRINUSE" using f by blast
    fix s' p'
    assume c: "fst (create_listening_socket os v family q address) = Inr (s', p')"
    then have "p' \<noteq> p" using other \<open>u < v\<close> by blast
    then show "hash_find (portsock_insert p s ps) p' = None" using f c by (auto simp: portsock_insert_find)
    show "fst (create_listening_socket os w family' q' address') \<noteq> Inr (s'', p')" if "v < w" for w family' q' address' s''
      using f c that by blast
  qed
qed

lemma fresh_ports_later: "fresh_ports os t ps \<Longrightarrow> t \<le> t' \<Longrightarrow> fresh_ports os t' ps"
  unfolding fresh_ports_def by (meson le_trans)

lemma scan_serves:
  assumes "scan_listeners os ls t ports m = Some (m', ports', t')" "fresh_ports os t (portsocks m)"
    "\<forall>l\<in>set ls. l_port l \<noteq> None \<and> l \<in> set (listeners m)" "distinct (map l_id ls)"
    "length (sockets m) + length ls \<le> MAX_N_FDS"
  shows "\<exists>S. sockets m' = sockets m @ S \<and> list_all2 (served ports' m') ls S"
  using assms
proof (induction ls arbitrary: t ports m)
  case (Cons l ls)
  have step: "\<exists>S. sockets m' = sockets m @ S \<and> list_all2 (served ports' m') (l # ls) S"
    if run: "scan_listeners os ls t1 ports1 m1 = Some (m', ports', t')" and fresh: "fresh_ports os t1 (portsocks m1)"
      and rows: "\<And>l'. l' \<in> set (listeners m) \<Longrightarrow> l_id l' \<noteq> l_id l \<Longrightarrow> l' \<in> set (listeners m1)"
      and sock: "sockets m1 = sockets m @ [s]" and here: "served ports1 m1 l s" for t1 ports1 m1 s
  proof -
    have ids: "l_id l \<notin> l_id ` set ls" using Cons.prems(4) by auto
    have "\<forall>l\<in>set ls. l_port l \<noteq> None \<and> l \<in> set (listeners m1)"
    proof
      fix l'
      assume "l' \<in> set ls"
      then have "l_id l' \<noteq> l_id l" using ids by (metis imageI)
      then show "l_port l' \<noteq> None \<and> l' \<in> set (listeners m1)" using Cons.prems(3) rows \<open>l' \<in> set ls\<close> by simp
    qed
    moreover have "distinct (map l_id ls)" using Cons.prems(4) by simp
    moreover have "length (sockets m1) + length ls \<le> MAX_N_FDS" using Cons.prems(5) sock by simp
    ultimately obtain S where S: "sockets m' = sockets m1 @ S" "list_all2 (served ports' m') ls S"
      using Cons.IH[OF run fresh] by blast
    have "served ports' m' l s" using served_extends[OF here scan_extends[OF run] ids] .
    then show ?thesis using S sock by (intro exI[of _ "s # S"]) simp
  qed
  have nfull: "length (sockets m) \<noteq> MAX_N_FDS" using Cons.prems(5) by simp
  obtain port_no where port: "l_port l = Some port_no" using Cons.prems(3) by auto
  show ?case
  proof (cases "hash_find (portsocks m) port_no")
    case (Some sock)
    then have "scan_listeners os ls t (ports @ [port_no]) (m\<lparr>sockets := sockets m @ [sock]\<rparr>) = Some (m', ports', t')"
      using Cons.prems(1) nfull port by simp
    then show ?thesis
      by (rule step) (use Cons.prems(2) Some port in \<open>auto simp: served_def\<close>)
  next
    case None
    then obtain r t1 lk where tl: "try_listen os (portsocks m) l port_no (l_effective_port l) t [] = Some (r, t1, lk)"
      using Cons.prems(1) nfull port by (auto split: option.splits)
    note ok = try_listen_allowed[OF tl]
    show ?thesis
    proof (cases r)
      case (Listening sock p)
      then have run: "scan_listeners os ls t1 (ports @ [p])
          (m\<lparr>port_ready := True, leaked := leaked m @ lk, sockets := sockets m @ [sock],
             portsocks := portsock_insert p sock (portsocks m),
             listeners := set_effective_port (l_id l) p (listeners m)\<rparr>) = Some (m', ports', t')"
        using Cons.prems(1) nfull port None tl by simp
      have f: "hash_find (portsocks m) p = None" "fresh_ports os t1 (portsock_insert p sock (portsocks m))"
        using fresh_ports_step[OF Cons.prems(2)] ok Listening by auto
      have "l\<lparr>l_effective_port := Some p\<rparr> \<in> set (set_effective_port (l_id l) p (listeners m))"
        using Cons.prems(3) by (intro set_effective_port_mem) auto
      then have "\<exists>l'\<in>set (set_effective_port (l_id l) p (listeners m)). l_id l' = l_id l \<and> l_effective_port l' = Some p"
        by (rule bexI[rotated]) simp
      then show ?thesis
        by (intro step[OF run]) (use f in \<open>auto simp: served_def portsock_insert_find set_effective_port_mem(1)\<close>)
    next
      case (Reused p sock)
      then have run: "scan_listeners os ls t1 (ports @ [p])
          (m\<lparr>port_ready := True, leaked := leaked m @ lk, sockets := sockets m @ [sock]\<rparr>) = Some (m', ports', t')"
        using Cons.prems(1) nfull port None tl by simp
      have "fresh_ports os t1 (portsocks m)" "l_effective_port l = Some p" "hash_find (portsocks m) p = Some sock"
        using ok Reused fresh_ports_later[OF Cons.prems(2), of t1] by (auto simp: allowed_result_def)
      then show ?thesis
        by (intro step[OF run]) (use Cons.prems(3) in \<open>auto simp: served_def\<close>)
    next
      case (ListenFailed e)
      then have False using ok Cons.prems(2) unfolding allowed_result_def fresh_ports_def by auto
      then show ?thesis ..
    qed
  qed
qed simp

definition serves :: "master \<Rightarrow> listener \<Rightarrow> int \<Rightarrow> bool" where
  "serves m l s \<longleftrightarrow>
     (\<exists>p. hash_find (portsocks m) p = Some s \<and>
        (l_port l = Some p \<or> (\<exists>l'\<in>set (listeners m). l_id l' = l_id l \<and> l_effective_port l' = Some p)))"

lemma served_serves: "served ports m l s \<Longrightarrow> serves (remove_unused ports m) l s"
  by (auto simp: served_def serves_def remove_unused_def hash_find_filter)

lemma reload_serves:
  assumes "grants_ports os" "fresh_ports os t (portsocks m)" "sockets m = []" "distinct (map l_id (listeners m))"
    "\<forall>l\<in>set (listeners m). l_port l \<noteq> None" "length (listeners m) \<le> MAX_N_FDS"
  shows "\<exists>m' t'. reload_listeners os t m = Some (m', t') \<and> list_all2 (serves m') (sort_key l_id (listeners m)) (sockets m')"
proof -
  define rows where "rows = sort_key l_id (listeners m)"
  define m0 where "m0 = (if rows = [] then m\<lparr>port_ready := False\<rparr> else m)"
  have m0: "portsocks m0 = portsocks m" "sockets m0 = []" "listeners m0 = listeners m" using assms(3) by (simp_all add: m0_def)
  obtain m1 ports t' where scan: "scan_listeners os rows t [] m0 = Some (m1, ports, t')"
    using scan_listeners_returns[OF assms(1)] by blast
  have "set rows = set (listeners m)" "distinct (map l_id rows)" "length rows = length (listeners m)"
    using assms(4) by (simp_all add: rows_def distinct_map)
  then obtain S where "sockets m1 = S" "list_all2 (served ports m1) rows S"
    using scan_serves[OF scan] assms(2,5,6) m0 by auto
  then have "list_all2 (serves (remove_unused ports m1)) rows (sockets (remove_unused ports m1))"
    by (auto simp: remove_unused_def[of ports m1] elim!: list_all2_mono dest: served_serves)
  then show ?thesis
    using scan by (simp add: reload_listeners_def rows_def m0_def Let_def)
qed

text \<open>
  C14: Loading the listeners ends after at most three attempts for each listener if the system always finds some free
  port.  No more sockets are handed out than fit in a message, and a socket that is open at the port of a listener
  stays open.
\<close>

theorem reload_ends:
  assumes "grants_ports os" "sockets m = []"
  shows "\<exists>m' t'. reload_listeners os t m = Some (m', t') \<and> t' \<le> t + 3 * length (listeners m) \<and>
    length (sockets m') \<le> MAX_N_FDS \<and>
    (length (listeners m) \<le> MAX_N_FDS \<longrightarrow>
       (\<forall>l\<in>set (listeners m). \<forall>p s. l_port l = Some p \<longrightarrow> hash_find (portsocks m) p = Some s \<longrightarrow> hash_find (portsocks m') p = Some s))"
proof -
  define rows where "rows = sort_key l_id (listeners m)"
  define m0 where "m0 = (if rows = [] then m\<lparr>port_ready := False\<rparr> else m)"
  have m0: "portsocks m0 = portsocks m" "sockets m0 = []" using assms(2) by (simp_all add: m0_def)
  have rows: "set rows = set (listeners m)" "length rows = length (listeners m)" by (simp_all add: rows_def)
  obtain m1 ports t' where scan: "scan_listeners os rows t [] m0 = Some (m1, ports, t')" "t' \<le> t + 3 * length rows"
    using scan_listeners_returns[OF assms(1)] by blast
  note kept = scan_extends[OF scan(1), unfolded extends_def m0]
  have "hash_find (portsocks (remove_unused ports m1)) p = Some s"
    if "length (listeners m) \<le> MAX_N_FDS" "l \<in> set (listeners m)" "l_port l = Some p" "hash_find (portsocks m) p = Some s" for l p s
    using scan_keeps_ports[OF scan(1), of l p s] that kept by (simp add: m0 rows remove_unused_def hash_find_filter)
  moreover have "length (sockets (remove_unused ports m1)) \<le> MAX_N_FDS" using kept by (simp add: remove_unused_def)
  moreover have "reload_listeners os t m = Some (remove_unused ports m1, t')"
    using scan(1) by (simp add: reload_listeners_def rows_def m0_def Let_def)
  ultimately show ?thesis using scan(2) rows(2) by auto
qed

theorem reload_ends_witness:
  "\<exists>m' t'. reload_listeners \<lparr>sys_socket = (\<lambda>t. Inr (100 + int t)), sys_setsockopt = (\<lambda>_. None), sys_bind = (\<lambda>_ _ _. None),
        sys_listen = (\<lambda>_. None), sys_getsockname_port = (\<lambda>t. 9000 + int t)\<rparr> 0
      \<lparr>portsocks = [(80, 3)], sockets = [], listeners = [\<lparr>l_id = 1, l_family = PGSQL_AF_INET, l_address = ''127.0.0.1'',
        l_port = Some 80, l_effective_port = Some 80\<rparr>], port_ready = True, worker_reload = False, closed = [], leaked = []\<rparr> =
      Some (m', t') \<and> t' \<le> 3 \<and> hash_find (portsocks m') 80 = Some 3"
  (is "\<exists>m' t'. reload_listeners ?os 0 ?m = _ \<and> _")
proof -
  have "grants_ports ?os"
    by (auto simp: grants_ports_def create_listening_socket_def first_error_def Let_def split: sa_family.splits)
  then show ?thesis using reload_ends[of ?os ?m 0] by (auto simp: MAX_N_FDS_def hash_find_def)
qed

section \<open>Contexts of a worker\<close>

lemma take_master_fd_None: "take_master_fd i fs = None \<longleftrightarrow> i \<notin> master_fd ` set fs"
  by (induction fs) auto

lemma take_master_fd_Some:
  "take_master_fd i fs = Some (f, gs) \<Longrightarrow> distinct (map master_fd fs) \<Longrightarrow>
   f \<in> set fs \<and> master_fd f = i \<and> gs = filter (\<lambda>g. master_fd g \<noteq> i) fs"
proof (induction fs arbitrary: gs)
  case (Cons g fs)
  have "filter (\<lambda>h. master_fd h \<noteq> master_fd g) fs = fs"
    using Cons.prems(2) by (intro filter_True) (auto simp: image_iff)
  then show ?case using Cons by (auto split: if_splits)
qed simp

lemma dispose_contexts_result:
  assumes "distinct (map master_fd fs)" "distinct (map ctx_master_fd cs)" "dispose_contexts cs fs = (kept, new_fds, cl)"
  shows "kept = filter (\<lambda>c. ctx_master_fd c \<in> master_fd ` set fs) cs \<and>
    new_fds = filter (\<lambda>f. master_fd f \<notin> ctx_master_fd ` set cs) fs \<and>
    set cl = fd ` {f \<in> set fs. master_fd f \<in> ctx_master_fd ` set cs} \<union>
      ctx_fd ` {c \<in> set cs. has_socket c \<and> ctx_master_fd c \<notin> master_fd ` set fs}"
  using assms
proof (induction cs arbitrary: fs kept new_fds cl)
  case (Cons c cs)
  show ?case
  proof (cases "take_master_fd (ctx_master_fd c) fs")
    case None
    then have c: "ctx_master_fd c \<notin> master_fd ` set fs" by (simp add: take_master_fd_None)
    have fds: "master_fd f \<in> ctx_master_fd ` set (c # cs) \<longleftrightarrow> master_fd f \<in> ctx_master_fd ` set cs" if "f \<in> set fs" for f
      using imageI[OF that, of master_fd] c by auto
    obtain k n x where d: "dispose_contexts cs fs = (k, n, x)" by (metis prod_cases3)
    have res: "kept = k" "new_fds = n" "cl = (if has_socket c then [ctx_fd c] else []) @ x"
      using Cons.prems(3) None d by simp_all
    have IH: "k = filter (\<lambda>c. ctx_master_fd c \<in> master_fd ` set fs) cs"
      "n = filter (\<lambda>f. master_fd f \<notin> ctx_master_fd ` set cs) fs"
      "set x = fd ` {f \<in> set fs. master_fd f \<in> ctx_master_fd ` set cs} \<union>
        ctx_fd ` {c \<in> set cs. has_socket c \<and> ctx_master_fd c \<notin> master_fd ` set fs}"
      using Cons.IH[OF Cons.prems(1) _ d] Cons.prems(2) by simp_all
    have "set cl = fd ` {f \<in> set fs. master_fd f \<in> ctx_master_fd ` set cs} \<union>
        ctx_fd ` {d \<in> set (c # cs). has_socket d \<and> ctx_master_fd d \<notin> master_fd ` set fs}"
      unfolding res(3) set_append IH(3) using c by auto
    moreover have "{f \<in> set fs. master_fd f \<in> ctx_master_fd ` set (c # cs)} =
        {f \<in> set fs. master_fd f \<in> ctx_master_fd ` set cs}" using fds by blast
    moreover have "new_fds = filter (\<lambda>f. master_fd f \<notin> ctx_master_fd ` set (c # cs)) fs"
      unfolding res(2) IH(2) using fds by (intro filter_cong) blast+
    ultimately show ?thesis using c by (simp add: res(1) IH(1))
  next
    case (Some fg)
    then obtain f where f: "take_master_fd (ctx_master_fd c) fs = Some (f, filter (\<lambda>g. master_fd g \<noteq> ctx_master_fd c) fs)"
      "f \<in> set fs" "master_fd f = ctx_master_fd c"
      using take_master_fd_Some Cons.prems(1) by (cases fg) blast
    define gs where "gs = filter (\<lambda>g. master_fd g \<noteq> ctx_master_fd c) fs"
    obtain k n x where d: "dispose_contexts cs gs = (k, n, x)" by (metis prod_cases3)
    have only: "g = f" if "g \<in> set fs" "master_fd g = ctx_master_fd c" for g
      using that f(2,3) Cons.prems(1) by (auto simp: distinct_map inj_on_def)
    have "distinct (map master_fd gs)" using Cons.prems(1) by (simp add: gs_def distinct_map inj_on_def)
    then have IH: "k = filter (\<lambda>c. ctx_master_fd c \<in> master_fd ` set gs) cs"
      "n = filter (\<lambda>f. master_fd f \<notin> ctx_master_fd ` set cs) gs"
      "set x = fd ` {f \<in> set gs. master_fd f \<in> ctx_master_fd ` set cs} \<union>
        ctx_fd ` {c \<in> set cs. has_socket c \<and> ctx_master_fd c \<notin> master_fd ` set gs}"
      using Cons.IH[OF _ _ d] Cons.prems(2) by simp_all
    have masters: "ctx_master_fd d \<in> master_fd ` set gs \<longleftrightarrow> ctx_master_fd d \<in> master_fd ` set fs" if "d \<in> set cs" for d
    proof -
      have "ctx_master_fd c \<notin> ctx_master_fd ` set cs" using Cons.prems(2) by simp
      then have "ctx_master_fd d \<noteq> ctx_master_fd c" using that by (metis imageI)
      then show ?thesis unfolding image_iff by (simp add: gs_def) metis
    qed
    have gs: "set gs = {g \<in> set fs. master_fd g \<noteq> ctx_master_fd c}" by (auto simp: gs_def)
    have fds: "set fs = insert f (set gs)" unfolding gs using f(2) only by blast
    have n: "n = filter (\<lambda>f. master_fd f \<notin> ctx_master_fd ` set (c # cs)) fs"
      unfolding IH(2) gs_def filter_filter by (rule filter_cong) auto
    have res: "kept = c # k" "new_fds = n" "cl = fd f # x" using Cons.prems(3) f(1) d by (simp_all add: gs_def)
    have "kept = filter (\<lambda>c. ctx_master_fd c \<in> master_fd ` set fs) (c # cs)"
      unfolding res(1) IH(1) using imageI[OF f(2), of master_fd] masters by (simp add: f(3) cong: filter_cong)
    moreover have "{g \<in> set fs. master_fd g \<in> ctx_master_fd ` set (c # cs)} =
        insert f {g \<in> set gs. master_fd g \<in> ctx_master_fd ` set cs}"
      unfolding fds by (auto simp: f(3) gs)
    moreover have "{d \<in> set (c # cs). has_socket d \<and> ctx_master_fd d \<notin> master_fd ` set fs} =
        {d \<in> set cs. has_socket d \<and> ctx_master_fd d \<notin> master_fd ` set gs}"
      using imageI[OF f(2), of master_fd] masters unfolding f(3) by (simp add: conj_disj_distribR cong: conj_cong)
    moreover have "set cl = fd ` insert f {g \<in> set gs. master_fd g \<in> ctx_master_fd ` set cs} \<union>
        ctx_fd ` {d \<in> set cs. has_socket d \<and> ctx_master_fd d \<notin> master_fd ` set gs}"
      unfolding res(3) by (simp only: list.set IH(3) image_insert Un_insert_left)
    ultimately show ?thesis using n res(2) by (simp only:)
  qed
qed simp

lemma set_listener_id_result:
  assumes "distinct (map ctx_master_fd cs)" "i \<in> ctx_master_fd ` set cs"
  shows "set_listener_id x i cs = Some (map (\<lambda>c. if ctx_master_fd c = i then c\<lparr>listener_id := x\<rparr> else c) cs)"
  using assms
proof (induction cs)
  case (Cons c cs)
  show ?case
  proof (cases "ctx_master_fd c = i")
    case True
    then have "ctx_master_fd d \<noteq> i" if "d \<in> set cs" for d using Cons.prems(1) imageI[OF that, of ctx_master_fd] by auto
    then have "map (\<lambda>c. if ctx_master_fd c = i then c\<lparr>listener_id := x\<rparr> else c) cs = cs" by (intro map_idI) simp
    then show ?thesis using True by simp
  next
    case False
    then show ?thesis using Cons by auto
  qed
qed simp

text \<open>The listener ids by socket, for the ids that are left and the sockets from the next index on.\<close>

definition with_ids :: "(int \<rightharpoonup> int) \<Rightarrow> listener_ctx list \<Rightarrow> listener_ctx list" where
  "with_ids ids cs = map (\<lambda>c. case ids (ctx_master_fd c) of Some i \<Rightarrow> c\<lparr>listener_id := i\<rparr> | None \<Rightarrow> c) cs"

lemma with_ids_step:
  "m j = None \<Longrightarrow> with_ids m (map (\<lambda>c. if ctx_master_fd c = j then c\<lparr>listener_id := x\<rparr> else c) cs) = with_ids (m(j \<mapsto> x)) cs"
  by (auto simp: with_ids_def split: option.splits)

lemma master_fds_set_id: "map ctx_master_fd (map (\<lambda>c. if ctx_master_fd c = j then c\<lparr>listener_id := x\<rparr> else c) cs) = map ctx_master_fd cs"
  by simp

lemma assign_listeners_result:
  assumes "distinct (map ctx_master_fd cs)" "master_fd ` set fds \<subseteq> ctx_master_fd ` set cs" "distinct (map master_fd fds)"
    "distinct (last_id # ids)" "k + length ids \<le> length fds"
  shows "assign_listeners fds ids last_id (int k - 1) cs = Inr (with_ids (map_of (zip (map master_fd (drop k fds)) ids)) cs)"
  using assms
proof (induction ids arbitrary: k last_id cs)
  case Nil
  then show ?case by (simp add: with_ids_def)
next
  case (Cons i ids)
  let ?cs = "map (\<lambda>c. if ctx_master_fd c = master_fd (fds ! k) then c\<lparr>listener_id := i\<rparr> else c) cs"
  have k: "k < length fds" using Cons.prems(5) by simp
  then have drop: "drop k fds = fds ! k # drop (Suc k) fds" by (simp add: Cons_nth_drop_Suc)
  have "master_fd (fds ! k) \<in> ctx_master_fd ` set cs" using Cons.prems(2) k by (meson image_subset_iff nth_mem)
  then have set: "set_listener_id i (master_fd (fds ! k)) cs = Some ?cs"
    using set_listener_id_result[OF Cons.prems(1)] by simp
  have masters: "map ctx_master_fd ?cs = map ctx_master_fd cs" by (rule master_fds_set_id)
  have "distinct (map ctx_master_fd ?cs)" unfolding masters by (rule Cons.prems(1))
  moreover have "master_fd ` set fds \<subseteq> ctx_master_fd ` set ?cs"
    using Cons.prems(2) masters by (metis list.set_map)
  ultimately have IH: "assign_listeners fds ids i (int (Suc k) - 1) ?cs =
      Inr (with_ids (map_of (zip (map master_fd (drop (Suc k) fds)) ids)) ?cs)"
    using Cons.prems(3-5) by (intro Cons.IH) simp_all
  have "distinct (map master_fd (drop k fds))" using Cons.prems(3) by (metis distinct_drop drop_map)
  then have "map_of (zip (map master_fd (drop (Suc k) fds)) ids) (master_fd (fds ! k)) = None"
    unfolding drop map_of_eq_None_iff by (auto dest!: set_zip_leftD)
  then have "with_ids (map_of (zip (map master_fd (drop (Suc k) fds)) ids)) ?cs =
      with_ids (map_of (zip (map master_fd (drop k fds)) (i # ids))) cs"
    by (simp add: with_ids_step drop)
  then show ?case using Cons.prems(4) set IH k by (simp add: Let_def)
qed

text \<open>With fewer sockets than listeners, some index is past the end.\<close>

lemma assign_listeners_short:
  assumes "distinct (last_id # ids)" "length fds < k + length ids"
  shows "\<exists>what. assign_listeners fds ids last_id (int k - 1) cs = Inl (Crash what) \<or> ids = []"
  using assms
proof (induction ids arbitrary: k last_id cs)
  case (Cons i ids)
  show ?case
  proof (cases "k < length fds \<and> set_listener_id i (master_fd (fds ! k)) cs \<noteq> None")
    case True
    then obtain cs' where cs': "set_listener_id i (master_fd (fds ! k)) cs = Some cs'" by auto
    have "ids \<noteq> []" using True Cons.prems(2) by auto
    moreover have "\<exists>what. assign_listeners fds ids i (int (Suc k) - 1) cs' = Inl (Crash what) \<or> ids = []"
      using Cons.prems by (intro Cons.IH) simp_all
    ultimately show ?thesis using True cs' Cons.prems(1) by (simp add: Let_def)
  next
    case False
    then show ?thesis using Cons.prems(1) by (auto simp: Let_def)
  qed
qed simp

lemma with_ids_masters [simp]: "map ctx_master_fd (with_ids m cs) = map ctx_master_fd cs"
  by (auto simp: with_ids_def split: option.splits)

lemma with_ids_pairs:
  assumes "\<And>c. c \<in> set cs \<Longrightarrow> m (ctx_master_fd c) \<noteq> None"
  shows "(\<lambda>c. (ctx_master_fd c, listener_id c)) ` set (with_ids m cs) = {(j, i). j \<in> ctx_master_fd ` set cs \<and> m j = Some i}"
proof -
  have "(\<lambda>c. (ctx_master_fd c, listener_id c)) ` set (with_ids m cs) = (\<lambda>c. (ctx_master_fd c, the (m (ctx_master_fd c)))) ` set cs"
    unfolding with_ids_def set_map image_image
  proof (rule image_cong[OF refl])
    fix c
    assume "c \<in> set cs"
    then obtain i where "m (ctx_master_fd c) = Some i" using assms by blast
    then show "(ctx_master_fd (case m (ctx_master_fd c) of None \<Rightarrow> c | Some i \<Rightarrow> c\<lparr>listener_id := i\<rparr>),
        listener_id (case m (ctx_master_fd c) of None \<Rightarrow> c | Some i \<Rightarrow> c\<lparr>listener_id := i\<rparr>)) =
        (ctx_master_fd c, the (m (ctx_master_fd c)))" by simp
  qed
  also have "\<dots> = {(j, i). j \<in> ctx_master_fd ` set cs \<and> m j = Some i}"
  proof (rule set_eqI, clarify)
    fix j i
    show "(j, i) \<in> (\<lambda>c. (ctx_master_fd c, the (m (ctx_master_fd c)))) ` set cs \<longleftrightarrow>
        (j, i) \<in> {(j, i). j \<in> ctx_master_fd ` set cs \<and> m j = Some i}"
      unfolding image_iff using assms by (simp, metis option.collapse option.sel)
  qed
  finally show ?thesis .
qed

lemma with_ids_zip:
  assumes "distinct (map master_fd fds)" "length ids = length fds" "ctx_master_fd ` set cs = master_fd ` set fds"
  shows "(\<lambda>c. (ctx_master_fd c, listener_id c)) ` set (with_ids (map_of (zip (map master_fd fds) ids)) cs) =
    set (zip (map master_fd fds) ids)"
proof -
  define m where "m = map_of (zip (map master_fd fds) ids)"
  have dom: "dom m = master_fd ` set fds" using assms(2) by (simp add: m_def dom_map_of_zip)
  have "(\<lambda>c. (ctx_master_fd c, listener_id c)) ` set (with_ids m cs) = {(j, i). m j = Some i}"
  proof -
    have "m (ctx_master_fd c) \<noteq> None" if "c \<in> set cs" for c
      using imageI[OF that, of ctx_master_fd] unfolding assms(3) dom[symmetric] by (simp add: domIff)
    then have "(\<lambda>c. (ctx_master_fd c, listener_id c)) ` set (with_ids m cs) = {(j, i). j \<in> dom m \<and> m j = Some i}"
      unfolding dom assms(3)[symmetric] by (rule with_ids_pairs)
    moreover have "{(j, i). j \<in> dom m \<and> m j = Some i} = {(j, i). m j = Some i}" by (auto simp: dom_def)
    ultimately show ?thesis by simp
  qed
  also have "\<dots> = set (zip (map master_fd fds) ids)"
  proof (rule set_eqI, clarify)
    fix j i
    have "distinct (map fst (zip (map master_fd fds) ids))" using assms(1,2) by simp
    then show "(j, i) \<in> {(j, i). m j = Some i} \<longleftrightarrow> (j, i) \<in> set (zip (map master_fd fds) ids)"
      unfolding m_def by (simp only: map_of_eq_Some_iff mem_Collect_eq prod.case)
  qed
  finally show ?thesis unfolding m_def .
qed

lemma reload_worker_result:
  assumes "fds \<noteq> []" "distinct (map master_fd fds)" "distinct (map ctx_master_fd ctxs)" "length ids = length fds"
    "distinct ids" "0 \<notin> set ids"
  defines "cs \<equiv> filter (\<lambda>c. ctx_master_fd c \<in> master_fd ` set fds) ctxs @
      map create_listener (filter (\<lambda>f. master_fd f \<notin> ctx_master_fd ` set ctxs) fds)"
  shows "\<exists>cl. reload_worker ids fds ctxs = Inr (with_ids (map_of (zip (map master_fd fds) ids)) cs, cl) \<and>
      set cl = fd ` {f \<in> set fds. master_fd f \<in> ctx_master_fd ` set ctxs} \<union>
        ctx_fd ` {c \<in> set ctxs. has_socket c \<and> ctx_master_fd c \<notin> master_fd ` set fds} \<and>
      distinct (map ctx_master_fd cs) \<and> ctx_master_fd ` set cs = master_fd ` set fds"
proof -
  obtain kept new_fds cl where d: "dispose_contexts ctxs fds = (kept, new_fds, cl)" by (metis prod_cases3)
  note r = dispose_contexts_result[OF assms(2,3) d]
  have masters: "map ctx_master_fd cs = filter (\<lambda>j. j \<in> master_fd ` set fds) (map ctx_master_fd ctxs) @
      filter (\<lambda>j. j \<notin> ctx_master_fd ` set ctxs) (map master_fd fds)"
    by (simp add: cs_def filter_map comp_def create_listener_def)
  have dist: "distinct (map ctx_master_fd cs)" unfolding masters using assms(2,3) by auto
  have "ctx_master_fd ` set cs = set (map ctx_master_fd cs)" by simp
  also have "\<dots> = master_fd ` set fds" unfolding masters by auto
  finally have set: "ctx_master_fd ` set cs = master_fd ` set fds" .
  have "assign_listeners fds ids 0 (int 0 - 1) cs = Inr (with_ids (map_of (zip (map master_fd (drop 0 fds)) ids)) cs)"
    using dist set assms(2,4-6) by (intro assign_listeners_result) simp_all
  then have "reload_worker ids fds ctxs = Inr (with_ids (map_of (zip (map master_fd fds) ids)) cs, cl)"
    using assms(1) d r by (simp add: reload_worker_def cs_def)
  then show ?thesis using r dist set by blast
qed

text \<open>
  C16: If every listener has a socket of its own, a worker has one context for each socket after a reload, with the id of the listener
  at the same position.  Contexts of sockets that are still served keep their descriptor; every other descriptor,
  received again or of a socket no longer served, is closed.
\<close>

theorem contexts_match_listeners:
  assumes "fds \<noteq> []" "distinct (map master_fd fds)" "distinct (map ctx_master_fd ctxs)" "length ids = length fds"
    "distinct ids" "0 \<notin> set ids"
  shows "\<exists>ctxs' cl. reload_worker ids fds ctxs = Inr (ctxs', cl) \<and> distinct (map ctx_master_fd ctxs') \<and>
    (\<lambda>c. (ctx_master_fd c, listener_id c)) ` set ctxs' = set (zip (map master_fd fds) ids) \<and>
    (\<forall>c\<in>set ctxs'. (\<exists>d\<in>set ctxs. ctx_master_fd c = ctx_master_fd d \<and> ctx_fd c = ctx_fd d) \<or>
       (\<exists>f\<in>set fds. ctx_master_fd c = master_fd f \<and> ctx_fd c = fd f \<and> master_fd f \<notin> ctx_master_fd ` set ctxs)) \<and>
    set cl = fd ` {f \<in> set fds. master_fd f \<in> ctx_master_fd ` set ctxs} \<union>
      ctx_fd ` {c \<in> set ctxs. has_socket c \<and> ctx_master_fd c \<notin> master_fd ` set fds}"
proof -
  define cs where "cs = filter (\<lambda>c. ctx_master_fd c \<in> master_fd ` set fds) ctxs @
      map create_listener (filter (\<lambda>f. master_fd f \<notin> ctx_master_fd ` set ctxs) fds)"
  define m where "m = map_of (zip (map master_fd fds) ids)"
  obtain cl where r: "reload_worker ids fds ctxs = Inr (with_ids m cs, cl)" "distinct (map ctx_master_fd cs)"
    "ctx_master_fd ` set cs = master_fd ` set fds"
    "set cl = fd ` {f \<in> set fds. master_fd f \<in> ctx_master_fd ` set ctxs} \<union>
        ctx_fd ` {c \<in> set ctxs. has_socket c \<and> ctx_master_fd c \<notin> master_fd ` set fds}"
    using reload_worker_result[OF assms] unfolding m_def[symmetric] cs_def[symmetric] by (elim exE conjE)
  have pairs: "(\<lambda>c. (ctx_master_fd c, listener_id c)) ` set (with_ids m cs) = set (zip (map master_fd fds) ids)"
    unfolding m_def by (rule with_ids_zip[OF assms(2,4) r(3)])
  have "(\<exists>d\<in>set ctxs. ctx_master_fd c = ctx_master_fd d \<and> ctx_fd c = ctx_fd d) \<or>
       (\<exists>f\<in>set fds. ctx_master_fd c = master_fd f \<and> ctx_fd c = fd f \<and> master_fd f \<notin> ctx_master_fd ` set ctxs)"
    if c: "c \<in> set (with_ids m cs)" for c
  proof -
    obtain d where "d \<in> set cs" "ctx_master_fd c = ctx_master_fd d" "ctx_fd c = ctx_fd d"
      using c by (auto simp: with_ids_def split: option.splits)
    moreover have "d \<in> set ctxs \<or> (\<exists>f\<in>set fds. d = create_listener f \<and> master_fd f \<notin> ctx_master_fd ` set ctxs)"
      using \<open>d \<in> set cs\<close> by (auto simp: cs_def)
    moreover have "ctx_master_fd (create_listener f) = master_fd f" "ctx_fd (create_listener f) = fd f" for f
      by (simp_all add: create_listener_def)
    ultimately show ?thesis by metis
  qed
  then show ?thesis
    by (intro exI[of _ "with_ids m cs"] exI[of _ cl] conjI ballI pairs r(1,4)) (simp_all add: r(2))
qed

theorem contexts_match_listeners_witness:
  "\<exists>ctxs' cl. reload_worker [1, 2] [\<lparr>fd = 15, master_fd = 5\<rparr>, \<lparr>fd = 16, master_fd = 6\<rparr>]
      [\<lparr>listener_id = 1, has_socket = True, ctx_fd = 3, ctx_master_fd = 6\<rparr>,
       \<lparr>listener_id = 4, has_socket = True, ctx_fd = 4, ctx_master_fd = 7\<rparr>] = Inr (ctxs', cl) \<and>
     (\<lambda>c. (ctx_master_fd c, listener_id c)) ` set ctxs' = {(5, 1), (6, 2)} \<and> set cl = {16, 4}"
  (is "\<exists>ctxs' cl. reload_worker ?ids ?fds ?ctxs = _ \<and> _")
proof -
  have "fd ` {f \<in> set ?fds. master_fd f \<in> ctx_master_fd ` set ?ctxs} \<union>
      ctx_fd ` {c \<in> set ?ctxs. has_socket c \<and> ctx_master_fd c \<notin> master_fd ` set ?fds} = {16, 4}"
    unfolding set_filter[symmetric] by auto
  then show ?thesis using contexts_match_listeners[of ?fds ?ctxs ?ids] by auto
qed

text \<open>
  If a listener has no socket, because the master worker could not create one, the number of sockets is smaller than the number
  of listeners, and the worker reads past the end of the array of sockets.
\<close>

theorem missing_socket_crashes:
  assumes "fds \<noteq> []" "length fds < length ids" "distinct ids" "0 \<notin> set ids"
  shows "\<exists>what. reload_worker ids fds ctxs = Inl (Crash what)"
proof -
  obtain kept new_fds cl where d: "dispose_contexts ctxs fds = (kept, new_fds, cl)" by (metis prod_cases3)
  have "ids \<noteq> []" using assms(2) by auto
  then show ?thesis
    using assign_listeners_short[of 0 ids fds 0 "kept @ map create_listener new_fds"] assms d
    by (auto simp: reload_worker_def)
qed

theorem missing_socket_crashes_witness: "\<exists>what. reload_worker [1, 2] [\<lparr>fd = 15, master_fd = 5\<rparr>] [] = Inl (Crash what)"
  by (rule missing_socket_crashes) simp_all

end
