(* ===== verification/Omni_Httpd_Routes.thy ===== *)
theory Omni_Httpd_Routes
  imports Omni_Cstring "HOL-Library.Multiset"
begin

text \<open>
  Routing of requests in \<open>omni_httpd\<close>: \<open>urlpattern.cpp\<close>, \<open>prepare_routers\<close> and the loop over the routes in \<open>handler\<close>
  (\<open>http_worker.c\<close>).

  Router tables, the catalog of functions and the functions called are arguments, as are the parser of URL patterns and
  \<open>qsort\<close>, of which only what is documented is used: it gives some sorted permutation.
\<close>

section \<open>URL patterns\<close>

record omni_httpd_urlpattern =
  p_protocol :: "string option"
  p_username :: "string option"
  p_password :: "string option"
  p_hostname :: "string option"
  p_port :: int
  p_pathname :: "string option"
  p_search :: "string option"
  p_hash :: "string option"

record url_pattern_init =
  i_protocol :: "string option"
  i_username :: "string option"
  i_password :: "string option"
  i_hostname :: "string option"
  i_port :: "string option"
  i_pathname :: "string option"
  i_search :: "string option"
  i_hash :: "string option"

definition pattern_init :: "omni_httpd_urlpattern \<Rightarrow> url_pattern_init" where
  "pattern_init pat =
     \<lparr>i_protocol = p_protocol pat, i_username = p_username pat, i_password = p_password pat,
      i_hostname = p_hostname pat, i_port = (if p_port pat = 0 then None else Some (show_int (p_port pat))),
      i_pathname = p_pathname pat, i_search = p_search pat, i_hash = p_hash pat\<rparr>"

text \<open>The library that parses and matches patterns.  A pattern that it refuses, or that raises an exception, gives \<open>None\<close>.\<close>

record 'p pattern_library =
  parse_url_pattern :: "url_pattern_init \<Rightarrow> 'p option"
  match_parsed :: "'p \<Rightarrow> string \<Rightarrow> bool"

type_synonym 'p pattern_cache = "(url_pattern_init, 'p) htab"

definition matches :: "'p pattern_library \<Rightarrow> url_pattern_init \<Rightarrow> string \<Rightarrow> 'p pattern_cache \<Rightarrow> bool \<times> 'p pattern_cache" where
  "matches lib pattern input cache =
     (case hash_find cache pattern of
        Some p \<Rightarrow> (match_parsed lib p input, cache)
      | None \<Rightarrow>
          (case parse_url_pattern lib pattern of
             None \<Rightarrow> (False, cache)
           | Some p \<Rightarrow> (match_parsed lib p input, hash_enter pattern p cache)))"

definition match_urlpattern ::
  "'p pattern_library \<Rightarrow> omni_httpd_urlpattern \<Rightarrow> string \<Rightarrow> 'p pattern_cache \<Rightarrow> bool \<times> 'p pattern_cache" where
  "match_urlpattern lib pat input cache = matches lib (pattern_init pat) input cache"

section \<open>Routers\<close>

record pg_proc =
  proc_oid :: Oid
  prorettype :: Oid
  pronargs :: nat
  is_procedure :: bool
  argtypes :: "Oid list"
  argmodes :: "char list option"

text \<open>
  A column of a router table: a pattern has the method as its last attribute, \<open>InvalidOid\<close> if it is null.
\<close>

datatype route_col =
    ColNull
  | ColPattern omni_httpd_urlpattern Oid
  | ColProc Oid
  | ColPriority int
  | ColOther Datum

record route_row =
  row_tuple :: Datum
  row_role :: "Oid option"
  row_cols :: "route_col list"

record router_table =
  reltype :: Oid
  col_types :: "Oid list"
  table_rows :: "route_row list"

record catalog =
  tables :: "Oid \<Rightarrow> router_table option"
  procs :: "Oid \<Rightarrow> pg_proc option"
  http_request_oid :: Oid
  http_outcome_oid :: Oid
  urlpattern_oid :: Oid
  route_priority_oid :: Oid
  INT4OID :: Oid
  REGPROCEDUREOID :: Oid
  RECORDOID :: Oid

text \<open>
  A row of the view \<open>available_routers\<close>.  The name of the handler column is part of the query text only, which is left out:
  the rows of a table are those that the query returns, with the role of the handler.
\<close>

record available_router =
  router_relation :: "Oid option"
  match_col_idx :: "int option"
  handler_col_idx :: "int option"
  priority_col_idx :: "int option"

record Route =
  match :: omni_httpd_urlpattern
  route_method :: Oid
  priority :: int
  tuple_index :: int
  http_outcome_index :: int
  http_request_index :: int
  listener_index :: int
  is_handler :: bool
  returns_outcome :: bool
  route_tuple :: Datum
  proc :: pg_proc
  role :: Oid

definition RouteCompare :: "Route \<Rightarrow> Route \<Rightarrow> int" where
  "RouteCompare r1 r2 =
     (let ia = priority r1; ib = priority r2 in (if ib > ia then 1 else 0) - (if ib < ia then 1 else 0))"

text \<open>The arguments of the function, each with its mode if any argument has one.\<close>

definition scan_arg :: "catalog \<Rightarrow> Oid \<Rightarrow> Oid \<Rightarrow> char option \<Rightarrow> int \<Rightarrow> Route \<Rightarrow> Route" where
  "scan_arg cat tabtypoid ty mode argpos r =
     (if ty = tabtypoid then r\<lparr>tuple_index := argpos\<rparr>
      else if ty = http_request_oid cat then r\<lparr>http_request_index := argpos\<rparr>
      else if ty = http_outcome_oid cat \<and> mode \<noteq> None then
        let r1 = (if mode = Some CHR ''b'' then r\<lparr>http_outcome_index := argpos, is_handler := False\<rparr> else r) in
        (if mode \<noteq> Some CHR ''i'' then r1\<lparr>returns_outcome := True\<rparr> else r1)
      else if ty = INT4OID cat then r\<lparr>listener_index := argpos\<rparr>
      else r)"

fun scan_args :: "catalog \<Rightarrow> Oid \<Rightarrow> (Oid \<times> char option) list \<Rightarrow> int \<Rightarrow> Route \<Rightarrow> Route" where
  "scan_args cat tabtypoid [] argpos r = r"
| "scan_args cat tabtypoid ((ty, mode) # args) argpos r =
     scan_args cat tabtypoid args (if mode \<noteq> Some CHR ''o'' then argpos + 1 else argpos)
       (scan_arg cat tabtypoid ty mode argpos r)"

definition all_args :: "pg_proc \<Rightarrow> (Oid \<times> char option) list" where
  "all_args p = (case argmodes p of None \<Rightarrow> map (\<lambda>t. (t, None)) (argtypes p) | Some ms \<Rightarrow> zip (argtypes p) (map Some ms))"

definition column_type :: "router_table \<Rightarrow> int \<Rightarrow> Oid" where
  "column_type t i = (if 1 \<le> i \<and> i \<le> int (length (col_types t)) then col_types t ! nat (i - 1) else InvalidOid)"

definition column :: "route_row \<Rightarrow> int \<Rightarrow> route_col" where
  "column row i = (if 1 \<le> i \<and> i \<le> int (length (row_cols row)) then row_cols row ! nat (i - 1) else ColNull)"

definition make_route :: "catalog \<Rightarrow> Oid \<Rightarrow> int \<Rightarrow> int \<Rightarrow> int option \<Rightarrow> route_row \<Rightarrow> Route option" where
  "make_route cat tabtypoid match_index handler_index priority_index row =
     (case (column row match_index, column row handler_index) of
        (ColPattern pat m, ColProc h) \<Rightarrow>
          (case procs cat h of
             None \<Rightarrow> None
           | Some p \<Rightarrow>
               Some (scan_args cat tabtypoid (all_args p) 0
                 \<lparr>match = pat, route_method = m,
                  priority = (case priority_index of
                                None \<Rightarrow> 0
                              | Some i \<Rightarrow> (case column row i of ColPriority n \<Rightarrow> n | _ \<Rightarrow> 0)),
                  tuple_index = -1, http_outcome_index = -1, http_request_index = -1, listener_index = -1,
                  is_handler = True, returns_outcome = (prorettype p = http_outcome_oid cat),
                  route_tuple = row_tuple row, proc = p,
                  role = (case row_role row of Some x \<Rightarrow> x | None \<Rightarrow> InvalidOid)\<rparr>))
      | _ \<Rightarrow> None)"

definition router_routes :: "catalog \<Rightarrow> available_router \<Rightarrow> Route list outcome" where
  "router_routes cat a =
     (case (router_relation a, match_col_idx a, handler_col_idx a) of
        (Some oid, Some match_index, Some handler_index) \<Rightarrow>
          (case tables cat oid of
             None \<Rightarrow> Inl (Crash ''no such relation'')
           | Some t \<Rightarrow>
               if column_type t match_index \<noteq> urlpattern_oid cat \<or> column_type t handler_index \<noteq> REGPROCEDUREOID cat \<or>
                  (case priority_col_idx a of
                     Some i \<Rightarrow> i > 0 \<and> column_type t i \<noteq> route_priority_oid cat
                   | None \<Rightarrow> False)
               then Inr []
               else Inr (List.map_filter (make_route cat (reltype t) match_index handler_index (priority_col_idx a)) (table_rows t)))
      | _ \<Rightarrow> Inr [])"

text \<open>
  The routes of the worker.  If the list of routers cannot be retrieved, the memory of the routes has already been freed, but the
  pointer and their number are kept.
\<close>

datatype worker_routes =
    Routes "Route list"
  | Freed

definition prepare_routers ::
  "(Route list \<Rightarrow> Route list) \<Rightarrow> catalog \<Rightarrow> available_router list option \<Rightarrow> worker_routes \<Rightarrow> worker_routes outcome" where
  "prepare_routers qsort cat available old =
     (case available of
        None \<Rightarrow> Inr (if old = Routes [] then old else Freed)
      | Some as \<Rightarrow> bind_outcome (mapM_outcome (router_routes cat) as) (\<lambda>rss. Inr (Routes (qsort (concat rss)))))"

section \<open>The loop over the routes\<close>

datatype 'd route_arg =
    NullArg
  | ListenerArg int
  | RequestArg
  | OutcomeArg 'd
  | TupleArg Datum

definition set_arg :: "int \<Rightarrow> 'd route_arg \<Rightarrow> 'd route_arg list \<Rightarrow> 'd route_arg list" where
  "set_arg i x args = (if i \<ge> 0 then args[nat i := x] else args)"

text \<open>
  The arguments of a call.  The array has room for more arguments than a function can have, so that writing after the last one has no effect.
\<close>

definition call_args :: "Route \<Rightarrow> int \<Rightarrow> 'd option \<Rightarrow> 'd route_arg list" where
  "call_args r listener_id outcome =
     set_arg (tuple_index r) (TupleArg (route_tuple r))
       (set_arg (http_outcome_index r) (case outcome of None \<Rightarrow> NullArg | Some d \<Rightarrow> OutcomeArg d)
         (set_arg (http_request_index r) RequestArg
           (set_arg (listener_index r) (ListenerArg listener_id) (replicate (pronargs (proc r)) NullArg))))"

text \<open>What the \<open>k\<close>th call does: raise an error, or return a value and say whether no other route should be tried.\<close>

datatype 'd call_result =
    Raised string
  | Returned "'d option" bool

record ('d, 'p) route_env =
  cat :: catalog
  lib :: "'p pattern_library"
  invoke :: "nat \<Rightarrow> Route \<Rightarrow> 'd route_arg list \<Rightarrow> Oid \<Rightarrow> 'd call_result"
  first_attribute :: "'d \<Rightarrow> 'd option"

record request =
  req_method :: Oid
  req_scheme :: string
  req_authority :: string
  req_path :: string
  req_listener :: int

record ('d, 'p) loop_state =
  handler_invoked :: bool
  outcome :: "'d option"
  user_id :: Oid
  cache :: "'p pattern_cache"
  calls :: "(Route \<times> 'd route_arg list \<times> Oid) list"

definition request_url :: "request \<Rightarrow> string" where
  "request_url req = req_scheme req @ ''://'' @ req_authority req @ req_path req"

definition call_outcome :: "('d, 'p) route_env \<Rightarrow> Route \<Rightarrow> 'd option \<Rightarrow> 'd option" where
  "call_outcome env r result =
     (if returns_outcome r then
        (case result of
           None \<Rightarrow> None
         | Some d \<Rightarrow>
             if prorettype (proc r) = http_outcome_oid (cat env) then Some d
             else if prorettype (proc r) = RECORDOID (cat env) then first_attribute env d
             else None)
      else None)"

fun route_loop ::
  "('d, 'p) route_env \<Rightarrow> request \<Rightarrow> Route list \<Rightarrow> ('d, 'p) loop_state \<Rightarrow> string option \<times> ('d, 'p) loop_state" where
  "route_loop env req [] st = (None, st)"
| "route_loop env req (r # rs) st =
     (if is_handler r \<and> handler_invoked st then route_loop env req rs st
      else if route_method r \<noteq> InvalidOid \<and> route_method r \<noteq> req_method req then route_loop env req rs st
      else
        (case match_urlpattern (lib env) (match r) (request_url req) (cache st) of
           (matched, cache') \<Rightarrow>
             let st1 = st\<lparr>cache := cache'\<rparr> in
             if \<not> matched then route_loop env req rs st1
             else
               let user = (if role r \<noteq> InvalidOid then role r else user_id st1);
                   args = call_args r (req_listener req) (outcome st1);
                   st2 = st1\<lparr>user_id := user, calls := calls st1 @ [(r, args, user)]\<rparr> in
               (case invoke env (length (calls st1)) r args user of
                  Raised e \<Rightarrow> (Some e, st2)
                | Returned result stop \<Rightarrow>
                    let st3 = st2\<lparr>outcome := call_outcome env r result\<rparr> in
                    if stop then (None, st3)
                    else route_loop env req rs (if is_handler r then st3\<lparr>handler_invoked := True\<rparr> else st3))))"

definition handle_routes ::
  "(Route list \<Rightarrow> Route list) \<Rightarrow> ('d, 'p) route_env \<Rightarrow> available_router list option \<Rightarrow> worker_routes \<Rightarrow> request \<Rightarrow>
   Oid \<Rightarrow> 'p pattern_cache \<Rightarrow> (string option \<times> ('d, 'p) loop_state) outcome" where
  "handle_routes qsort env available old req user c =
     bind_outcome (prepare_routers qsort (cat env) available old) (\<lambda>rs.
       case rs of
         Freed \<Rightarrow> Inl (Crash ''routes used after they were freed'')
       | Routes rs \<Rightarrow>
           Inr (route_loop env req rs
             \<lparr>handler_invoked = False, outcome = None, user_id = user, cache = c, calls = []\<rparr>))"

section \<open>An example\<close>

text \<open>A router table with two handlers, and routes of a middleware with a role and one without.\<close>

definition any_pattern :: omni_httpd_urlpattern where
  "any_pattern = \<lparr>p_protocol = None, p_username = None, p_password = None, p_hostname = None, p_port = 0,
     p_pathname = None, p_search = None, p_hash = None\<rparr>"

definition example_proc :: pg_proc where
  "example_proc = \<lparr>proc_oid = 50, prorettype = 11, pronargs = 2, is_procedure = False, argtypes = [10, 99], argmodes = None\<rparr>"

definition example_table :: router_table where
  "example_table = \<lparr>reltype = 99, col_types = [12, 14, 13], table_rows =
     [\<lparr>row_tuple = DWord 1, row_role = None, row_cols = [ColPattern any_pattern 0, ColProc 50, ColPriority 1]\<rparr>,
      \<lparr>row_tuple = DWord 2, row_role = None, row_cols = [ColPattern any_pattern 0, ColProc 50, ColPriority 5]\<rparr>]\<rparr>"

definition example_catalog :: catalog where
  "example_catalog = \<lparr>tables = (\<lambda>i. if i = 1 then Some example_table else None),
     procs = (\<lambda>i. if i = 50 then Some example_proc else None),
     http_request_oid = 10, http_outcome_oid = 11, urlpattern_oid = 12, route_priority_oid = 13, INT4OID = 23,
     REGPROCEDUREOID = 14, RECORDOID = 15\<rparr>"

definition example_route :: "int \<Rightarrow> bool \<Rightarrow> Oid \<Rightarrow> Route" where
  "example_route prio h x = \<lparr>match = any_pattern, route_method = 0, priority = prio, tuple_index = 1, http_outcome_index = -1,
     http_request_index = 0, listener_index = -1, is_handler = h, returns_outcome = h, route_tuple = DWord (word_of_int (if prio = 5 then 2 else 1)),
     proc = example_proc, role = x\<rparr>"

definition example_env :: "(nat, unit) route_env" where
  "example_env = \<lparr>cat = example_catalog, lib = \<lparr>parse_url_pattern = (\<lambda>_. Some ()), match_parsed = (\<lambda>_ _. True)\<rparr>,
     invoke = (\<lambda>_ _ _ _. Returned (Some 7) False), first_attribute = (\<lambda>_. None)\<rparr>"

definition example_request :: request where
  "example_request = \<lparr>req_method = 3, req_scheme = ''http'', req_authority = ''localhost'', req_path = ''/'', req_listener = 1\<rparr>"

definition example_router :: available_router where
  "example_router = \<lparr>router_relation = Some 1, match_col_idx = Some 1, handler_col_idx = Some 2, priority_col_idx = Some 3\<rparr>"

abbreviation loop_start :: "Oid \<Rightarrow> (nat, unit) loop_state" where
  "loop_start u \<equiv> \<lparr>handler_invoked = False, outcome = None, user_id = u, cache = [], calls = []\<rparr>"

section \<open>One route\<close>

definition called :: "'p pattern_cache \<Rightarrow> Route \<Rightarrow> 'd route_arg list \<Rightarrow> Oid \<Rightarrow> ('d, 'p) loop_state \<Rightarrow> ('d, 'p) loop_state" where
  "called c r args user st = st\<lparr>cache := c, user_id := user, calls := calls st @ [(r, args, user)]\<rparr>"

definition answered :: "('d, 'p) route_env \<Rightarrow> Route \<Rightarrow> 'd option \<Rightarrow> ('d, 'p) loop_state \<Rightarrow> ('d, 'p) loop_state" where
  "answered env r d st = st\<lparr>outcome := call_outcome env r d\<rparr>"

definition handled :: "Route \<Rightarrow> ('d, 'p) loop_state \<Rightarrow> ('d, 'p) loop_state" where
  "handled r st = (if is_handler r then st\<lparr>handler_invoked := True\<rparr> else st)"

lemma loop_state_simps [simp]:
  "calls (called c r args u st) = calls st @ [(r, args, u)]" "user_id (called c r args u st) = u" "cache (called c r args u st) = c"
  "handler_invoked (called c r args u st) = handler_invoked st"
  "calls (answered env r d st) = calls st" "user_id (answered env r d st) = user_id st" "cache (answered env r d st) = cache st"
  "outcome (answered env r d st) = call_outcome env r d" "handler_invoked (answered env r d st) = handler_invoked st"
  "calls (handled r st) = calls st" "user_id (handled r st) = user_id st" "cache (handled r st) = cache st"
  "outcome (handled r st) = outcome st" "handler_invoked (handled r st) = (handler_invoked st \<or> is_handler r)"
  by (simp_all add: called_def answered_def handled_def)

lemma route_loop_Cons:
  assumes "match_urlpattern (lib env) (match r) (request_url req) (cache st) = (b, c)"
    "user = (if role r \<noteq> InvalidOid then role r else user_id st)" "args = call_args r (req_listener req) (outcome st)"
  shows "route_loop env req (r # rs) st =
    (if is_handler r \<and> handler_invoked st \<or> route_method r \<noteq> InvalidOid \<and> route_method r \<noteq> req_method req
     then route_loop env req rs st
     else if \<not> b then route_loop env req rs (st\<lparr>cache := c\<rparr>)
     else case invoke env (length (calls st)) r args user of
       Raised e \<Rightarrow> (Some e, called c r args user st)
     | Returned d stop \<Rightarrow>
         if stop then (None, answered env r d (called c r args user st))
         else route_loop env req rs (handled r (answered env r d (called c r args user st))))"
  using assms by (cases "invoke env (length (calls st)) r args user") (auto simp: called_def answered_def handled_def Let_def)

declare route_loop.simps(2) [simp del]

section \<open>The cache of patterns\<close>

definition cache_ok :: "'p pattern_library \<Rightarrow> 'p pattern_cache \<Rightarrow> bool" where
  "cache_ok l c \<longleftrightarrow> (\<forall>k p. hash_find c k = Some p \<longrightarrow> parse_url_pattern l k = Some p)"

text \<open>What matching means without a cache.\<close>

definition pattern_matches :: "'p pattern_library \<Rightarrow> omni_httpd_urlpattern \<Rightarrow> string \<Rightarrow> bool" where
  "pattern_matches l pat url =
     (case parse_url_pattern l (pattern_init pat) of None \<Rightarrow> False | Some p \<Rightarrow> match_parsed l p url)"

lemma match_urlpattern_cached:
  assumes "cache_ok l c" "match_urlpattern l pat url c = (b, c')"
  shows "b = pattern_matches l pat url \<and> cache_ok l c'"
  using assms
  by (auto simp: match_urlpattern_def matches_def pattern_matches_def cache_ok_def htab_simps split: option.splits if_splits)

section \<open>Which routes are called\<close>

definition eligible :: "('d, 'p) route_env \<Rightarrow> request \<Rightarrow> Route \<Rightarrow> bool" where
  "eligible env req r \<longleftrightarrow>
     (route_method r = InvalidOid \<or> route_method r = req_method req) \<and> pattern_matches (lib env) (match r) (request_url req)"

fun selected :: "('a \<Rightarrow> bool) \<Rightarrow> ('a \<Rightarrow> bool) \<Rightarrow> bool \<Rightarrow> 'a list \<Rightarrow> 'a list" where
  "selected P h used [] = []"
| "selected P h used (r # rs) =
     (if P r \<and> \<not> (h r \<and> used) then r # selected P h (used \<or> h r) rs else selected P h used rs)"

lemma selected_others: "filter (\<lambda>r. \<not> h r) (selected P h used rs) = filter (\<lambda>r. P r \<and> \<not> h r) rs"
  by (induction rs arbitrary: used) auto

lemma selected_handlers:
  "filter h (selected P h used rs) = (if used then [] else take 1 (filter (\<lambda>r. P r \<and> h r) rs))"
  by (induction rs arbitrary: used) auto

lemma set_selected: "set (selected P h used rs) \<subseteq> set rs"
  by (induction rs arbitrary: used) auto

lemma sorted_selected: "sorted_wrt R rs \<Longrightarrow> sorted_wrt R (selected P h used rs)"
proof (induction rs arbitrary: used)
  case (Cons r rs)
  then show ?case using set_selected[of P h _ rs] by auto
qed simp

definition quiet :: "('d, 'p) route_env \<Rightarrow> bool" where
  "quiet env \<longleftrightarrow> (\<forall>k r args u. \<exists>d. invoke env k r args u = Returned d False)"

lemma route_loop_calls:
  assumes "quiet env" "cache_ok (lib env) (cache st)"
  shows "\<exists>st'. route_loop env req rs st = (None, st') \<and> cache_ok (lib env) (cache st') \<and>
    map fst (calls st') = map fst (calls st) @ selected (eligible env req) is_handler (handler_invoked st) rs"
  using assms(2)
proof (induction rs arbitrary: st)
  case (Cons r rs)
  obtain b c where m: "match_urlpattern (lib env) (match r) (request_url req) (cache st) = (b, c)" by fastforce
  have b: "b = pattern_matches (lib env) (match r) (request_url req)" "cache_ok (lib env) c"
    using match_urlpattern_cached[OF Cons.prems m] by simp_all
  note step = route_loop_Cons[OF m refl refl, of rs]
  obtain d where inv: "invoke env (length (calls st)) r (call_args r (req_listener req) (outcome st))
      (if role r \<noteq> InvalidOid then role r else user_id st) = Returned d False"
    using assms(1) unfolding quiet_def by blast
  show ?case
    using Cons.IH[of st] Cons.IH[of "st\<lparr>cache := c\<rparr>"] Cons.IH[of "handled r (answered env r d (called c r _ _ st))"] Cons.prems b inv
    unfolding step by (auto simp: eligible_def)
qed simp

section \<open>Priorities\<close>

definition sorts_routes :: "(Route list \<Rightarrow> Route list) \<Rightarrow> bool" where
  "sorts_routes qsort \<longleftrightarrow>
     (\<forall>rs. mset (qsort rs) = mset rs \<and> sorted_wrt (\<lambda>a b. RouteCompare a b \<le> 0) (qsort rs))"

lemma RouteCompare_le: "RouteCompare a b \<le> 0 \<longleftrightarrow> priority b \<le> priority a"
  by (simp add: RouteCompare_def Let_def)

lemma hd_filter_sorted:
  assumes "sorted_wrt (\<lambda>a b. f b \<le> (f a :: int)) rs" "x \<in> set rs" "P x"
  shows "\<exists>y. take 1 (filter P rs) = [y] \<and> y \<in> set rs \<and> P y \<and> f x \<le> f y"
  using assms
proof (induction rs)
  case (Cons r rs)
  show ?case
  proof (cases "P r")
    case True
    then show ?thesis using Cons.prems by auto
  next
    case False
    then show ?thesis using Cons by auto
  qed
qed simp

text \<open>
  C9: Which functions a request reaches, if none of them raises an error or ends the handling.  All middleware whose method and pattern
  match is called, once; of the handlers that match one with the highest priority is called and no other; calls are made in the
  order of descending priority.  The cache of patterns makes no difference.
\<close>

theorem routing_by_priority:
  assumes "sorts_routes qsort" "quiet env" "cache_ok (lib env) c" "mapM_outcome (router_routes (cat env)) as = Inr rss"
  shows "\<exists>st. handle_routes qsort env (Some as) old req user c = Inr (None, st) \<and>
    sorted_wrt (\<lambda>a b. priority b \<le> priority a) (map fst (calls st)) \<and>
    mset (filter (\<lambda>r. \<not> is_handler r) (map fst (calls st))) =
      mset (filter (\<lambda>r. eligible env req r \<and> \<not> is_handler r) (concat rss)) \<and>
    (case filter is_handler (map fst (calls st)) of
       [] \<Rightarrow> \<not> (\<exists>r\<in>set (concat rss). eligible env req r \<and> is_handler r)
     | [h] \<Rightarrow> h \<in> set (concat rss) \<and> eligible env req h \<and>
         (\<forall>r\<in>set (concat rss). eligible env req r \<longrightarrow> is_handler r \<longrightarrow> priority r \<le> priority h)
     | _ \<Rightarrow> False)"
proof -
  define rs where "rs = qsort (concat rss)"
  have perm: "mset rs = mset (concat rss)" and sorted: "sorted_wrt (\<lambda>a b. priority b \<le> priority a) rs"
    using assms(1) unfolding sorts_routes_def rs_def RouteCompare_le by blast+
  have set: "set rs = set (concat rss)" using perm by (metis mset_eq_setD)
  define st0 where "st0 = \<lparr>handler_invoked = False, outcome = None :: 'a option, user_id = user, cache = c, calls = []\<rparr>"
  obtain st where loop: "route_loop env req rs st0 = (None, st)"
    and called: "map fst (calls st) = selected (eligible env req) is_handler False rs"
    using route_loop_calls[OF assms(2), of st0 req rs] assms(3) by (auto simp: st0_def)
  have "handle_routes qsort env (Some as) old req user c = Inr (None, st)"
    using assms(4) loop by (simp add: handle_routes_def prepare_routers_def rs_def st0_def)
  moreover have "sorted_wrt (\<lambda>a b. priority b \<le> priority a) (map fst (calls st))"
    unfolding called using sorted_selected[OF sorted] .
  moreover have "mset (filter (\<lambda>r. \<not> is_handler r) (map fst (calls st))) =
      mset (filter (\<lambda>r. eligible env req r \<and> \<not> is_handler r) (concat rss))"
    unfolding called selected_others mset_filter perm ..
  moreover have "case filter is_handler (map fst (calls st)) of
       [] \<Rightarrow> \<not> (\<exists>r\<in>set (concat rss). eligible env req r \<and> is_handler r)
     | [h] \<Rightarrow> h \<in> set (concat rss) \<and> eligible env req h \<and>
         (\<forall>r\<in>set (concat rss). eligible env req r \<longrightarrow> is_handler r \<longrightarrow> priority r \<le> priority h)
     | _ \<Rightarrow> False"
  proof (cases "\<exists>r\<in>set (concat rss). eligible env req r \<and> is_handler r")
    case True
    then obtain x where x: "x \<in> set rs" "eligible env req x \<and> is_handler x" unfolding set by blast
    obtain h where h: "take 1 (filter (\<lambda>r. eligible env req r \<and> is_handler r) rs) = [h]" "h \<in> set rs" "eligible env req h"
      using hd_filter_sorted[where P = "\<lambda>r. eligible env req r \<and> is_handler r", OF sorted x] by blast
    have "priority r \<le> priority h" if "r \<in> set rs" "eligible env req r" "is_handler r" for r
      using hd_filter_sorted[where P = "\<lambda>r. eligible env req r \<and> is_handler r", OF sorted that(1)] that(2,3) h(1) by auto
    then show ?thesis unfolding called selected_handlers using h by (simp add: set)
  next
    case False
    then have "filter (\<lambda>r. eligible env req r \<and> is_handler r) rs = []" unfolding set[symmetric] filter_empty_conv by blast
    then show ?thesis unfolding called selected_handlers using False by simp
  qed
  ultimately show ?thesis by blast
qed

section \<open>The course of the calls\<close>

text \<open>
  Each call gets the outcome of the call before it and runs as the role of its route or, without one, as the
  role the call before it had.  An error or a request to stop ends the loop.
\<close>

fun follows :: "('d, 'p) route_env \<Rightarrow> request \<Rightarrow> nat \<Rightarrow> Oid \<Rightarrow> 'd option \<Rightarrow> (Route \<times> 'd route_arg list \<times> Oid) list \<Rightarrow> bool" where
  "follows env req k u oc [] = True"
| "follows env req k u oc ((r, args, u') # cs) =
     (u' = (if role r \<noteq> InvalidOid then role r else u) \<and> args = call_args r (req_listener req) oc \<and>
      (case invoke env k r args u' of
         Raised e \<Rightarrow> cs = []
       | Returned d stop \<Rightarrow> (stop \<longrightarrow> cs = []) \<and> follows env req (k + 1) u' (call_outcome env r d) cs))"

lemma route_loop_follows:
  "route_loop env req rs st = (e, st') \<Longrightarrow>
   \<exists>cs. calls st' = calls st @ cs \<and> follows env req (length (calls st)) (user_id st) (outcome st) cs"
proof (induction rs arbitrary: st)
  case (Cons r rs)
  obtain b c where m: "match_urlpattern (lib env) (match r) (request_url req) (cache st) = (b, c)" by fastforce
  define user where "user = (if role r \<noteq> InvalidOid then role r else user_id st)"
  define args where "args = call_args r (req_listener req) (outcome st)"
  note step = Cons.prems[unfolded route_loop_Cons[OF m user_def args_def]]
  have this_call: ?case if "calls st' = calls st @ (r, args, user) # cs" "follows env req (length (calls st)) (user_id st) (outcome st) ((r, args, user) # cs)" for cs
    using that by blast
  show ?case
  proof (cases "route_loop env req rs st = (e, st') \<or> route_loop env req rs (st\<lparr>cache := c\<rparr>) = (e, st')")
    case True
    then show ?thesis using Cons.IH[of st] Cons.IH[of "st\<lparr>cache := c\<rparr>"] by auto
  next
    case False
    show ?thesis
    proof (cases "invoke env (length (calls st)) r args user")
      case (Raised x)
      then show ?thesis using step False by (intro this_call[of "[]"]) (auto simp: user_def args_def split: if_splits)
    next
      case (Returned d stop)
      show ?thesis
      proof (cases stop)
        case True
        then show ?thesis using step False Returned by (intro this_call[of "[]"]) (auto simp: user_def args_def split: if_splits)
      next
        case nostop: False
        then have "route_loop env req rs (handled r (answered env r d (called c r args user st))) = (e, st')"
          using step False Returned by (auto split: if_splits)
        then obtain cs where "calls st' = calls st @ (r, args, user) # cs"
            "follows env req (Suc (length (calls st))) user (call_outcome env r d) cs"
          using Cons.IH by fastforce
        then show ?thesis using Returned nostop by (intro this_call[of cs]) (auto simp: user_def args_def)
      qed
    qed
  qed
qed simp

lemma follows_nth:
  assumes "follows env req k u oc cs" "i < length cs" "cs ! i = (r, args, u')"
  shows "u' = foldl (\<lambda>u r. if role r \<noteq> InvalidOid then role r else u) u (map fst (take (Suc i) cs)) \<and>
    (Suc i < length cs \<longrightarrow> (\<exists>d. invoke env (k + i) r args u' = Returned d False \<and>
       fst (snd (cs ! Suc i)) = call_args (fst (cs ! Suc i)) (req_listener req) (call_outcome env r d)))"
  using assms
proof (induction cs arbitrary: k u oc i)
  case (Cons c cs)
  obtain r1 a1 u1 where c: "c = (r1, a1, u1)" by (cases c)
  show ?case
  proof (cases i)
    case 0
    then show ?thesis
      using Cons.prems by (cases cs) (auto simp: c split: call_result.splits)
  next
    case (Suc j)
    then obtain d where "invoke env k r1 a1 u1 = Returned d False" "follows env req (k + 1) u1 (call_outcome env r1 d) cs"
      using Cons.prems(1,2) by (auto simp: c split: call_result.splits)
    then show ?thesis
      using Cons.IH[of "k + 1" u1 "call_outcome env r1 d" j] Cons.prems(1-3) Suc by (auto simp: c)
  qed
qed simp

lemma foldl_role:
  "(\<forall>r\<in>set rs. role r = InvalidOid) \<Longrightarrow> foldl (\<lambda>u r. if role r \<noteq> InvalidOid then role r else u) u rs = u"
  by (induction rs) simp_all


lemma route_loop_last:
  assumes "route_loop env req rs st = (None, st')"
  shows "calls st' = calls st \<and> outcome st' = outcome st \<or>
    (\<exists>cs r args u d stop. calls st' = cs @ [(r, args, u)] \<and> invoke env (length cs) r args u = Returned d stop \<and>
       outcome st' = call_outcome env r d)"
  using assms
proof (induction rs arbitrary: st)
  case (Cons r rs)
  obtain b c where m: "match_urlpattern (lib env) (match r) (request_url req) (cache st) = (b, c)" by fastforce
  define user where "user = (if role r \<noteq> InvalidOid then role r else user_id st)"
  define args where "args = call_args r (req_listener req) (outcome st)"
  note step = Cons.prems[unfolded route_loop_Cons[OF m user_def args_def]]
  show ?case
  proof (cases "route_loop env req rs st = (None, st') \<or> route_loop env req rs (st\<lparr>cache := c\<rparr>) = (None, st')")
    case True
    then show ?thesis using Cons.IH[of st] Cons.IH[of "st\<lparr>cache := c\<rparr>"] by auto
  next
    case False
    then obtain d stop where inv: "invoke env (length (calls st)) r args user = Returned d stop"
      using step by (cases "invoke env (length (calls st)) r args user") (auto split: if_splits)
    define st4 where "st4 = answered env r d (called c r args user st)"
    have "calls st' = calls st4 \<and> outcome st' = outcome st4 \<or>
      (\<exists>cs r args u d stop. calls st' = cs @ [(r, args, u)] \<and> invoke env (length cs) r args u = Returned d stop \<and>
         outcome st' = call_outcome env r d)"
      using step False inv Cons.IH[of "handled r st4"] by (auto simp: st4_def split: if_splits)
    moreover have "calls st4 = calls st @ [(r, args, user)]" "outcome st4 = call_outcome env r d" by (simp_all add: st4_def)
    ultimately show ?thesis using inv by metis
  qed
qed simp

text \<open>
  What the request is answered with is what the last function called says: one that returns no outcome undoes the outcome
  of those before it.
\<close>

theorem last_call_decides:
  assumes "route_loop env req rs \<lparr>handler_invoked = False, outcome = None, user_id = user, cache = c, calls = []\<rparr> = (None, st)"
    "calls st \<noteq> []" "last (calls st) = (r, args, u)"
  shows "\<exists>d stop. invoke env (length (calls st) - 1) r args u = Returned d stop \<and> outcome st = call_outcome env r d"
  using route_loop_last[OF assms(1)] assms(2,3) by auto

section \<open>Types of the arguments\<close>

definition input_types :: "(Oid \<times> char option) list \<Rightarrow> Oid list" where
  "input_types args = map fst (filter (\<lambda>(_, m). m \<noteq> Some CHR ''o'') args)"

lemma input_types_simps [simp]:
  "input_types [] = []"
  "input_types ((ty, m) # args) = (if m \<noteq> Some CHR ''o'' then ty # input_types args else input_types args)"
  by (simp_all add: input_types_def)

text \<open>No argument that is only an output has one of the types that are passed.\<close>

definition plain_outputs :: "catalog \<Rightarrow> Oid \<Rightarrow> (Oid \<times> char option) list \<Rightarrow> bool" where
  "plain_outputs c tab args \<longleftrightarrow>
     list_all (\<lambda>(ty, m). m = Some CHR ''o'' \<longrightarrow> ty \<noteq> tab \<and> ty \<noteq> http_request_oid c \<and> ty \<noteq> INT4OID c) args"

definition index_typed :: "Oid list \<Rightarrow> int \<Rightarrow> Oid \<Rightarrow> bool" where
  "index_typed tys i ty \<longleftrightarrow> 0 \<le> i \<longrightarrow> nat i < length tys \<and> tys ! nat i = ty"

definition route_typed :: "catalog \<Rightarrow> Oid \<Rightarrow> Oid list \<Rightarrow> Route \<Rightarrow> bool" where
  "route_typed c tab tys r \<longleftrightarrow>
     index_typed tys (tuple_index r) tab \<and> index_typed tys (http_request_index r) (http_request_oid c) \<and>
     index_typed tys (http_outcome_index r) (http_outcome_oid c) \<and> index_typed tys (listener_index r) (INT4OID c)"

lemma index_typed_append: "index_typed tys i ty \<Longrightarrow> index_typed (tys @ tys') i ty"
  by (auto simp: index_typed_def nth_append)

lemma route_typed_append: "route_typed c tab tys r \<Longrightarrow> route_typed c tab (tys @ tys') r"
  by (simp add: route_typed_def index_typed_append)

lemma index_typed_here: "index_typed (tys @ [ty]) (int (length tys)) ty"
  by (simp add: index_typed_def)

lemma scan_args_typed:
  assumes "plain_outputs c tab args" "route_typed c tab tys r"
  shows "route_typed c tab (tys @ input_types args) (scan_args c tab args (int (length tys)) r)"
  using assms
proof (induction args arbitrary: tys r)
  case (Cons a args)
  obtain ty m where a: "a = (ty, m)" by fastforce
  define r1 where "r1 = scan_arg c tab ty m (int (length tys)) r"
  have plain: "plain_outputs c tab args" using Cons.prems(1) by (simp add: plain_outputs_def)
  show ?case
  proof (cases "m = Some CHR ''o''")
    case True
    then have "route_typed c tab tys r1"
      using Cons.prems by (auto simp: r1_def scan_arg_def a plain_outputs_def route_typed_def)
    then show ?thesis using Cons.IH[OF plain, of tys r1] True by (simp add: a r1_def)
  next
    case False
    have "route_typed c tab (tys @ [ty]) r1"
      using route_typed_append[OF Cons.prems(2), of "[ty]"] index_typed_here[of tys ty]
      by (auto simp: r1_def scan_arg_def route_typed_def Let_def)
    then show ?thesis using Cons.IH[OF plain, of "tys @ [ty]" r1] False by (simp add: a r1_def add.commute)
  qed
qed simp

fun arg_has_type :: "catalog \<Rightarrow> Oid \<Rightarrow> 'd route_arg \<Rightarrow> Oid \<Rightarrow> bool" where
  "arg_has_type c tab NullArg ty = True"
| "arg_has_type c tab (ListenerArg _) ty = (ty = INT4OID c)"
| "arg_has_type c tab RequestArg ty = (ty = http_request_oid c)"
| "arg_has_type c tab (OutcomeArg _) ty = (ty = http_outcome_oid c)"
| "arg_has_type c tab (TupleArg _) ty = (ty = tab)"

lemma set_arg_typed:
  assumes "list_all2 (arg_has_type c tab) args tys" "index_typed tys i ty" "arg_has_type c tab x ty"
  shows "list_all2 (arg_has_type c tab) (set_arg i x args) tys"
  using assms list_all2_update_cong[of "arg_has_type c tab" args tys x "tys ! nat i" "nat i"]
  by (auto simp: set_arg_def index_typed_def)


section \<open>The example\<close>

lemma sort_key_sorts: "sorts_routes (sort_key (\<lambda>r. - priority r))"
proof -
  have "sorted_wrt (\<lambda>a b. priority b \<le> priority a) (sort_key (\<lambda>r. - priority r) rs)" for rs :: "Route list"
    using sorted_sort_key[where f = "\<lambda>r. - priority r"] by (simp add: sorted_map)
  then show ?thesis unfolding sorts_routes_def RouteCompare_le by simp
qed

lemma example_quiet: "quiet example_env" "cache_ok (lib example_env) []"
  by (auto simp: quiet_def example_env_def cache_ok_def hash_find_def)

lemma example_routes:
  "mapM_outcome (router_routes (cat example_env)) [example_router] = Inr [[example_route 1 True 0, example_route 5 True 0]]"
  by (simp add: router_routes_def example_env_def example_router_def example_catalog_def example_table_def column_type_def
      make_route_def column_def all_args_def example_proc_def scan_arg_def example_route_def List.map_filter_simps)

lemma example_eligible: "eligible example_env example_request (example_route p h x)"
  by (simp add: eligible_def pattern_matches_def example_env_def example_route_def)

theorem routing_by_priority_witness:
  "\<exists>st. handle_routes (sort_key (\<lambda>r. - priority r)) example_env (Some [example_router]) (Routes []) example_request 1 [] =
      Inr (None, st) \<and> filter is_handler (map fst (calls st)) = [example_route 5 True 0]"
proof -
  have p: "is_handler (example_route p h x) = h" "priority (example_route p h x) = p" for p h x by (simp_all add: example_route_def)
  obtain st where st: "handle_routes (sort_key (\<lambda>r. - priority r)) example_env (Some [example_router]) (Routes []) example_request 1 [] =
      Inr (None, st)"
    and c: "case filter is_handler (map fst (calls st)) of
       [] \<Rightarrow> \<not> (\<exists>r\<in>set (concat [[example_route 1 True 0, example_route 5 True 0]]). eligible example_env example_request r \<and> is_handler r)
     | [h] \<Rightarrow> h \<in> set (concat [[example_route 1 True 0, example_route 5 True 0]]) \<and> eligible example_env example_request h \<and>
         (\<forall>r\<in>set (concat [[example_route 1 True 0, example_route 5 True 0]]).
            eligible example_env example_request r \<longrightarrow> is_handler r \<longrightarrow> priority r \<le> priority h)
     | _ \<Rightarrow> False"
    using routing_by_priority[OF sort_key_sorts example_quiet example_routes, of "Routes []" example_request 1] by blast
  have "filter is_handler (map fst (calls st)) = [example_route 5 True 0]"
    using c by (auto simp: example_eligible p split: list.splits)
  then show ?thesis using st by blast
qed

lemmas example_run = route_loop.simps match_urlpattern_def matches_def call_outcome_def example_env_def example_request_def
  example_route_def example_catalog_def example_proc_def hash_find_def hash_enter_def


theorem last_call_decides_witness:
  "outcome (snd (route_loop example_env example_request [example_route 5 True 0, example_route 1 False 0] (loop_start 1))) = None"
proof -
  obtain st where run:
    "route_loop example_env example_request [example_route 5 True 0, example_route 1 False 0] (loop_start 1) = (None, st)"
    by (auto simp: example_run)
  have "map fst (calls st) = [example_route 5 True 0, example_route 1 False 0]"
    using run by (auto simp: example_run)
  then obtain args u where c: "calls st \<noteq> []" "last (calls st) = (example_route 1 False 0, args, u)"
    by (auto simp: map_eq_Cons_conv)
  have "outcome st = None"
    using last_call_decides[OF run c] by (auto simp: call_outcome_def example_route_def)
  then show ?thesis using run by simp
qed


end
