(* ===== verification/Omni_Httpd_Response.thy ===== *)
theory Omni_Httpd_Response
  imports Omni_Httpd_Routes
begin

text \<open>
  Requests and responses of \<open>omni_httpd\<close>: the method of a request and the answer to it in \<open>handler\<close> (\<open>http_worker.c\<close>), the SQL
  function \<open>http_response\<close> (\<open>omni_httpd.c\<close>), and setting of response headers (\<open>h2o/lib/core/headers.c\<close>).

  Bytes that are sent without having been written are \<open>None\<close>.  Clipping at character boundaries (\<open>pg_mbcliplen\<close>) and printing of \<open>jsonb\<close> are
  arguments.
\<close>

section \<open>Methods\<close>

definition http_method_names :: "string list" where
  "http_method_names =
     [''GET'', ''HEAD'', ''POST'', ''PUT'', ''DELETE'', ''CONNECT'', ''OPTIONS'', ''TRACE'', ''PATCH'']"

fun find_name :: "string \<Rightarrow> string list \<Rightarrow> nat \<Rightarrow> nat option" where
  "find_name m [] i = None"
| "find_name m (n # ns) i = (if strncmp_equal m n (length m) then Some i else find_name m ns (i + 1))"

text \<open>The index of the method of a request.  Without one, its oid is invalid.\<close>

definition request_method :: "string \<Rightarrow> nat option" where
  "request_method m = find_name m http_method_names 0"

section \<open>The function http_response\<close>

record http_header =
  h_name :: "string option"
  h_value :: "string option"

type_synonym http_headers = "http_header option list"

datatype body_type = TEXTOID | VARCHAROID | CHAROID | BYTEAOID | JSONBOID | JSONOID | OtherType

text \<open>A new element goes after the last one.  The bounds of an empty array are read although it has none.\<close>

definition add_header :: "http_headers option \<Rightarrow> string \<Rightarrow> string \<Rightarrow> http_headers outcome" where
  "add_header headers name value =
     (let header = \<lparr>h_name = Some name, h_value = Some value\<rparr> in
      case headers of
        None \<Rightarrow> Inr [Some header]
      | Some [] \<Rightarrow> Inl (Crash ''bounds of an empty array'')
      | Some hs \<Rightarrow> Inr (hs @ [Some header]))"

definition has_content_type :: "http_headers option \<Rightarrow> bool" where
  "has_content_type headers =
     (case headers of
        None \<Rightarrow> False
      | Some hs \<Rightarrow>
          list_ex (\<lambda>h. case h of
                          Some h \<Rightarrow> (case h_name h of
                                       Some n \<Rightarrow> strncasecmp_equal n ''content-type'' (length n)
                                     | None \<Rightarrow> False)
                        | None \<Rightarrow> False) hs)"

record response =
  rs_status :: "16 word option"
  rs_headers :: "http_headers option"
  rs_body :: "byte list option"

definition default_type :: "body_type \<Rightarrow> string option" where
  "default_type t =
     (case t of
        TEXTOID \<Rightarrow> Some ''text/plain; charset=utf-8''
      | VARCHAROID \<Rightarrow> Some ''text/plain; charset=utf-8''
      | CHAROID \<Rightarrow> Some ''text/plain; charset=utf-8''
      | BYTEAOID \<Rightarrow> Some ''application/octet-stream''
      | JSONBOID \<Rightarrow> Some ''application/json''
      | JSONOID \<Rightarrow> Some ''application/json''
      | OtherType \<Rightarrow> None)"

definition http_response ::
  "(byte list \<Rightarrow> byte list) \<Rightarrow> (body_type \<times> byte list) option \<Rightarrow> int option \<Rightarrow> http_headers option \<Rightarrow> response outcome" where
  "http_response jsonb_text body status headers =
     (let st = word_of_int (case status of None \<Rightarrow> 200 | Some s \<Rightarrow> s) in
      case body of
        None \<Rightarrow> Inr \<lparr>rs_status = Some st, rs_headers = headers, rs_body = None\<rparr>
      | Some (t, bytes) \<Rightarrow>
          (case default_type t of
             None \<Rightarrow> elog_error ''Can't (yet) cast to bytea''
           | Some ty \<Rightarrow>
               bind_outcome
                 (if has_content_type headers then Inr headers
                  else bind_outcome (add_header headers ''content-type'' ty) (\<lambda>hs. Inr (Some hs)))
                 (\<lambda>hs. Inr \<lparr>rs_status = Some st, rs_headers = hs,
                            rs_body = Some (if t = JSONBOID then jsonb_text bytes else bytes)\<rparr>)))"

section \<open>Answering a request\<close>

definition http_status_reasons :: "(nat \<times> string) list" where
  "http_status_reasons =
     [(100, ''Continue''), (101, ''Switching Protocols''), (102, ''Processing''), (103, ''Early Hints''), (200, ''OK''),
      (201, ''Created''), (202, ''Accepted''), (203, ''Non-Authoritative Information''), (204, ''No Content''),
      (205, ''Reset Content''), (206, ''Partial Content''), (207, ''Multi-Status''), (208, ''Already Reported''),
      (226, ''IM Used''), (300, ''Multiple Choices''), (301, ''Moved Permanently''), (302, ''Found''), (303, ''See Other''),
      (304, ''Not Modified''), (305, ''Use Proxy''), (307, ''Temporary Redirect''), (308, ''Permanent Redirect''),
      (400, ''Bad Request''), (401, ''Unauthorized''), (402, ''Payment Required''), (403, ''Forbidden''),
      (404, ''Not Found''), (405, ''Method Not Allowed''), (406, ''Not Acceptable''),
      (407, ''Proxy Authentication Required''), (408, ''Request Timeout''), (409, ''Conflict''), (410, ''Gone''),
      (411, ''Length Required''), (412, ''Precondition Failed''), (413, ''Payload Too Large''), (414, ''URI Too Long''),
      (415, ''Unsupported Media Type''), (416, ''Range Not Satisfiable''), (417, ''Expectation Failed''),
      (418, ''I'm a teapot''), (421, ''Misdirected Request''), (422, ''Unprocessable Entity''), (423, ''Locked''),
      (424, ''Failed Dependency''), (425, ''Too Early''), (426, ''Upgrade Required''), (428, ''Precondition Required''),
      (429, ''Too Many Requests''), (431, ''Request Header Fields Too Large''), (451, ''Unavailable For Legal Reasons''),
      (500, ''Internal Server Error''), (501, ''Not Implemented''), (502, ''Bad Gateway''), (503, ''Service Unavailable''),
      (504, ''Gateway Timeout''), (505, ''HTTP Version Not Supported''), (506, ''Variant Also Negotiates''),
      (507, ''Insufficient Storage''), (508, ''Loop Detected''), (510, ''Not Extended''),
      (511, ''Network Authentication Required'')]"

definition status_reason :: "16 word \<Rightarrow> string option outcome" where
  "status_reason s = (if unat s < 512 then Inr (map_of http_status_reasons (unat s)) else Inl (Crash ''no such reason''))"

definition set_header_by_str :: "string \<Rightarrow> string \<Rightarrow> (string \<times> string) list \<Rightarrow> (string \<times> string) list" where
  "set_header_by_str name value hs = hash_enter name value hs"

text \<open>The headers set so far and the content length, if one was given.\<close>

fun response_headers :: "http_headers \<Rightarrow> (string \<times> string) list \<times> int option \<Rightarrow> (string \<times> string) list \<times> int option" where
  "response_headers [] st = st"
| "response_headers (h # hs) (sent, content_length) =
     response_headers hs
       (case h of
          None \<Rightarrow> (sent, content_length)
        | Some h \<Rightarrow>
            (case (h_name h, h_value h) of
               (Some n, Some v) \<Rightarrow>
                 if length n = length ''content-length'' \<and> strncasecmp_equal n ''content-length'' (length n)
                 then (sent, Some (fst (strtoll v)))
                 else (set_header_by_str n v sent, content_length)
             | _ \<Rightarrow> (sent, content_length)))"

definition cut_length :: "nat \<Rightarrow> int option \<Rightarrow> nat" where
  "cut_length body_len content_length =
     (case content_length of
        None \<Rightarrow> body_len
      | Some cl \<Rightarrow>
          if (of_nat body_len :: 64 word) > word_of_int cl then unat (word_of_int cl :: 64 word) else body_len)"

text \<open>
  The bytes of the response: the text function that copies the body clips it at the end of a character and adds a null character;
  the bytes after that are not written.
\<close>

definition copy_body :: "(byte list \<Rightarrow> nat \<Rightarrow> nat) \<Rightarrow> byte list \<Rightarrow> nat \<Rightarrow> byte option list" where
  "copy_body clip bytes body_len =
     (let copied = (if body_len \<ge> length bytes then length bytes else clip bytes body_len) in
      map Some (take copied bytes) @
      (if copied < body_len then Some 0 # replicate (body_len - copied - 1) None else []))"

datatype http_outcome =
    OutResponse response
  | OutAbort
  | OutProxy "string option" "bool option"
  | OutUnknown

datatype reply =
    SendInline "16 word" "string option" "(string \<times> string) list" "nat option" "byte option list"
  | QueueAbort
  | QueueProxy string bool

text \<open>Whether the transaction was committed, and what was sent after that.\<close>

record delivery =
  committed :: bool
  replies :: "reply list"

text \<open>
  The message is locked while it is handled, so that the connection cannot be gone when the reply is queued: the early return for
  that case is not taken.
\<close>

definition send_inline ::
  "bool \<Rightarrow> 16 word \<Rightarrow> string option \<Rightarrow> (string \<times> string) list \<Rightarrow> nat option \<Rightarrow> byte option list \<Rightarrow> reply" where
  "send_inline head st reason hs len body = SendInline st reason hs len (if head then [] else body)"

definition send_response :: "(byte list \<Rightarrow> nat \<Rightarrow> nat) \<Rightarrow> bool \<Rightarrow> response \<Rightarrow> delivery outcome" where
  "send_response clip head r =
     (let st = (case rs_status r of None \<Rightarrow> 200 | Some s \<Rightarrow> s) in
      bind_outcome (status_reason st) (\<lambda>reason.
        case response_headers (case rs_headers r of None \<Rightarrow> [] | Some hs \<Rightarrow> hs) ([], None) of
          (hs, content_length) \<Rightarrow>
            (case rs_body r of
               Some bytes \<Rightarrow>
                 let body_len = cut_length (length bytes) content_length in
                 Inr \<lparr>committed = True,
                      replies = [send_inline head st reason hs (Some body_len) (copy_body clip bytes body_len)]\<rparr>
             | None \<Rightarrow> Inr \<lparr>committed = True, replies = [send_inline head st reason hs None []]\<rparr>)))"

definition deliver :: "(byte list \<Rightarrow> nat \<Rightarrow> nat) \<Rightarrow> bool \<Rightarrow> http_outcome option \<Rightarrow> delivery outcome" where
  "deliver clip head oc =
     (case oc of
        None \<Rightarrow>
          bind_outcome (status_reason 204) (\<lambda>reason.
            Inr \<lparr>committed = True, replies = [send_inline head 204 reason [] None []]\<rparr>)
      | Some (OutResponse r) \<Rightarrow> send_response clip head r
      | Some OutAbort \<Rightarrow> Inr \<lparr>committed = True, replies = [QueueAbort]\<rparr>
      | Some (OutProxy None _) \<Rightarrow> Inl (Crash ''null URL'')
      | Some (OutProxy (Some url) preserve_host) \<Rightarrow>
          Inr \<lparr>committed = True,
               replies = [QueueProxy url (case preserve_host of None \<Rightarrow> True | Some b \<Rightarrow> b)]\<rparr>
      | Some OutUnknown \<Rightarrow> Inr \<lparr>committed = False, replies = []\<rparr>)"

text \<open>A request that is no upgrade to a WebSocket: the routes, and the answer.  After an error the transaction is aborted.\<close>

definition answer_request ::
  "(Route list \<Rightarrow> Route list) \<Rightarrow> (http_outcome, 'p) route_env \<Rightarrow> available_router list option \<Rightarrow> worker_routes \<Rightarrow> request \<Rightarrow>
   Oid \<Rightarrow> 'p pattern_cache \<Rightarrow> (byte list \<Rightarrow> nat \<Rightarrow> nat) \<Rightarrow> bool \<Rightarrow> delivery outcome" where
  "answer_request qsort env available old req user c clip head =
     bind_outcome (handle_routes qsort env available old req user c) (\<lambda>(e, st).
       case e of
         Some _ \<Rightarrow>
           bind_outcome (status_reason 500) (\<lambda>reason.
             Inr \<lparr>committed = False,
                  replies = [send_inline head 500 reason [] None (map (\<lambda>ch. Some (of_char ch)) ''Internal server error'')]\<rparr>)
       | None \<Rightarrow> deliver clip head (outcome st))"

text \<open>An environment for the routes of the example in which every call gives the same result.\<close>

definition reply_env :: "http_outcome call_result \<Rightarrow> (http_outcome, unit) route_env" where
  "reply_env r = \<lparr>cat = example_catalog, lib = \<lparr>parse_url_pattern = (\<lambda>_. Some ()), match_parsed = (\<lambda>_ _. True)\<rparr>,
     invoke = (\<lambda>_ _ _ _. r), first_attribute = (\<lambda>_. None)\<rparr>"

section \<open>Methods\<close>

lemma find_name_ge: "find_name m ns i = Some k \<Longrightarrow> i \<le> k"
  by (induction ns arbitrary: i) (fastforce split: if_splits)+

lemma find_name_Some:
  "find_name m ns i = Some (i + k) \<longleftrightarrow>
   k < length ns \<and> strncmp_equal m (ns ! k) (length m) \<and> (\<forall>j<k. \<not> strncmp_equal m (ns ! j) (length m))"
proof (induction ns arbitrary: i k)
  case (Cons n ns)
  show ?case
  proof (cases k)
    case 0
    then show ?thesis using find_name_ge[of m ns "i + 1" i] by auto
  next
    case (Suc k')
    then show ?thesis using Cons.IH[of "i + 1" k'] by (auto simp: All_less_Suc2)
  qed
qed simp

lemma method_names_null_free: "list_all null_free http_method_names"
  by (simp add: http_method_names_def null_free_def)

text \<open>
  The method of a request is the first known method that starts with the given one, so that the known methods are
  recognised, but also every prefix of their names.
\<close>

theorem method_by_prefix:
  assumes "null_free m"
  shows "request_method m = Some k \<longleftrightarrow>
    k < 9 \<and> (\<exists>r. http_method_names ! k = m @ r) \<and> (\<forall>j<k. \<not> (\<exists>r. http_method_names ! j = m @ r))"
proof -
  have len: "length http_method_names = 9" by (simp add: http_method_names_def)
  have "strncmp_equal m (http_method_names ! j) (length m) \<longleftrightarrow> (\<exists>r. http_method_names ! j = m @ r)" if "j < 9" for j
    using strncmp_equal_prefix[OF assms, of "http_method_names ! j"] method_names_null_free that len by (simp add: list_all_length)
  then show ?thesis
    using find_name_Some[of m http_method_names 0 k] unfolding request_method_def len by auto
qed

theorem method_by_prefix_witness: "request_method ''P'' = Some 2 \<and> request_method ''PUT'' = Some 3"
proof -
  have "null_free ''P''" "null_free ''PUT''" by (simp_all add: null_free_def)
  from this[THEN method_by_prefix] show ?thesis
    by (auto simp: http_method_names_def numeral_eq_Suc less_Suc_eq)
qed

section \<open>Headers\<close>

definition is_content_length :: "string \<Rightarrow> bool" where
  "is_content_length n \<longleftrightarrow> length n = length ''content-length'' \<and> strncasecmp_equal n ''content-length'' (length n)"

text \<open>The headers of a response that have a name and a value.\<close>

definition given_headers :: "http_headers \<Rightarrow> (string \<times> string) list" where
  "given_headers hs =
     List.map_filter (\<lambda>h. case h of
        None \<Rightarrow> None
      | Some h \<Rightarrow> (case (h_name h, h_value h) of (Some n, Some v) \<Rightarrow> Some (n, v) | _ \<Rightarrow> None)) hs"

lemma response_headers_given:
  "fst (response_headers hs (sent, cl)) =
     foldl (\<lambda>s (n, v). hash_enter n v s) sent (filter (\<lambda>(n, v). \<not> is_content_length n) (given_headers hs))"
  by (induction hs arbitrary: sent cl)
    (auto simp: given_headers_def List.map_filter_simps is_content_length_def set_header_by_str_def split: option.splits)

lemma foldl_hash_enter:
  "hash_wf s \<Longrightarrow> hash_wf (foldl (\<lambda>s (n, v). hash_enter n v s) s hs) \<and>
   hash_find (foldl (\<lambda>s (n, v). hash_enter n v s) s hs) k = (case map_of (rev hs) k of Some v \<Rightarrow> Some v | None \<Rightarrow> hash_find s k)"
  by (induction hs arbitrary: s) (auto simp: htab_simps map_add_def split: option.splits)

lemma headers_sent:
  "distinct (map fst (fst (response_headers hs ([], None)))) \<and>
   map_of (fst (response_headers hs ([], None))) n = (if is_content_length n then None else map_of (rev (given_headers hs)) n)"
proof -
  define gs where "gs = filter (\<lambda>(n, v). \<not> is_content_length n) (given_headers hs)"
  have "map_of (rev gs) n = (if is_content_length n then None else map_of (rev (given_headers hs)) n)"
    unfolding gs_def rev_filter by (simp add: map_of_filter_key)
  then show ?thesis
    using foldl_hash_enter[of "[]" gs n] unfolding response_headers_given gs_def[symmetric]
    by (simp add: hash_wf_def hash_find_def split: option.splits)
qed

text \<open>
  Which headers are sent.  No name is sent twice; the value of a header is the last one given for its name, so that of several
  headers with one name, such as cookies, only the last one is sent.  A content length is left to the HTTP library.
\<close>

theorem repeated_headers_collapse:
  "distinct (map fst (fst (response_headers hs ([], None)))) \<and>
   map_of (fst (response_headers hs ([], None))) n = (if is_content_length n then None else map_of (rev (given_headers hs)) n)"
  by (rule headers_sent)

section \<open>Bodies\<close>

lemma copy_body_full: "copy_body clip bytes (length bytes) = map Some bytes"
  by (simp add: copy_body_def)

lemma cut_length_short:
  assumes "0 \<le> cl" "nat cl < n" "n < 2 ^ 63"
  shows "cut_length n (Some cl) = nat cl"
proof -
  have "cl < 2 ^ 64" "n < 2 ^ 64" using assms by auto
  then have "uint (word_of_int cl :: 64 word) = cl" and n: "unat (of_nat n :: 64 word) = n"
    using assms(1) by (simp_all add: unsigned_of_int unsigned_of_nat take_bit_int_eq_self take_bit_nat_eq_self)
  then have "unat (word_of_int cl :: 64 word) = nat cl" by (metis nat_uint_eq)
  then show ?thesis using assms(2) n by (simp add: cut_length_def word_less_nat_alt)
qed

text \<open>
  A body longer than the given content length is cut.  If the cut is inside a character, the copy ends before that character; the
  bytes between the null character after the copy and the content length are sent although nothing was written there.
\<close>

theorem cut_body_leaks:
  assumes "rs_body r = Some bytes" "rs_headers r = Some hs" "response_headers hs ([], None) = (sent, Some cl)"
    "0 \<le> cl" "nat cl < length bytes" "length bytes < 2 ^ 63" "clip bytes (nat cl) \<le> nat cl" "rs_status r = None"
  shows "\<exists>reason body. send_response clip False r =
      Inr \<lparr>committed = True, replies = [SendInline 200 reason sent (Some (nat cl)) body]\<rparr> \<and>
    length body = nat cl \<and> take (clip bytes (nat cl)) body = map Some (take (clip bytes (nat cl)) bytes) \<and>
    (None \<in> set body \<longleftrightarrow> clip bytes (nat cl) + 1 < nat cl)"
proof -
  define k where "k = clip bytes (nat cl)"
  have k: "k \<le> nat cl" "k \<le> length bytes" using assms(5,7) by (simp_all add: k_def)
  define body where "body = map Some (take k bytes) @ (if k < nat cl then Some 0 # replicate (nat cl - k - 1) None else [])"
  have "copy_body clip bytes (nat cl) = body" using assms(5) by (simp add: copy_body_def body_def k_def Let_def)
  then have "\<exists>reason. send_response clip False r =
      Inr \<lparr>committed = True, replies = [SendInline 200 reason sent (Some (nat cl)) body]\<rparr>"
    using assms cut_length_short[OF assms(4-6)] by (simp add: send_response_def status_reason_def send_inline_def)
  moreover have "length body = nat cl" "take k body = map Some (take k bytes)" "None \<in> set body \<longleftrightarrow> k + 1 < nat cl"
    using k by (auto simp: body_def)
  ultimately show ?thesis by (auto simp: k_def)
qed

theorem cut_body_leaks_witness:
  "\<exists>reason body. send_response (\<lambda>_ n. if n = 4 then 0 else n) False
      \<lparr>rs_status = None, rs_headers = Some [Some \<lparr>h_name = Some ''Content-Length'', h_value = Some ''4''\<rparr>],
       rs_body = Some [240, 159, 152, 128, 240, 159, 152, 128]\<rparr> =
      Inr \<lparr>committed = True, replies = [SendInline 200 reason [] (Some 4) body]\<rparr> \<and> None \<in> set body"
  (is "\<exists>reason body. send_response _ False ?r = _ \<and> _")
proof -
  have "response_headers [Some \<lparr>h_name = Some ''Content-Length'', h_value = Some ''4''\<rparr>] ([], None) = ([], Some 4)"
    by code_simp
  then have "\<exists>reason body. send_response (\<lambda>_ n. if n = 4 then 0 else n) False ?r =
      Inr \<lparr>committed = True, replies = [SendInline 200 reason [] (Some (nat 4)) body]\<rparr> \<and>
    length body = nat 4 \<and> take 0 body = map Some (take 0 [240, 159, 152, 128, 240, 159, 152, 128]) \<and> (None \<in> set body \<longleftrightarrow> 0 + 1 < nat 4)"
    using cut_body_leaks[of ?r "[240, 159, 152, 128, 240, 159, 152, 128]" _ "[]" 4 "\<lambda>_ n. if n = 4 then 0 else n"] by simp
  then show ?thesis by auto
qed

section \<open>Answers\<close>

text \<open>The outcomes on which the code reads memory that it may not read: a null URL, and a status past the end of the table of reasons.\<close>

definition undeliverable :: "http_outcome \<Rightarrow> bool" where
  "undeliverable oc =
     (case oc of
        OutProxy None _ \<Rightarrow> True
      | OutResponse r \<Rightarrow> (case rs_status r of None \<Rightarrow> False | Some s \<Rightarrow> 512 \<le> unat s)
      | _ \<Rightarrow> False)"

lemma send_response_once:
  "if undeliverable (OutResponse r) then \<exists>err. send_response clip head r = Inl err
   else \<exists>d. send_response clip head r = Inr d \<and> committed d \<and> length (replies d) = 1"
proof -
  obtain hs cl where "response_headers (case rs_headers r of None \<Rightarrow> [] | Some hs \<Rightarrow> hs) ([], None) = (hs, cl)" by fastforce
  then show ?thesis
    by (cases "rs_body r")
      (auto simp: send_response_def undeliverable_def status_reason_def Let_def split: option.splits)
qed

lemma deliver_once:
  "if \<exists>x. oc = Some x \<and> undeliverable x then \<exists>err. deliver clip head oc = Inl err
   else \<exists>d. deliver clip head oc = Inr d \<and>
     (if oc = Some OutUnknown then \<not> committed d \<and> replies d = [] else committed d \<and> length (replies d) = 1)"
proof (cases oc)
  case (Some x)
  then show ?thesis
  proof (cases x)
    case (OutResponse r)
    then show ?thesis using Some send_response_once[of r clip head] by (auto simp: deliver_def split: if_splits)
  qed (auto simp: deliver_def undeliverable_def split: option.splits)
qed (simp add: deliver_def status_reason_def)



lemma response_headers_no_length:
  assumes "\<forall>(n, v)\<in>set (given_headers hs). \<not> is_content_length n"
  shows "snd (response_headers hs (sent, cl)) = cl"
  using assms
  by (induction hs arbitrary: sent)
    (auto simp: given_headers_def List.map_filter_simps is_content_length_def split: option.splits)

lemma content_type_is_no_length: "\<not> is_content_length ''content-type''"
  by (simp add: is_content_length_def)

lemma given_headers_append: "given_headers (hs @ hs') = given_headers hs @ given_headers hs'"
  by (induction hs) (auto simp: given_headers_def List.map_filter_simps split: option.splits)

lemma add_header_given:
  assumes "add_header headers n v = Inr hs"
  shows "given_headers hs = given_headers (case headers of None \<Rightarrow> [] | Some hs \<Rightarrow> hs) @ [(n, v)]"
proof -
  have one: "given_headers [Some \<lparr>h_name = Some n, h_value = Some v\<rparr>] = [(n, v)]" "given_headers [] = []"
    by (simp_all add: given_headers_def List.map_filter_simps)
  show ?thesis
  proof (cases headers)
    case None
    then show ?thesis using assms one by (simp add: add_header_def Let_def)
  next
    case (Some hs0)
    then have "hs = hs0 @ [Some \<lparr>h_name = Some n, h_value = Some v\<rparr>]"
      using assms by (cases hs0) (simp_all add: add_header_def Let_def)
    then show ?thesis using Some one by (simp add: given_headers_append)
  qed
qed

lemma small_status: "0 \<le> s \<Longrightarrow> s < 512 \<Longrightarrow> unat (word_of_int s :: 16 word) < 512"
proof -
  assume s: "0 \<le> s" "s < 512"
  then have "uint (word_of_int s :: 16 word) = s" by (simp add: unsigned_of_int take_bit_int_eq_self)
  then have "unat (word_of_int s :: 16 word) = nat s" by (metis nat_uint_eq)
  then show ?thesis using s by simp
qed

lemma http_response_given:
  assumes "http_response jsonb_text (Some (t, bytes)) status headers = Inr r"
  shows "\<exists>ty hs. default_type t = Some ty \<and>
    r = \<lparr>rs_status = Some (word_of_int (case status of None \<Rightarrow> 200 | Some s \<Rightarrow> s)), rs_headers = hs,
         rs_body = Some (if t = JSONBOID then jsonb_text bytes else bytes)\<rparr> \<and>
    given_headers (case hs of None \<Rightarrow> [] | Some hs \<Rightarrow> hs) =
      given_headers (case headers of None \<Rightarrow> [] | Some hs \<Rightarrow> hs) @ (if has_content_type headers then [] else [(''content-type'', ty)])"
proof -
  obtain ty hs where r: "default_type t = Some ty" "r = \<lparr>rs_status = Some (word_of_int (case status of None \<Rightarrow> 200 | Some s \<Rightarrow> s)),
        rs_headers = hs, rs_body = Some (if t = JSONBOID then jsonb_text bytes else bytes)\<rparr>"
    and hs: "(if has_content_type headers then Inr headers
        else bind_outcome (add_header headers ''content-type'' ty) (\<lambda>hs. Inr (Some hs))) = Inr hs"
    using assms by (auto simp: http_response_def Let_def bind_outcome_Inr_iff split: option.splits)
  have "given_headers (case hs of None \<Rightarrow> [] | Some hs \<Rightarrow> hs) =
      given_headers (case headers of None \<Rightarrow> [] | Some hs \<Rightarrow> hs) @ (if has_content_type headers then [] else [(''content-type'', ty)])"
  proof (cases "has_content_type headers")
    case False
    then obtain hs2 where "add_header headers ''content-type'' ty = Inr hs2" "hs = Some hs2"
      using hs by (auto simp: bind_outcome_Inr_iff)
    then show ?thesis using add_header_given False by simp
  qed (use hs in simp)
  then show ?thesis using r by blast
qed



end
