(* ===== verification/Omni_Httpd_Websocket.thy ===== *)
theory Omni_Httpd_Websocket
  imports Omni_Prelude
begin

text \<open>
  WebSockets of \<open>omni_httpd\<close>: a backend sends messages over a Unix socket (\<open>websocket_send\<close> in \<open>omni_httpd.c\<close>) to the worker that has the
  connection (\<open>on_ws_relay_message\<close> in \<open>event_loop.c\<close>); both compute the path of the socket from the identifier of the
  connection.
\<close>

section \<open>Paths\<close>

definition hex_digit :: "byte \<Rightarrow> char" where
  "hex_digit d = ''0123456789abcdef'' ! unat d"

fun hex_encode :: "byte list \<Rightarrow> string" where
  "hex_encode [] = []"
| "hex_encode (b # bs) = hex_digit (drop_bit 4 b) # hex_digit (b AND 0xf) # hex_encode bs"

text \<open>The bits of the variant and the version, which the formatting sets in the identifier it is given.\<close>

definition set_version :: "byte \<Rightarrow> byte list \<Rightarrow> byte list" where
  "set_version version octets =
     octets[8 := (octets ! 8 AND 0x3f) OR 0x80, 6 := (octets ! 6 AND 0x0f) OR push_bit 4 version]"

definition format_uuid_rfc4122 :: "byte list \<Rightarrow> byte \<Rightarrow> string \<times> byte list" where
  "format_uuid_rfc4122 octets version =
     (let os = set_version version octets;
          part = (\<lambda>first last. hex_encode (take (last - first + 1) (drop first os))) in
      (part 0 3 @ ''-'' @ part 4 5 @ ''-'' @ part 6 7 @ ''-'' @ part 8 8 @ part 9 9 @ ''-'' @ part 10 15, os))"

definition SUN_PATH_SIZE :: nat where "SUN_PATH_SIZE = 108"

text \<open>The path with the identifier as it is left, or \<open>None\<close> for \<open>-EINVAL\<close>.\<close>

definition websocket_unix_socket_path :: "string \<Rightarrow> byte list \<Rightarrow> (string \<times> byte list) option" where
  "websocket_unix_socket_path temp_dir uuid =
     (let len_with_sock_prefix = length temp_dir + 17 in
      if len_with_sock_prefix + 36 + 1 > SUN_PATH_SIZE then None
      else case format_uuid_rfc4122 uuid 4 of
             (text, uuid') \<Rightarrow> Some (temp_dir @ ''/omni_httpd.sock.'' @ text, uuid'))"

text \<open>The identifier that a new connection gets, from random bytes.\<close>

definition new_ws_uuid :: "byte list \<Rightarrow> byte list" where
  "new_ws_uuid random = set_version 4 random"

section \<open>Messages\<close>

record frame =
  frame_kind :: byte
  frame_data :: "byte list"

definition encode_frame :: "frame \<Rightarrow> byte list" where
  "encode_frame f = frame_kind f # rev (be_bytes 8 (of_nat (length (frame_data f)) :: 64 word)) @ frame_data f"

text \<open>
  \<open>connected\<close> says whether the socket at a path accepts the connection, \<open>sent\<close> whether sending succeeds.  The result is the
  path and the bytes that are sent to it.
\<close>

definition websocket_send ::
  "(string \<Rightarrow> bool) \<Rightarrow> bool \<Rightarrow> string \<Rightarrow> byte list option \<Rightarrow> byte list option \<Rightarrow> byte \<Rightarrow> (string \<times> byte list) outcome" where
  "websocket_send connected sent temp_dir socket data k =
     (case socket of
        None \<Rightarrow> elog_error ''socket can't be null''
      | Some uuid \<Rightarrow>
          (case data of
             None \<Rightarrow> elog_error ''data can't be null''
           | Some bytes \<Rightarrow>
               (case websocket_unix_socket_path temp_dir uuid of
                  None \<Rightarrow> elog_error ''websocket_unix_socket_path''
                | Some (path, _) \<Rightarrow>
                    if \<not> connected path then elog_error ''connect''
                    else if \<not> sent then elog_error ''sendmsg''
                    else Inr (path, encode_frame \<lparr>frame_kind = k, frame_data = bytes\<rparr>))))"

datatype opcode = WSLAY_TEXT_FRAME | WSLAY_BINARY_FRAME

text \<open>
  The loop over the input of a socket.  The sum of the size of the header and the length wraps around; a message is then taken to be there although
  its bytes are not.
\<close>

function relay :: "byte list \<Rightarrow> ((opcode \<times> byte list) list \<times> byte list) outcome" where
  "relay input =
     (if input = [] \<or> length input < 9 then Inr ([], input)
      else
        let len = be_word (rev (take 8 (tl input))) :: 64 word in
        if of_nat (length input) < 9 + len then Inr ([], input)
        else if length input < 9 + unat len then Inl (Crash ''read past the end of the input'')
        else
          bind_outcome (relay (drop (9 + unat len) input)) (\<lambda>(msgs, rest).
            Inr ((if hd input = 0 then WSLAY_TEXT_FRAME else WSLAY_BINARY_FRAME, take (unat len) (drop 9 input)) # msgs, rest)))"
  by pat_completeness auto
termination by (relation "measure length") auto

declare relay.simps [simp del]

text \<open>Each piece of data that arrives is put after what is left of the earlier ones.\<close>

fun on_ws_relay_message ::
  "byte list list \<Rightarrow> (opcode \<times> byte list) list \<times> byte list \<Rightarrow> ((opcode \<times> byte list) list \<times> byte list) outcome" where
  "on_ws_relay_message [] st = Inr st"
| "on_ws_relay_message (piece # pieces) (queued, input) =
     bind_outcome (relay (input @ piece)) (\<lambda>(msgs, rest). on_ws_relay_message pieces (queued @ msgs, rest))"

section \<open>Messages arrive\<close>

definition frame_message :: "frame \<Rightarrow> opcode \<times> byte list" where
  "frame_message f = (if frame_kind f = 0 then WSLAY_TEXT_FRAME else WSLAY_BINARY_FRAME, frame_data f)"

lemma length_encode_frame: "length (encode_frame f) = 9 + length (frame_data f)"
  by (simp add: encode_frame_def)

lemma relay_short: "length input < 9 \<Longrightarrow> relay input = Inr ([], input)"
  by (subst relay.simps) simp

lemma relay_step:
  assumes "l = (be_word (rev (take 8 (tl input))) :: 64 word)" "9 \<le> length input" "\<not> of_nat (length input) < 9 + l"
    "9 + unat l \<le> length input"
  shows "relay input =
    bind_outcome (relay (drop (9 + unat l) input)) (\<lambda>(msgs, rest).
      Inr ((if hd input = 0 then WSLAY_TEXT_FRAME else WSLAY_BINARY_FRAME, take (unat l) (drop 9 input)) # msgs, rest))"
proof -
  have c: "\<not> (input = [] \<or> length input < 9)" "\<not> length input < 9 + unat l" using assms(2,4) by auto
  show ?thesis
    by (subst relay.simps, unfold assms(1)[symmetric] Let_def) (simp only: c assms(3) if_False)
qed

lemma header_length:
  assumes "n < 2 ^ 64"
  shows "unat (be_word (rev (rev (be_bytes 8 (of_nat n :: 64 word)))) :: 64 word) = n"
  using assms by (simp add: be_word_be_bytes take_bit_word_eq_self unsigned_of_nat take_bit_nat_eq_self)

lemma relay_frame:
  assumes "length (frame_data f) < 2 ^ 63"
  shows "length input < length (encode_frame f) \<Longrightarrow> input @ b = encode_frame f @ after \<Longrightarrow> relay input = Inr ([], input)"
    and "length (encode_frame f @ input) < 2 ^ 63 \<Longrightarrow> relay (encode_frame f @ input) =
      bind_outcome (relay input) (\<lambda>(msgs, rest). Inr (frame_message f # msgs, rest))"
proof -
  define n where "n = length (frame_data f)"
  have len: "unat (be_word (rev (rev (be_bytes 8 (of_nat n :: 64 word)))) :: 64 word) = n"
    using header_length[of n] assms by (simp add: n_def)
  have sum: "unat (9 + be_word (rev (rev (be_bytes 8 (of_nat n :: 64 word)))) :: 64 word) = 9 + n"
    using assms len by (simp add: unat_word_ariths n_def)
  have small: "of_nat k < (9 + be_word (rev (rev (be_bytes 8 (of_nat n :: 64 word)))) :: 64 word) \<longleftrightarrow> k < 9 + n" if "k < 2 ^ 64" for k
    using that sum by (simp add: word_less_nat_alt unsigned_of_nat take_bit_nat_eq_self)
  show "relay input = Inr ([], input)" if i: "length input < length (encode_frame f)" "input @ b = encode_frame f @ after"
  proof (cases "length input < 9")
    case True
    then show ?thesis by (rule relay_short)
  next
    case False
    have "take 9 input = take 9 (encode_frame f)"
      using arg_cong[OF i(2), of "take 9"] False by (simp add: length_encode_frame)
    then have "take 8 (tl input) = rev (be_bytes 8 (of_nat n :: 64 word))"
      using False by (cases input) (simp_all add: encode_frame_def n_def)
    moreover have "length input < 2 ^ 64" using i(1) assms by (simp add: length_encode_frame)
    ultimately show ?thesis
      using False i(1) small[of "length input"] by (subst relay.simps) (simp add: length_encode_frame n_def)
  qed
  show "relay (encode_frame f @ input) = bind_outcome (relay input) (\<lambda>(msgs, rest). Inr (frame_message f # msgs, rest))"
    if "length (encode_frame f @ input) < 2 ^ 63"
  proof -
    define buf where "buf = encode_frame f @ input"
    have buf: "length buf = 9 + n + length input" "hd buf = frame_kind f" "take 8 (tl buf) = rev (be_bytes 8 (of_nat n :: 64 word))"
      "take n (drop 9 buf) = frame_data f"
      by (simp_all add: buf_def encode_frame_def n_def)
    have rest: "drop (9 + n) buf = input" using length_encode_frame[of f] by (simp add: buf_def n_def)
    define l where "l = (be_word (rev (take 8 (tl buf))) :: 64 word)"
    have l: "unat l = n" using len by (simp add: l_def buf(3))
    have "\<not> of_nat (length buf) < 9 + l"
      using small[of "length buf"] that buf(1) unfolding l_def buf(3) buf_def[symmetric] by simp
    then have "relay buf = bind_outcome (relay (drop (9 + n) buf)) (\<lambda>(msgs, rest).
        Inr ((if hd buf = 0 then WSLAY_TEXT_FRAME else WSLAY_BINARY_FRAME, take n (drop 9 buf)) # msgs, rest))"
      using relay_step[OF l_def] buf(1) l by simp
    then show ?thesis unfolding rest buf(2,4) by (simp only: buf_def frame_message_def)
  qed
qed
lemma relay_frames:
  assumes "input @ b = concat (map encode_frame fs)" "length (input @ b) < 2 ^ 63"
  shows "\<exists>gs hs rest. fs = gs @ hs \<and> relay input = Inr (map frame_message gs, rest) \<and> rest @ b = concat (map encode_frame hs) \<and>
    (\<forall>h hs'. hs = h # hs' \<longrightarrow> length rest < length (encode_frame h))"
  using assms
proof (induction fs arbitrary: input)
  case Nil
  then show ?case by (intro exI[of _ "[]"]) (simp add: relay_short)
next
  case (Cons f fs)
  have "length (encode_frame f) \<le> length (input @ b)" using Cons.prems(1) by simp
  then have f: "length (frame_data f) < 2 ^ 63" using Cons.prems(2) by (simp add: length_encode_frame)
  show ?case
  proof (cases "length input < length (encode_frame f)")
    case True
    then have "relay input = Inr ([], input)" using relay_frame(1)[OF f True] Cons.prems(1) by simp
    then show ?thesis using True Cons.prems(1) by (intro exI[of _ "[]"] exI[of _ "f # fs"] exI[of _ input]) simp
  next
    case False
    define more where "more = drop (length (encode_frame f)) input"
    have "encode_frame f = take (length (encode_frame f)) (input @ b)" using Cons.prems(1) by simp
    then have input: "input = encode_frame f @ more"
      using False by (metis append_take_drop_id more_def not_less take_append diff_is_0_eq take_0 append_Nil2)
    then have "more @ b = concat (map encode_frame fs)" "length (more @ b) < 2 ^ 63" using Cons.prems by simp_all
    then obtain gs hs rest where IH: "fs = gs @ hs" "relay more = Inr (map frame_message gs, rest)"
      "rest @ b = concat (map encode_frame hs)" "\<forall>h hs'. hs = h # hs' \<longrightarrow> length rest < length (encode_frame h)"
      using Cons.IH by blast
    have "relay input = Inr (map frame_message (f # gs), rest)"
      using relay_frame(2)[OF f, of more] Cons.prems(2) IH(2) unfolding input by simp
    then show ?thesis using IH by (intro exI[of _ "f # gs"] exI[of _ hs] exI[of _ rest]) simp
  qed
qed

lemma relay_pieces:
  assumes "input @ concat pieces = concat (map encode_frame fs)" "length (input @ concat pieces) < 2 ^ 63"
    "pieces = [] \<longrightarrow> input = [] \<and> fs = []"
  shows "on_ws_relay_message pieces (queued, input) = Inr (queued @ map frame_message fs, [])"
  using assms
proof (induction pieces arbitrary: queued input fs)
  case (Cons p pieces)
  have pre: "(input @ p) @ concat pieces = concat (map encode_frame fs)" "length ((input @ p) @ concat pieces) < 2 ^ 63"
    using Cons.prems(1,2) by simp_all
  obtain gs hs rest where r: "fs = gs @ hs" "relay (input @ p) = Inr (map frame_message gs, rest)"
    "rest @ concat pieces = concat (map encode_frame hs)" "\<forall>h hs'. hs = h # hs' \<longrightarrow> length rest < length (encode_frame h)"
    using relay_frames[OF pre] by (elim exE conjE)
  have "length (concat (map encode_frame hs)) \<le> length (concat (map encode_frame fs))" using r(1) by simp
  then have small: "length (rest @ concat pieces) < 2 ^ 63" using pre unfolding r(3) by simp
  have "pieces = [] \<longrightarrow> rest = [] \<and> hs = []" using r(3,4) by (cases hs) auto
  then have "on_ws_relay_message pieces (queued @ map frame_message gs, rest) =
      Inr ((queued @ map frame_message gs) @ map frame_message hs, [])"
    by (rule Cons.IH[OF r(3) small])
  then show ?case using r(1,2) by simp
qed simp



section \<open>Paths agree\<close>

lemma set_version_idem: "length u = 16 \<Longrightarrow> set_version v (set_version v u) = set_version v u"
proof -
  assume len: "length u = 16"
  have "(((b AND 0x3f) OR 0x80) AND 0x3f) OR 0x80 = ((b :: byte) AND 0x3f) OR 0x80" for b
    by (rule bit_word_eqI) (auto simp: bit_simps)
  moreover have "(((b AND 0x0f) OR push_bit 4 v) AND 0x0f) OR push_bit 4 v = ((b :: byte) AND 0x0f) OR push_bit 4 v" for b
    by (rule bit_word_eqI) (auto simp: bit_simps)
  ultimately show ?thesis using len by (simp add: set_version_def list_update_swap[of 8 6])
qed

lemma length_hex_encode [simp]: "length (hex_encode bs) = 2 * length bs"
  by (induction bs) auto

lemma hex_digit_inject: "unat a < 16 \<Longrightarrow> unat b < 16 \<Longrightarrow> hex_digit a = hex_digit b \<Longrightarrow> a = b"
proof -
  assume d: "unat a < 16" "unat b < 16" "hex_digit a = hex_digit b"
  have "distinct ''0123456789abcdef''" by simp
  moreover have "length ''0123456789abcdef'' = 16" by simp
  ultimately have "unat a = unat b" using d nth_eq_iff_index_eq unfolding hex_digit_def by metis
  then show "a = b" by (rule word_unat_eq_iff[THEN iffD2])
qed

lemma low_nibble: "(b :: byte) AND 0xf = take_bit 4 b"
  by (simp add: take_bit_eq_mask mask_eq_exp_minus_1)

lemma nibble_bounds: "unat (drop_bit 4 (b :: byte)) < 16" "unat (b AND 0xf) < 16"
proof -
  have "unat b < 256" using unsigned_less[of b, where ?'a = nat] by simp
  then show "unat (drop_bit 4 b) < 16" by (simp only: unsigned_drop_bit_eq) (simp add: drop_bit_eq_div take_bit_nat_eq_self)
  show "unat (b AND 0xf) < 16" by (simp only: low_nibble unsigned_take_bit_eq) (simp add: take_bit_eq_mod)
qed

lemma nibbles_inject: "drop_bit 4 a = drop_bit 4 (b :: byte) \<Longrightarrow> a AND 0xf = b AND 0xf \<Longrightarrow> a = b"
  unfolding low_nibble by (metis bits_ident)

lemma hex_encode_inject: "hex_encode as = hex_encode bs \<Longrightarrow> as = bs"
proof (induction as arbitrary: bs)
  case Nil
  then show ?case by (cases bs) auto
next
  case (Cons a as)
  then obtain b bs' where b: "bs = b # bs'" by (cases bs) auto
  then have eqs: "hex_digit (drop_bit 4 a) = hex_digit (drop_bit 4 b)" "hex_digit (a AND 0xf) = hex_digit (b AND 0xf)"
      "hex_encode as = hex_encode bs'"
    using Cons.prems by (simp_all only: hex_encode.simps list.inject)
  have "a = b"
    using hex_digit_inject[OF nibble_bounds(1) nibble_bounds(1) eqs(1)] hex_digit_inject[OF nibble_bounds(2) nibble_bounds(2) eqs(2)] by (rule nibbles_inject)
  then show ?case using Cons.IH[OF eqs(3)] b by simp
qed

lemma format_uuid_inject:
  assumes "length u = 16" "length v = 16" "fst (format_uuid_rfc4122 u w) = fst (format_uuid_rfc4122 v w)"
  shows "set_version w u = set_version w v"
proof -
  define a where "a = set_version w u"
  define b where "b = set_version w v"
  have len: "length a = 16" "length b = 16" using assms(1,2) by (simp_all add: a_def b_def set_version_def)
  have whole: "os = take 4 os @ take 2 (drop 4 os) @ take 2 (drop 6 os) @ take 1 (drop 8 os) @ take 1 (drop 9 os) @ take 6 (drop 10 os)"
    if "length os = 16" for os :: "byte list"
    using that by (auto simp: numeral_eq_Suc length_Suc_conv)
  have parts: "take 4 a = take 4 b \<and> take 2 (drop 4 a) = take 2 (drop 4 b) \<and> take 2 (drop 6 a) = take 2 (drop 6 b) \<and>
      take 1 (drop 8 a) = take 1 (drop 8 b) \<and> take 1 (drop 9 a) = take 1 (drop 9 b) \<and> take 6 (drop 10 a) = take 6 (drop 10 b)"
    using assms(3) len by (auto simp: format_uuid_rfc4122_def Let_def a_def[symmetric] b_def[symmetric] numeral_2_eq_2 dest!: hex_encode_inject)
  have "a = b" by (rule trans[OF whole[OF len(1)]], rule trans[OF _ whole[OF len(2), symmetric]]) (simp only: parts)
  then show ?thesis by (simp only: a_def b_def)
qed

lemma snd_format_uuid: "snd (format_uuid_rfc4122 u v) = set_version v u"
  by (simp only: format_uuid_rfc4122_def Let_def snd_conv)

lemma length_format_uuid: "length u = 16 \<Longrightarrow> length (fst (format_uuid_rfc4122 u v)) = 36"
  by (simp add: format_uuid_rfc4122_def set_version_def Let_def)

lemma socket_path_Some_iff:
  "websocket_unix_socket_path dir u = Some (path, u') \<longleftrightarrow>
     length dir + 54 \<le> SUN_PATH_SIZE \<and> path = dir @ ''/omni_httpd.sock.'' @ fst (format_uuid_rfc4122 u 4) \<and> u' = set_version 4 u"
  using snd_format_uuid[of u 4]
  by (cases "format_uuid_rfc4122 u 4") (auto simp: websocket_unix_socket_path_def)

text \<open>
  C29: A message sent to a connection goes to the socket that its worker listens on.  The path that the worker binds when the connection
  is upgraded leaves the identifier as it is and fits the structure with its terminating null character; the path a backend
  connects to for this identifier is the same, and different connections have different paths.
\<close>

theorem websocket_paths_agree:
  assumes "length random = 16" "u = new_ws_uuid random" "websocket_unix_socket_path dir u = Some (path, u')" "connected path"
  shows "u' = u \<and> length path < SUN_PATH_SIZE \<and>
    websocket_send connected True dir (Some u) (Some bytes) k = Inr (path, encode_frame \<lparr>frame_kind = k, frame_data = bytes\<rparr>) \<and>
    (\<forall>random2. length random2 = 16 \<longrightarrow> map_option fst (websocket_unix_socket_path dir (new_ws_uuid random2)) = Some path \<longrightarrow>
       new_ws_uuid random2 = u)"
proof -
  have len: "length u = 16" using assms(1,2) by (simp add: new_ws_uuid_def set_version_def)
  have idem: "set_version 4 (new_ws_uuid x) = new_ws_uuid x" if "length x = 16" for x
    using set_version_idem[OF that] by (simp add: new_ws_uuid_def)
  have u: "set_version 4 u = u" using idem[OF assms(1)] assms(2) by simp
  have path: "length dir + 54 \<le> SUN_PATH_SIZE" "path = dir @ ''/omni_httpd.sock.'' @ fst (format_uuid_rfc4122 u 4)" "u' = u"
    using assms(3) u unfolding socket_path_Some_iff by simp_all
  have "length path < SUN_PATH_SIZE" using path(1,2) length_format_uuid[OF len] by simp
  moreover have "new_ws_uuid y = u"
    if y: "length y = 16" "map_option fst (websocket_unix_socket_path dir (new_ws_uuid y)) = Some path" for y
  proof -
    obtain u2 where "websocket_unix_socket_path dir (new_ws_uuid y) = Some (path, u2)" using y(2) by auto
    then have same: "fst (format_uuid_rfc4122 (new_ws_uuid y) 4) = fst (format_uuid_rfc4122 u 4)"
      using path(2) unfolding socket_path_Some_iff by simp
    have "length (new_ws_uuid y) = 16" using y(1) by (simp add: new_ws_uuid_def set_version_def)
    from format_uuid_inject[OF this len same] show ?thesis unfolding idem[OF y(1)] u .
  qed
  moreover have "websocket_send connected True dir (Some u) (Some bytes) k = Inr (path, encode_frame \<lparr>frame_kind = k, frame_data = bytes\<rparr>)"
    using assms(3,4) by (simp add: websocket_send_def)
  ultimately show ?thesis using path(3) by blast
qed

theorem websocket_paths_agree_witness:
  "\<exists>path. websocket_send (\<lambda>_. True) True ''/tmp'' (Some (new_ws_uuid (replicate 16 255))) (Some [104]) 0 =
     Inr (path, encode_frame \<lparr>frame_kind = 0, frame_data = [104]\<rparr>) \<and> length path < SUN_PATH_SIZE"
proof -
  obtain path u' where "websocket_unix_socket_path ''/tmp'' (new_ws_uuid (replicate 16 255)) = Some (path, u')"
    unfolding socket_path_Some_iff by (simp add: SUN_PATH_SIZE_def)
  moreover have "length (replicate 16 255 :: byte list) = 16" by simp
  ultimately show ?thesis
    using websocket_paths_agree[where connected = "\<lambda>_. True" and bytes = "[104]" and k = 0, OF _ refl _ TrueI] by blast
qed

end
