(* ===== verification/Omni_Httpd_Requests.thy ===== *)
theory Omni_Httpd_Requests
  imports Omni_Prelude "HOL-Library.Multiset"
begin

text \<open>
  The two threads of a worker of \<open>omni_httpd\<close>: the event loop (\<open>event_loop.c\<close>) talks to the clients and sends requests to the handler
  (\<open>on_message\<close> in \<open>http_worker.c\<close>), which sends the answers back.  Each works through a queue of messages; a message is locked while
  it is worked on, so that the operations below are steps that do not overlap for one message.

  Messages are numbered in the order of the requests they are made for; a number that is not in the memory stands for a message that has
  been freed.  What the handler answers and what the clients and the system do are arguments of the steps.
\<close>

section \<open>State\<close>

datatype send_message_kind =
    MSG_KIND_SEND
  | MSG_KIND_ABORT
  | MSG_KIND_PROXY
  | MSG_KIND_UPGRADE_TO_WEBSOCKET

text \<open>A message: whether its request is there, and whether the response has a generator.\<close>

record request_message =
  has_req :: bool
  generator :: bool

datatype handler_message =
    HttpMessage nat
  | WebsocketOpen nat
  | WebsocketMessage nat bool "byte list"
  | WebsocketClose nat

datatype callback =
    OnOpen nat
  | OnMessage nat bool "byte list"
  | OnClose nat

text \<open>
  \<open>sent\<close>, \<open>calls\<close>, \<open>accepted\<close>, \<open>unanswered\<close> and \<open>abandoned\<close> record what has happened: answers passed to clients, functions called for WebSockets,
  connections accepted, requests for which the handler queued no answer, and upgrades without a socket; \<open>frames\<close> what came over WebSockets.
\<close>

record worker =
  memory :: "(nat, request_message) htab"
  handler_queue :: "handler_message list"
  event_loop_queue :: "(nat \<times> send_message_kind) list"
  requests_in_flight :: "64 word"
  paused_listeners :: "nat list"
  websockets :: "nat list"
  received :: nat
  proxied :: nat
  sent :: "(nat \<times> send_message_kind) list"
  calls :: "callback list"
  accepted :: "nat list"
  unanswered :: "nat list"
  abandoned :: "nat list"
  frames :: "(nat \<times> bool \<times> byte list) list"

definition idle_worker :: worker where
  "idle_worker = \<lparr>memory = [], handler_queue = [], event_loop_queue = [], requests_in_flight = 0, paused_listeners = [],
     websockets = [], received = 0, proxied = 0, sent = [], calls = [], accepted = [], unanswered = [], abandoned = [], frames = []\<rparr>"

section \<open>Steps\<close>

definition on_accept :: "nat \<Rightarrow> worker \<Rightarrow> worker" where
  "on_accept listener w =
     (if requests_in_flight w > 0 then w\<lparr>paused_listeners := List.insert listener (paused_listeners w)\<rparr>
      else w\<lparr>accepted := accepted w @ [listener]\<rparr>)"

definition event_loop_req_handler :: "nat \<Rightarrow> worker \<Rightarrow> worker" where
  "event_loop_req_handler version w =
     (if requests_in_flight w > 0 \<and> version \<ge> 0x0200 then w\<lparr>proxied := proxied w + 1\<rparr>
      else w\<lparr>requests_in_flight := requests_in_flight w + 1,
             memory := hash_enter (received w) \<lparr>has_req = True, generator = False\<rparr> (memory w),
             handler_queue := handler_queue w @ [HttpMessage (received w)],
             received := received w + 1\<rparr>)"

text \<open>The reply that the handler queues.  A response is started before it is queued, which gives it its generator.\<close>

definition queue_reply :: "nat \<Rightarrow> request_message \<Rightarrow> send_message_kind option \<Rightarrow> worker \<Rightarrow> worker" where
  "queue_reply i msg reply w =
     (case reply of
        None \<Rightarrow> w\<lparr>unanswered := unanswered w @ [i]\<rparr>
      | Some k \<Rightarrow>
          w\<lparr>memory := hash_enter i (if k = MSG_KIND_SEND then msg\<lparr>generator := True\<rparr> else msg) (memory w),
            event_loop_queue := event_loop_queue w @ [(i, k)]\<rparr>)"

definition handle_message :: "send_message_kind option \<Rightarrow> worker \<Rightarrow> worker outcome" where
  "handle_message reply w =
     (case handler_queue w of
        [] \<Rightarrow> Inr w
      | m # ms \<Rightarrow>
          let w1 = w\<lparr>handler_queue := ms\<rparr> in
          (case m of
             HttpMessage i \<Rightarrow>
               (case hash_find (memory w) i of
                  None \<Rightarrow> Inl (Crash ''freed message'')
                | Some msg \<Rightarrow>
                    if \<not> has_req msg then Inl (Crash ''mutex of a freed message'')
                    else Inr (queue_reply i msg reply w1))
           | WebsocketOpen i \<Rightarrow> Inr (w1\<lparr>calls := calls w1 @ [OnOpen i]\<rparr>)
           | WebsocketMessage i text data \<Rightarrow> Inr (w1\<lparr>calls := calls w1 @ [OnMessage i text data]\<rparr>)
           | WebsocketClose i \<Rightarrow> Inr (w1\<lparr>calls := calls w1 @ [OnClose i]\<rparr>)))"

text \<open>The answers arrive in the event loop.  \<open>socket_ok\<close> says whether the socket of a WebSocket can be created.\<close>

definition count_down :: "worker \<Rightarrow> worker" where
  "count_down w =
     (let n = requests_in_flight w - 1 in
      if n = 0 then w\<lparr>requests_in_flight := n, paused_listeners := []\<rparr> else w\<lparr>requests_in_flight := n\<rparr>)"

definition on_message :: "bool \<Rightarrow> worker \<Rightarrow> worker outcome" where
  "on_message socket_ok w =
     (case event_loop_queue w of
        [] \<Rightarrow> Inr w
      | (i, k) # ms \<Rightarrow>
          (case hash_find (memory w) i of
             None \<Rightarrow> Inl (Crash ''freed message'')
           | Some msg \<Rightarrow>
               let w1 = count_down (w\<lparr>event_loop_queue := ms\<rparr>) in
               if \<not> has_req msg then Inl (Crash ''pointer into a message freed'')
               else if k = MSG_KIND_UPGRADE_TO_WEBSOCKET then
                 (if socket_ok
                  then Inr (w1\<lparr>sent := sent w1 @ [(i, k)], websockets := i # websockets w1,
                               handler_queue := handler_queue w1 @ [WebsocketOpen i]\<rparr>)
                  else Inr (w1\<lparr>abandoned := abandoned w1 @ [i]\<rparr>))
               else
                 Inr (w1\<lparr>sent := sent w1 @ [(i, k)],
                         memory := hash_enter i (if k = MSG_KIND_SEND then msg\<lparr>generator := False\<rparr> else msg) (memory w1)\<rparr>)))"

text \<open>What a client sends over a WebSocket: \<open>None\<close> if it is closed, or the kind of the frame, control or not, and its data.\<close>

definition on_ws_message :: "nat \<Rightarrow> (bool \<times> bool \<times> byte list) option \<Rightarrow> worker \<Rightarrow> worker" where
  "on_ws_message i arg w =
     (case arg of
        None \<Rightarrow> w\<lparr>handler_queue := handler_queue w @ [WebsocketClose i], websockets := removeAll i (websockets w)\<rparr>
      | Some (is_ctrl, text, data) \<Rightarrow>
          if \<not> is_ctrl then w\<lparr>handler_queue := handler_queue w @ [WebsocketMessage i text data], frames := frames w @ [(i, text, data)]\<rparr>
          else w)"

text \<open>
  The end of a request, when it is complete or its connection is gone: the library closes the generator and then frees the memory
  of the request, which calls \<open>req_dispose\<close>.
\<close>

definition close_generator :: "request_message \<Rightarrow> request_message" where
  "close_generator msg = msg\<lparr>generator := False\<rparr>"

definition req_dispose :: "nat \<Rightarrow> request_message \<Rightarrow> worker \<Rightarrow> worker" where
  "req_dispose i msg w =
     (let dispose_req_message = (has_req msg \<and> \<not> generator msg) in
      if dispose_req_message then w\<lparr>memory := hash_remove i (memory w)\<rparr>
      else w\<lparr>memory := hash_enter i (msg\<lparr>has_req := False\<rparr>) (memory w)\<rparr>)"

definition dispose_request :: "nat \<Rightarrow> worker \<Rightarrow> worker" where
  "dispose_request i w =
     (case hash_find (memory w) i of
        None \<Rightarrow> w
      | Some msg \<Rightarrow> req_dispose i (close_generator msg) w)"

text \<open>When the worker is to reload its listeners, those that are paused are started again.\<close>

definition event_loop_reload :: "worker \<Rightarrow> worker" where
  "event_loop_reload w = w\<lparr>paused_listeners := []\<rparr>"

section \<open>Runs\<close>

definition http_messages :: "handler_message list \<Rightarrow> nat list" where
  "http_messages ms = List.map_filter (\<lambda>m. case m of HttpMessage i \<Rightarrow> Some i | _ \<Rightarrow> None) ms"

definition waiting :: "worker \<Rightarrow> nat list" where
  "waiting w = map fst (event_loop_queue w) @ http_messages (handler_queue w)"

text \<open>
  Steps in any order.  A WebSocket is used while it is open.  If \<open>patient\<close> holds, no request ends while it waits for its answer.
\<close>

inductive worker_step :: "bool \<Rightarrow> worker \<Rightarrow> worker outcome \<Rightarrow> bool" for patient where
  Accept: "worker_step patient w (Inr (on_accept l w))"
| Receive: "received w + 1 < 2 ^ 64 \<Longrightarrow> worker_step patient w (Inr (event_loop_req_handler version w))"
| Handle: "worker_step patient w (handle_message reply w)"
| Answer: "worker_step patient w (on_message socket_ok w)"
| Websocket: "i \<in> set (websockets w) \<Longrightarrow> worker_step patient w (Inr (on_ws_message i arg w))"
| Dispose: "(patient \<longrightarrow> i \<notin> set (waiting w)) \<Longrightarrow> worker_step patient w (Inr (dispose_request i w))"
| Reload: "worker_step patient w (Inr (event_loop_reload w))"

inductive worker_reach :: "bool \<Rightarrow> worker outcome \<Rightarrow> bool" for patient where
  Start: "worker_reach patient (Inr idle_worker)"
| Step: "worker_reach patient (Inr w) \<Longrightarrow> worker_step patient w w' \<Longrightarrow> worker_reach patient w'"

inductive_cases worker_stepE: "worker_step patient w w'"

section \<open>The invariant\<close>

lemma http_messages_simps [simp]:
  "http_messages [] = []" "http_messages (HttpMessage i # ms) = i # http_messages ms"
  "http_messages (WebsocketOpen i # ms) = http_messages ms" "http_messages (WebsocketMessage i t d # ms) = http_messages ms"
  "http_messages (WebsocketClose i # ms) = http_messages ms" "http_messages (ms @ ns) = http_messages ms @ http_messages ns"
  by (simp_all add: http_messages_def List.map_filter_def)

definition in_order :: "worker \<Rightarrow> bool" where
  "in_order w \<longleftrightarrow> sorted_wrt (<) (map fst (sent w) @ waiting w) \<and>
     mset (map fst (sent w) @ waiting w @ unanswered w @ abandoned w) = mset [0..<received w]"

definition held :: "worker \<Rightarrow> bool" where
  "held w \<longleftrightarrow> (\<forall>i\<in>set (waiting w). hash_find (memory w) i \<noteq> None) \<and> (\<forall>i msg. hash_find (memory w) i = Some msg \<longrightarrow> has_req msg)"

definition counted :: "worker \<Rightarrow> bool" where
  "counted w \<longleftrightarrow> unat (requests_in_flight w) = length (waiting w) + length (unanswered w) \<and>
     (paused_listeners w \<noteq> [] \<longrightarrow> requests_in_flight w \<noteq> 0)"

lemmas worker_ok_defs = in_order_def held_def counted_def waiting_def

lemma in_order_bounds:
  assumes "in_order w"
  shows "length (waiting w) + length (unanswered w) \<le> received w" "\<forall>i\<in>set (map fst (sent w) @ waiting w). i < received w"
proof -
  have "size (mset (map fst (sent w) @ waiting w @ unanswered w @ abandoned w)) = size (mset [0..<received w])"
    using assms by (simp only: in_order_def)
  then show "length (waiting w) + length (unanswered w) \<le> received w" by simp
  have "set (map fst (sent w) @ waiting w @ unanswered w @ abandoned w) = set [0..<received w]"
    using assms unfolding in_order_def by (metis set_mset_mset)
  then show "\<forall>i\<in>set (map fst (sent w) @ waiting w). i < received w" by (auto simp: set_eq_iff)
qed

lemma unat_plus_one64: "unat (x :: 64 word) + 1 < 2 ^ 64 \<Longrightarrow> unat (x + 1) = unat x + 1"
  by (simp add: unat_word_ariths)

lemma unat_minus_one64: "unat (x :: 64 word) = Suc n \<Longrightarrow> unat (x - 1) = n"
proof -
  assume x: "unat x = Suc n"
  then have "1 \<le> x" by (auto simp: word_le_nat_alt)
  then show ?thesis using x unat_sub[of 1 x] by simp
qed

lemma receive_ok:
  assumes "in_order w" "held w" "counted w" "received w + 1 < 2 ^ 64"
  shows "in_order (event_loop_req_handler v w) \<and> held (event_loop_req_handler v w) \<and> counted (event_loop_req_handler v w)"
proof (cases "requests_in_flight w > 0 \<and> v \<ge> 0x0200")
  case True
  then show ?thesis using assms by (simp add: event_loop_req_handler_def worker_ok_defs)
next
  case False
  note b = in_order_bounds[OF assms(1)]
  have "unat (requests_in_flight w + 1) = unat (requests_in_flight w) + 1"
    using assms(3,4) b(1) by (intro unat_plus_one64) (simp add: counted_def)
  moreover from this have "requests_in_flight w + 1 \<noteq> 0" by (metis Suc_eq_plus1 nat.distinct(1) unsigned_0)
  ultimately have "counted (event_loop_req_handler v w)"
    using False assms(3) by (simp add: event_loop_req_handler_def worker_ok_defs)
  moreover have "held (event_loop_req_handler v w)"
    using False assms(2) by (auto simp: event_loop_req_handler_def worker_ok_defs hash_find_enter)
  moreover have "in_order (event_loop_req_handler v w)"
    using False assms(1) b(2)
    by (auto simp: event_loop_req_handler_def worker_ok_defs sorted_wrt_append ac_simps simp del: mset_upt)
  ultimately show ?thesis by blast
qed

lemma handle_ok:
  assumes "in_order w" "held w" "counted w"
  shows "\<exists>w'. handle_message reply w = Inr w' \<and> in_order w' \<and> held w' \<and> counted w'"
proof (cases "handler_queue w")
  case Nil
  then show ?thesis using assms by (simp add: handle_message_def)
next
  case (Cons m ms)
  show ?thesis
  proof (cases m)
    case (HttpMessage i)
    have "i \<in> set (waiting w)" by (simp add: waiting_def Cons HttpMessage)
    then obtain msg where msg: "hash_find (memory w) i = Some msg" "has_req msg" using assms(2) unfolding held_def by blast
    then have "handle_message reply w = Inr (queue_reply i msg reply (w\<lparr>handler_queue := ms\<rparr>))"
      by (simp add: handle_message_def Cons HttpMessage)
    moreover have "in_order (queue_reply i msg reply (w\<lparr>handler_queue := ms\<rparr>))"
      using assms(1) by (cases reply) (auto simp: queue_reply_def worker_ok_defs Cons HttpMessage sorted_wrt_append)
    moreover have "held (queue_reply i msg reply (w\<lparr>handler_queue := ms\<rparr>))"
      using assms(2) msg by (cases reply) (auto simp: queue_reply_def worker_ok_defs Cons HttpMessage hash_find_enter)
    moreover have "counted (queue_reply i msg reply (w\<lparr>handler_queue := ms\<rparr>))"
      using assms(3) by (cases reply) (auto simp: queue_reply_def worker_ok_defs Cons HttpMessage)
    ultimately show ?thesis by blast
  qed (use assms in \<open>auto simp: handle_message_def worker_ok_defs Cons\<close>)
qed

lemma count_down_simps [simp]:
  "memory (count_down w) = memory w" "handler_queue (count_down w) = handler_queue w" "event_loop_queue (count_down w) = event_loop_queue w"
  "sent (count_down w) = sent w" "received (count_down w) = received w" "unanswered (count_down w) = unanswered w"
  "abandoned (count_down w) = abandoned w" "frames (count_down w) = frames w" "websockets (count_down w) = websockets w" "calls (count_down w) = calls w"
  "requests_in_flight (count_down w) = requests_in_flight w - 1"
  "paused_listeners (count_down w) = (if requests_in_flight w - 1 = 0 then [] else paused_listeners w)"
  by (simp_all add: count_down_def Let_def)

lemma answer_ok:
  assumes "in_order w" "held w" "counted w"
  shows "\<exists>w'. on_message socket_ok w = Inr w' \<and> in_order w' \<and> held w' \<and> counted w'"
proof (cases "event_loop_queue w")
  case Nil
  then show ?thesis using assms by (simp add: on_message_def)
next
  case (Cons m ms)
  obtain i k where m: "m = (i, k)" by fastforce
  have "i \<in> set (waiting w)" by (simp add: waiting_def Cons m)
  then obtain msg where msg: "hash_find (memory w) i = Some msg" "has_req msg" using assms(2) unfolding held_def by blast
  define w1 where "w1 = count_down (w\<lparr>event_loop_queue := ms\<rparr>)"
  have n: "unat (requests_in_flight w - 1) = length ms + length (http_messages (handler_queue w)) + length (unanswered w)"
    using assms(3) by (intro unat_minus_one64) (simp add: counted_def waiting_def Cons)
  have w1: "sent w1 = sent w" "event_loop_queue w1 = ms" "handler_queue w1 = handler_queue w" "memory w1 = memory w"
    "requests_in_flight w1 = requests_in_flight w - 1" "unanswered w1 = unanswered w" "abandoned w1 = abandoned w" "received w1 = received w"
    "websockets w1 = websockets w" "paused_listeners w1 = (if requests_in_flight w - 1 = 0 then [] else paused_listeners w)"
    by (simp_all add: w1_def)
  have c: "counted w'" if "requests_in_flight w' = requests_in_flight w1" "waiting w' = map fst ms @ http_messages (handler_queue w)"
    "unanswered w' = unanswered w1" "paused_listeners w' = paused_listeners w1" for w'
    using that n w1 by (simp add: counted_def)
  consider (upgrade) "k = MSG_KIND_UPGRADE_TO_WEBSOCKET" socket_ok | (abandon) "k = MSG_KIND_UPGRADE_TO_WEBSOCKET" "\<not> socket_ok"
    | (send) "k \<noteq> MSG_KIND_UPGRADE_TO_WEBSOCKET" by blast
  then show ?thesis
  proof cases
    case upgrade
    define w' where "w' = w1\<lparr>sent := sent w1 @ [(i, k)], websockets := i # websockets w1, handler_queue := handler_queue w1 @ [WebsocketOpen i]\<rparr>"
    have "on_message socket_ok w = Inr w'" using upgrade msg by (simp add: on_message_def Cons m w1_def[symmetric] w1 w'_def)
    moreover have "in_order w' \<and> held w'" using assms(1,2) by (simp add: worker_ok_defs w1 w'_def Cons m ac_simps del: mset_upt)
    moreover have "counted w'" by (rule c) (simp_all add: w'_def waiting_def w1)
    ultimately show ?thesis by blast
  next
    case abandon
    define w' where "w' = w1\<lparr>abandoned := abandoned w1 @ [i]\<rparr>"
    have "on_message socket_ok w = Inr w'" using abandon msg by (simp add: on_message_def Cons m w1_def[symmetric] w1 w'_def)
    moreover have "in_order w' \<and> held w'"
      using assms(1,2) by (auto simp: worker_ok_defs w1 w'_def Cons m sorted_wrt_append ac_simps simp del: mset_upt)
    moreover have "counted w'" by (rule c) (simp_all add: w'_def waiting_def w1)
    ultimately show ?thesis by blast
  next
    case send
    define w' where "w' = w1\<lparr>sent := sent w1 @ [(i, k)],
      memory := hash_enter i (if k = MSG_KIND_SEND then msg\<lparr>generator := False\<rparr> else msg) (memory w1)\<rparr>"
    have "on_message socket_ok w = Inr w'" using send msg by (simp add: on_message_def Cons m w1_def[symmetric] w1 w'_def)
    moreover have "in_order w'" using assms(1) by (simp add: worker_ok_defs w1 w'_def Cons m ac_simps del: mset_upt)
    moreover have "held w'" using assms(2) msg by (auto simp: worker_ok_defs w1 w'_def Cons m hash_find_enter)
    moreover have "counted w'" by (rule c) (simp_all add: w'_def waiting_def w1)
    ultimately show ?thesis by blast
  qed
qed

lemma dispose_ok:
  assumes "in_order w" "held w" "counted w" "i \<notin> set (waiting w)"
  shows "in_order (dispose_request i w) \<and> held (dispose_request i w) \<and> counted (dispose_request i w)"
proof (cases "hash_find (memory w) i")
  case None
  then show ?thesis using assms by (simp add: dispose_request_def)
next
  case (Some msg)
  then have "has_req msg" using assms(2) by (simp add: held_def)
  then have "dispose_request i w = w\<lparr>memory := hash_remove i (memory w)\<rparr>"
    by (simp add: dispose_request_def Some req_dispose_def close_generator_def)
  then show ?thesis using assms by (auto simp: worker_ok_defs hash_find_remove split: if_splits)
qed

lemma worker_reach_ok:
  assumes "worker_reach True s"
  shows "\<exists>w. s = Inr w \<and> in_order w \<and> held w \<and> counted w"
  using assms
proof (induction s rule: worker_reach.induct)
  case Start
  show ?case by (simp add: idle_worker_def worker_ok_defs hash_find_empty)
next
  case (Step w w')
  then have ok: "in_order w" "held w" "counted w" by auto
  from Step.hyps(2) show ?case
  proof cases
    case (Accept l)
    then show ?thesis using ok by (auto simp: on_accept_def worker_ok_defs)
  next
    case (Receive version)
    then show ?thesis using receive_ok[OF ok] by blast
  next
    case (Handle reply)
    then show ?thesis using handle_ok[OF ok] by blast
  next
    case (Answer socket_ok)
    then show ?thesis using answer_ok[OF ok] by blast
  next
    case (Websocket i arg)
    then show ?thesis using ok by (auto simp: on_ws_message_def worker_ok_defs split: option.splits)
  next
    case (Dispose i)
    then show ?thesis using dispose_ok[OF ok, of i] by simp
  next
    case Reload
    then show ?thesis using ok by (auto simp: event_loop_reload_def worker_ok_defs)
  qed
qed

section \<open>Requests\<close>

lemma sorted_distinct: "sorted_wrt (<) (xs :: nat list) \<Longrightarrow> distinct xs"
  by (induction xs) auto

text \<open>
  C8: While no request ends before it is answered, nothing that was freed is used.  Every request received is answered, in the order of arrival, or
  waits in a queue, or is one of those that the handler did not answer or whose upgrade found no socket; none is answered twice.  The count of requests in flight is that of
  waiting and unanswered ones, and while it is zero no listener is paused.
\<close>

theorem requests_served_in_order:
  assumes "worker_reach True s"
  shows "\<exists>w. s = Inr w \<and> sorted_wrt (<) (map fst (sent w) @ waiting w) \<and>
    mset (map fst (sent w) @ waiting w @ unanswered w @ abandoned w) = mset [0..<received w] \<and>
    unat (requests_in_flight w) = length (waiting w) + length (unanswered w) \<and>
    (requests_in_flight w = 0 \<longrightarrow> paused_listeners w = [])"
  using worker_reach_ok[OF assms] unfolding in_order_def counted_def by blast

lemma unanswered_busy:
  assumes "worker_reach True (Inr w)" "unanswered w \<noteq> []"
  shows "requests_in_flight w > 0"
proof -
  have "unat (requests_in_flight w) = length (waiting w) + length (unanswered w)"
    using worker_reach_ok[OF assms(1)] by (simp add: counted_def)
  then have "unat (requests_in_flight w) \<noteq> 0" using assms(2) by simp
  then show ?thesis by (metis unsigned_0 word_gt_0)
qed

text \<open>
  A request that the handler does not answer keeps the worker busy.  From then on it accepts no connection, and passes requests of the newer protocols on.
\<close>

theorem unanswered_requests_block:
  assumes "worker_reach True (Inr w)" "unanswered w \<noteq> []"
  shows "requests_in_flight w \<noteq> 0 \<and> accepted (on_accept l w) = accepted w \<and> l \<in> set (paused_listeners (on_accept l w)) \<and>
    (version \<ge> 0x0200 \<longrightarrow> waiting (event_loop_req_handler version w) = waiting w)"
  using unanswered_busy[OF assms] by (auto simp: on_accept_def event_loop_req_handler_def waiting_def)

lemma patient_steps: "worker_step True w w' \<Longrightarrow> worker_step False w w'"
  by (auto elim!: worker_stepE intro: worker_step.intros)

lemma patient_reach: "worker_reach True s \<Longrightarrow> worker_reach False s"
  by (induction rule: worker_reach.induct) (auto intro: worker_reach.intros patient_steps)


section \<open>WebSockets\<close>

fun ws_callback :: "handler_message \<Rightarrow> callback option" where
  "ws_callback (HttpMessage i) = None"
| "ws_callback (WebsocketOpen i) = Some (OnOpen i)"
| "ws_callback (WebsocketMessage i text data) = Some (OnMessage i text data)"
| "ws_callback (WebsocketClose i) = Some (OnClose i)"

fun callback_id :: "callback \<Rightarrow> nat" where
  "callback_id (OnOpen i) = i"
| "callback_id (OnMessage i text data) = i"
| "callback_id (OnClose i) = i"

definition history :: "worker \<Rightarrow> callback list" where
  "history w = calls w @ List.map_filter ws_callback (handler_queue w)"

definition frame_calls :: "nat \<Rightarrow> worker \<Rightarrow> callback list" where
  "frame_calls i w = map (\<lambda>(i, text, data). OnMessage i text data) (filter (\<lambda>f. fst f = i) (frames w))"

definition history_ok :: "worker \<Rightarrow> nat \<Rightarrow> bool" where
  "history_ok w i \<longleftrightarrow>
     (if (i, MSG_KIND_UPGRADE_TO_WEBSOCKET) \<in> set (sent w)
      then filter (\<lambda>c. callback_id c = i) (history w) = OnOpen i # frame_calls i w @ (if i \<in> set (websockets w) then [] else [OnClose i])
      else filter (\<lambda>c. callback_id c = i) (history w) = [] \<and> frame_calls i w = [] \<and> i \<notin> set (websockets w))"

lemma map_filter_append [simp]: "List.map_filter f (xs @ ys) = List.map_filter f xs @ List.map_filter f ys"
  by (simp add: List.map_filter_def)

lemma history_ok_cong:
  "history w' = history w \<Longrightarrow> frames w' = frames w \<Longrightarrow> websockets w' = websockets w \<Longrightarrow>
   ((i, MSG_KIND_UPGRADE_TO_WEBSOCKET) \<in> set (sent w') \<longleftrightarrow> (i, MSG_KIND_UPGRADE_TO_WEBSOCKET) \<in> set (sent w)) \<Longrightarrow>
   history_ok w' i = history_ok w i"
  by (simp add: history_ok_def frame_calls_def)

lemma history_handle: "handle_message reply w = Inr w' \<Longrightarrow> history_ok w' i = history_ok w i"
proof (rule history_ok_cong)
  assume h: "handle_message reply w = Inr w'"
  show "history w' = history w"
    using h by (auto simp: handle_message_def queue_reply_def history_def Let_def List.map_filter_simps
        split: list.splits handler_message.splits option.splits if_splits)
  show "frames w' = frames w" "websockets w' = websockets w"
    "(i, MSG_KIND_UPGRADE_TO_WEBSOCKET) \<in> set (sent w') \<longleftrightarrow> (i, MSG_KIND_UPGRADE_TO_WEBSOCKET) \<in> set (sent w)"
    using h by (auto simp: handle_message_def queue_reply_def Let_def
        split: list.splits handler_message.splits option.splits if_splits)
qed

lemma history_answer:
  assumes "on_message socket_ok w = Inr w'" "in_order w" "\<And>i. history_ok w i"
  shows "history_ok w' i"
proof (cases "event_loop_queue w")
  case Nil
  then show ?thesis using assms by (simp add: on_message_def)
next
  case (Cons m ms)
  obtain j k where m: "m = (j, k)" by fastforce
  have "distinct (map fst (sent w) @ waiting w)" using assms(2) sorted_distinct by (simp only: in_order_def)
  then have new: "(j, MSG_KIND_UPGRADE_TO_WEBSOCKET) \<notin> set (sent w)" by (force simp: waiting_def Cons m)
  show ?thesis
  proof (cases "k = MSG_KIND_UPGRADE_TO_WEBSOCKET \<and> socket_ok")
    case True
    then have w': "history w' = history w @ [OnOpen j]" "frames w' = frames w" "websockets w' = j # websockets w"
      "sent w' = sent w @ [(j, MSG_KIND_UPGRADE_TO_WEBSOCKET)]"
      using assms(1) by (auto simp: on_message_def Cons m Let_def history_def List.map_filter_simps split: option.splits if_splits)
    show ?thesis
    proof (cases "i = j")
      case True
      then show ?thesis using assms(3)[of i] new w' by (simp add: history_ok_def frame_calls_def)
    next
      case False
      then show ?thesis using assms(3)[of i] w' by (auto simp: history_ok_def frame_calls_def)
    qed
  next
    case False
    then have "history w' = history w \<and> frames w' = frames w \<and> websockets w' = websockets w \<and>
        ((i, MSG_KIND_UPGRADE_TO_WEBSOCKET) \<in> set (sent w') \<longleftrightarrow> (i, MSG_KIND_UPGRADE_TO_WEBSOCKET) \<in> set (sent w))"
      using assms(1) by (auto simp: on_message_def Cons m Let_def history_def split: option.splits if_splits)
    then show ?thesis using history_ok_cong[of w' w i] assms(3) by blast
  qed
qed

lemma history_websocket:
  assumes "j \<in> set (websockets w)" "history_ok w i"
  shows "history_ok (on_ws_message j arg w) i"
proof (cases arg)
  case None
  then show ?thesis
    using assms by (auto simp: history_ok_def on_ws_message_def history_def frame_calls_def List.map_filter_simps split: if_splits)
next
  case (Some a)
  then show ?thesis
    using assms by (auto simp: history_ok_def on_ws_message_def history_def frame_calls_def List.map_filter_simps split: if_splits prod.splits)
qed

lemma worker_reach_history: "worker_reach True s \<Longrightarrow> \<exists>w. s = Inr w \<and> (\<forall>i. history_ok w i)"
proof (induction s rule: worker_reach.induct)
  case Start
  show ?case by (simp add: idle_worker_def history_ok_def history_def frame_calls_def List.map_filter_simps)
next
  case (Step w s)
  then have h: "\<And>i. history_ok w i" by auto
  obtain w' where w': "s = Inr w'" "in_order w" using worker_reach_ok Step.hyps worker_reach.Step by blast
  have "history_ok w' i" for i
    using Step.hyps(2)[unfolded w'(1)]
  proof cases
    case (Accept l)
    then show ?thesis using h history_ok_cong[of w' w i] by (simp add: on_accept_def history_def split: if_splits)
  next
    case (Receive version)
    then show ?thesis using h history_ok_cong[of w' w i]
      by (simp add: event_loop_req_handler_def history_def List.map_filter_simps split: if_splits)
  next
    case (Handle reply)
    then show ?thesis using history_handle h by (metis Inr_inject)
  next
    case (Answer socket_ok)
    then show ?thesis using history_answer w'(2) h by metis
  next
    case (Websocket j arg)
    then show ?thesis using history_websocket h by simp
  next
    case (Dispose j)
    then show ?thesis using h history_ok_cong[of w' w i]
      by (simp add: dispose_request_def req_dispose_def history_def Let_def split: option.splits if_splits)
  next
    case Reload
    then show ?thesis using h history_ok_cong[of w' w i] by (simp add: event_loop_reload_def history_def)
  qed
  then show ?case using w'(1) by blast
qed

text \<open>
  C18: The functions for a WebSocket are called in order: the one for its opening, one for each message that came over it, in the order of the
  messages, and the one for its end; when the queue is empty all of them have been called.
\<close>

theorem websocket_calls_in_order:
  assumes "worker_reach True (Inr w)" "(i, MSG_KIND_UPGRADE_TO_WEBSOCKET) \<in> set (sent w)"
  shows "\<exists>later. filter (\<lambda>c. callback_id c = i) (calls w) @ later =
      OnOpen i # frame_calls i w @ (if i \<in> set (websockets w) then [] else [OnClose i]) \<and>
    (handler_queue w = [] \<longrightarrow> later = [])"
proof -
  have "history_ok w i" using worker_reach_history[OF assms(1)] by auto
  then have "filter (\<lambda>c. callback_id c = i) (calls w @ List.map_filter ws_callback (handler_queue w)) =
      OnOpen i # frame_calls i w @ (if i \<in> set (websockets w) then [] else [OnClose i])"
    using assms(2) by (simp add: history_ok_def history_def)
  then show ?thesis unfolding filter_append by (intro exI conjI) (assumption, simp add: List.map_filter_simps)
qed

section \<open>An example\<close>

text \<open>A request that is received, and then answered, left without an answer, or upgraded and used.\<close>

definition received_one :: worker where
  "received_one = event_loop_req_handler 0x0101 idle_worker"

lemma received_one_reach: "worker_reach True (Inr received_one)"
  unfolding received_one_def by (rule worker_reach.Step[OF worker_reach.Start worker_step.Receive]) (simp add: idle_worker_def)

lemma received_one_eq:
  "received_one = idle_worker\<lparr>requests_in_flight := 1, memory := [(0, \<lparr>has_req = True, generator = False\<rparr>)],
     handler_queue := [HttpMessage 0], received := 1\<rparr>"
  by (simp add: received_one_def event_loop_req_handler_def idle_worker_def hash_enter_def)

lemma handled_one: "handle_message reply received_one = Inr (queue_reply 0 \<lparr>has_req = True, generator = False\<rparr> reply (received_one\<lparr>handler_queue := []\<rparr>))"
  by (simp add: received_one_eq handle_message_def hash_find_Cons)

lemma replied_reach: "worker_reach True (Inr (queue_reply 0 \<lparr>has_req = True, generator = False\<rparr> reply (received_one\<lparr>handler_queue := []\<rparr>)))"
  using worker_reach.Step[OF received_one_reach worker_step.Handle[of True received_one reply]] by (simp add: handled_one)

definition answered_one :: "send_message_kind \<Rightarrow> worker" where
  "answered_one k = projr (on_message True (queue_reply 0 \<lparr>has_req = True, generator = False\<rparr> (Some k) (received_one\<lparr>handler_queue := []\<rparr>)))"

lemma answered_one_reach: "worker_reach True (Inr (answered_one k))"
proof -
  obtain w where w: "on_message True (queue_reply 0 \<lparr>has_req = True, generator = False\<rparr> (Some k) (received_one\<lparr>handler_queue := []\<rparr>)) = Inr w"
    using worker_reach_ok[OF worker_reach.Step[OF replied_reach[of "Some k"] worker_step.Answer[of True _ True]]] by blast
  then have "worker_reach True (Inr w)"
    using worker_reach.Step[OF replied_reach[of "Some k"] worker_step.Answer[of True _ True]] by simp
  then show ?thesis by (simp add: answered_one_def w)
qed

lemma answered_one_simps:
  "sent (answered_one k) = [(0, k)]" "event_loop_queue (answered_one k) = []" "requests_in_flight (answered_one k) = 0"
  "handler_queue (answered_one k) = (if k = MSG_KIND_UPGRADE_TO_WEBSOCKET then [WebsocketOpen 0] else [])" "frames (answered_one k) = []"
  "websockets (answered_one k) = (if k = MSG_KIND_UPGRADE_TO_WEBSOCKET then [0] else [])" "calls (answered_one k) = []"
  by (simp_all add: answered_one_def queue_reply_def received_one_eq on_message_def Let_def idle_worker_def hash_find_enter)

theorem requests_served_in_order_witness:
  "sent (answered_one MSG_KIND_SEND) = [(0, MSG_KIND_SEND)] \<and> paused_listeners (answered_one MSG_KIND_SEND) = []"
  using requests_served_in_order[OF answered_one_reach[of MSG_KIND_SEND]] by (simp add: answered_one_simps)

theorem unanswered_requests_block_witness:
  "\<exists>w. worker_reach True (Inr w) \<and> handler_queue w = [] \<and> event_loop_queue w = [] \<and> accepted (on_accept 7 w) = accepted w"
proof -
  define w where "w = queue_reply 0 \<lparr>has_req = True, generator = False\<rparr> None (received_one\<lparr>handler_queue := []\<rparr>)"
  have w: "unanswered w = [0]" "handler_queue w = []" "event_loop_queue w = []"
    by (simp_all add: w_def queue_reply_def received_one_eq idle_worker_def)
  have "worker_reach True (Inr w)" unfolding w_def by (rule replied_reach)
  then show ?thesis using unanswered_requests_block[of w 7] w by auto
qed


theorem websocket_calls_in_order_witness:
  "\<exists>w. worker_reach True (Inr w) \<and> calls w = [OnOpen 0] \<and> frames w = []"
proof -
  define w where "w = (answered_one MSG_KIND_UPGRADE_TO_WEBSOCKET)\<lparr>handler_queue := [], calls := [OnOpen 0]\<rparr>"
  have "handle_message None (answered_one MSG_KIND_UPGRADE_TO_WEBSOCKET) = Inr w"
    by (simp add: handle_message_def answered_one_simps w_def)
  then have r: "worker_reach True (Inr w)"
    using worker_reach.Step[OF answered_one_reach worker_step.Handle[of True _ None]] by metis
  have f: "sent w = [(0, MSG_KIND_UPGRADE_TO_WEBSOCKET)]" "handler_queue w = []" "frames w = []" "websockets w = [0]" "calls w = [OnOpen 0]"
    by (simp_all add: w_def answered_one_simps)
  from websocket_calls_in_order[OF r, of 0] have "filter (\<lambda>c. callback_id c = 0) (calls w) = [OnOpen 0]"
    by (simp add: f frame_calls_def)
  then show ?thesis using r f by blast
qed

end
