(* ===== verification/Omni_Path.thy ===== *)
theory Omni_Path
  imports Omni_Cstring
begin

text \<open>
  Canonical paths in \<open>omni_vfs\<close> (\<open>pg_path_v15.c\<close>), as used on systems other than Windows.

  The code rewrites a buffer in place: \<open>parsed\<close> is what has been written so far and never gets past what is still to be read.
\<close>

section \<open>The functions\<close>

definition trim_trailing_separator :: "string \<Rightarrow> string" where
  "trim_trailing_separator path =
     (case path of [] \<Rightarrow> [] | c # cs \<Rightarrow> c # rev (dropWhile (\<lambda>d. d = CHR ''/'') (rev cs)))"

text \<open>Duplicate separators.  At the end of the path the code would go on after the terminating null character.\<close>

fun remove_adjacent :: "bool \<Rightarrow> string \<Rightarrow> string outcome" where
  "remove_adjacent was_sep [] = Inr []"
| "remove_adjacent was_sep (c # cs) =
     (if c = CHR ''/'' \<and> was_sep then
        (if cs = [] then Inl (Crash ''read past the end of the path'') else remove_adjacent was_sep cs)
      else bind_outcome (remove_adjacent (c = CHR ''/'') cs) (\<lambda>r. Inr (c # r)))"

fun back_while :: "(nat \<Rightarrow> bool) \<Rightarrow> nat \<Rightarrow> nat" where
  "back_while P 0 = 0"
| "back_while P (Suc p) = (if P (Suc p) then back_while P p else Suc p)"

definition trim_directory :: "string \<Rightarrow> string" where
  "trim_directory path =
     (if path = [] then []
      else
        let p1 = back_while (\<lambda>p. path ! p = CHR ''/'') (length path - 1);
            p2 = back_while (\<lambda>p. path ! p \<noteq> CHR ''/'') p1;
            p3 = back_while (\<lambda>p. path ! (p - 1) = CHR ''/'') p2;
            p4 = (if p3 = 0 \<and> path ! 0 = CHR ''/'' then 1 else p3) in
        take p4 path)"

definition append_subdir_to_path :: "string \<Rightarrow> string \<Rightarrow> string" where
  "append_subdir_to_path path subdir = path @ subdir"

datatype canonicalize_state =
    ABSOLUTE_PATH_INIT
  | ABSOLUTE_WITH_N_DEPTH
  | RELATIVE_PATH_INIT
  | RELATIVE_WITH_N_DEPTH
  | RELATIVE_WITH_PARENT_REF

record canon =
  cstate :: canonicalize_state
  parsed :: string
  pathdepth :: int

definition canon_component :: "string \<Rightarrow> canon \<Rightarrow> canon" where
  "canon_component dir st =
     (if dir = ''.'' then st
      else
        let is_double_dot = (dir = ''..'');
            appended = append_subdir_to_path (parsed st) dir;
            next_dir = append_subdir_to_path (parsed st @ ''/'') dir;
            trimmed = trim_directory (parsed st) in
        case cstate st of
          ABSOLUTE_PATH_INIT \<Rightarrow>
            if \<not> is_double_dot
            then \<lparr>cstate = ABSOLUTE_WITH_N_DEPTH, parsed = appended, pathdepth = pathdepth st + 1\<rparr>
            else st
        | ABSOLUTE_WITH_N_DEPTH \<Rightarrow>
            if is_double_dot
            then \<lparr>cstate = (if pathdepth st - 1 = 0 then ABSOLUTE_PATH_INIT else ABSOLUTE_WITH_N_DEPTH),
                  parsed = trimmed, pathdepth = pathdepth st - 1\<rparr>
            else st\<lparr>parsed := next_dir, pathdepth := pathdepth st + 1\<rparr>
        | RELATIVE_PATH_INIT \<Rightarrow>
            if is_double_dot then st\<lparr>cstate := RELATIVE_WITH_PARENT_REF, parsed := appended\<rparr>
            else \<lparr>cstate = RELATIVE_WITH_N_DEPTH, parsed = appended, pathdepth = pathdepth st + 1\<rparr>
        | RELATIVE_WITH_N_DEPTH \<Rightarrow>
            if is_double_dot
            then \<lparr>cstate =
                     (if pathdepth st - 1 = 0
                      then (if trimmed = [] then RELATIVE_PATH_INIT else RELATIVE_WITH_PARENT_REF)
                      else RELATIVE_WITH_N_DEPTH),
                  parsed = trimmed, pathdepth = pathdepth st - 1\<rparr>
            else st\<lparr>parsed := next_dir, pathdepth := pathdepth st + 1\<rparr>
        | RELATIVE_WITH_PARENT_REF \<Rightarrow>
            if is_double_dot then st\<lparr>parsed := next_dir\<rparr>
            else \<lparr>cstate = RELATIVE_WITH_N_DEPTH, parsed = next_dir, pathdepth = 1\<rparr>)"

function canon_loop :: "string \<Rightarrow> canon \<Rightarrow> canon" where
  "canon_loop unparse st =
     (if unparse = [] then st
      else
        let dir = takeWhile (\<lambda>c. c \<noteq> CHR ''/'') unparse;
            unparse_next = tl (dropWhile (\<lambda>c. c \<noteq> CHR ''/'') unparse) in
        canon_loop unparse_next (canon_component dir st))"
  by pat_completeness auto
termination
proof (relation "measure (\<lambda>(u, st). length u)", goal_cases)
  case (2 unparse st dir unparse_next)
  have "length (dropWhile (\<lambda>c. c \<noteq> CHR ''/'') unparse) \<le> length unparse" by (rule length_dropWhile_le)
  then show ?case using 2 by (cases "dropWhile (\<lambda>c. c \<noteq> CHR ''/'') unparse") auto
qed simp

declare canon_loop.simps [simp del]

definition canonicalize_path_15 :: "string \<Rightarrow> string outcome" where
  "canonicalize_path_15 path =
     bind_outcome (remove_adjacent False (trim_trailing_separator path)) (\<lambda>spath.
       if spath = [] then Inr []
       else
         let st = (if hd spath = CHR ''/''
                   then canon_loop (tl spath) \<lparr>cstate = ABSOLUTE_PATH_INIT, parsed = ''/'', pathdepth = 0\<rparr>
                   else canon_loop spath \<lparr>cstate = RELATIVE_PATH_INIT, parsed = [], pathdepth = 0\<rparr>) in
         Inr (if parsed st = [] then ''.'' else parsed st))"

text \<open>The working directory, or the error of asking for it, is an argument.\<close>

definition make_absolute_path_15 :: "string outcome \<Rightarrow> string \<Rightarrow> string outcome" where
  "make_absolute_path_15 getcwd path =
     (if path \<noteq> [] \<and> hd path = CHR ''/'' then canonicalize_path_15 path
      else bind_outcome getcwd (\<lambda>buf. canonicalize_path_15 (buf @ ''/'' @ path)))"

section \<open>Paths as lists of names\<close>

fun split_path :: "string \<Rightarrow> string list" where
  "split_path [] = [[]]"
| "split_path (c # cs) = (if c = CHR ''/'' then [] # split_path cs else (c # hd (split_path cs)) # tl (split_path cs))"

definition components :: "string \<Rightarrow> string list" where
  "components path = filter (\<lambda>n. n \<noteq> [] \<and> n \<noteq> ''.'') (split_path path)"

text \<open>A name is added to those before it; \<open>..\<close> takes away the last one, if there is one that can be taken away.\<close>

definition push_name :: "bool \<Rightarrow> string list \<Rightarrow> string \<Rightarrow> string list" where
  "push_name absolute ns n =
     (if n = ''..'' then
        (if ns \<noteq> [] \<and> last ns \<noteq> ''..'' then butlast ns
         else if absolute then ns else ns @ [''..''])
      else ns @ [n])"

definition reduce_names :: "bool \<Rightarrow> string list \<Rightarrow> string list" where
  "reduce_names absolute = foldl (push_name absolute) []"

fun join :: "string list \<Rightarrow> string" where
  "join [] = []"
| "join (n # ns) = n @ concat (map (\<lambda>m. CHR ''/'' # m) ns)"

definition is_absolute :: "string \<Rightarrow> bool" where
  "is_absolute path = (path \<noteq> [] \<and> hd path = CHR ''/'')"

definition render :: "bool \<Rightarrow> string list \<Rightarrow> string" where
  "render absolute ns = (if absolute then ''/'' else []) @ join ns"

definition canonical_path :: "string \<Rightarrow> string" where
  "canonical_path path =
     (if path = [] then []
      else
        let r = render (is_absolute path) (reduce_names (is_absolute path) (components path)) in
        if r = [] then ''.'' else r)"

section \<open>The code on lists of names\<close>

definition is_name :: "string \<Rightarrow> bool" where
  "is_name n = (n \<noteq> [] \<and> CHR ''/'' \<notin> set n)"

lemma back_while_down:
  assumes "\<And>k. p < k \<Longrightarrow> k \<le> q \<Longrightarrow> P k" "p \<le> q" "p = 0 \<or> \<not> P p"
  shows "back_while P q = p"
  using assms(1,2)
proof (induction q)
  case (Suc q)
  show ?case
  proof (cases "p = Suc q")
    case True
    then show ?thesis using assms(3) by simp
  next
    case False
    then have "P (Suc q)" "back_while P q = p" using Suc by auto
    then show ?thesis by simp
  qed
qed simp

lemma is_nameD: "is_name n \<Longrightarrow> n \<noteq> []" "is_name n \<Longrightarrow> k < length n \<Longrightarrow> n ! k \<noteq> CHR ''/''"
  by (auto simp: is_name_def in_set_conv_nth)

lemma trim_directory_slash:
  assumes "is_name n" "s \<noteq> []" "last s \<noteq> CHR ''/''"
  shows "trim_directory (s @ ''/'' @ n) = s"
proof -
  define path where "path = s @ ''/'' @ n"
  have len: "length path = Suc (length s + length n)" by (simp add: path_def)
  have after: "path ! k = n ! (k - length s - 1)" if "length s < k" for k
    using that by (simp add: path_def nth_append nth_Cons')
  have name: "path ! k \<noteq> CHR ''/''" if "length s < k" "k \<le> length path - 1" for k
    unfolding after[OF that(1)] by (rule is_nameD(2)[OF assms(1)]) (use that len in simp)
  have sep: "path ! length s = CHR ''/''" "path ! (length s - 1) \<noteq> CHR ''/''" "length s < length path - 1"
    using assms is_nameD(1)[OF assms(1)] by (simp_all add: path_def nth_append last_conv_nth)
  have p1: "back_while (\<lambda>p. path ! p = CHR ''/'') (length path - 1) = length path - 1"
    by (rule back_while_down) (use name sep(3) in simp_all)
  have p2: "back_while (\<lambda>p. path ! p \<noteq> CHR ''/'') (length path - 1) = length s"
    by (rule back_while_down) (use name sep in simp_all)
  have p3: "back_while (\<lambda>p. path ! (p - 1) = CHR ''/'') (length s) = length s"
    by (rule back_while_down) (use sep in simp_all)
  have "path \<noteq> []" "take (length s) path = s" by (simp_all add: path_def)
  then show ?thesis unfolding path_def[symmetric] trim_directory_def Let_def p1 p2 p3 using assms(2) by simp
qed

lemma trim_directory_first:
  assumes "is_name n"
  shows "trim_directory n = []" "trim_directory (''/'' @ n) = ''/''"
proof -
  note n = is_nameD[OF assms]
  have n0: "0 < length n" using n(1) by simp
  have "back_while (\<lambda>p. n ! p = CHR ''/'') (length n - 1) = length n - 1"
    by (rule back_while_down) (use n n0 in simp_all)
  moreover have "back_while (\<lambda>p. n ! p \<noteq> CHR ''/'') (length n - 1) = 0"
    by (rule back_while_down) (use n n0 in simp_all)
  ultimately show "trim_directory n = []" using n n0 by (simp add: trim_directory_def)
  have name: "(''/'' @ n) ! k \<noteq> CHR ''/''" if "0 < k" "k \<le> length n" for k
    using that n(2)[of "k - 1"] by (simp add: nth_Cons')
  have "back_while (\<lambda>p. (''/'' @ n) ! p = CHR ''/'') (length n) = length n"
    by (rule back_while_down) (use name n0 in simp_all)
  moreover have "back_while (\<lambda>p. (''/'' @ n) ! p \<noteq> CHR ''/'') (length n) = 0"
    by (rule back_while_down) (use name n0 in simp_all)
  ultimately show "trim_directory (''/'' @ n) = ''/''" by (simp add: trim_directory_def)
qed

lemma join_snoc: "join (ns @ [n]) = (if ns = [] then n else join ns @ ''/'' @ n)"
  by (cases ns) auto

lemma render_snoc: "render a (ns @ [n]) = (if ns = [] then (if a then ''/'' else []) @ n else render a ns @ ''/'' @ n)"
  by (simp add: render_def join_snoc)

lemma last_render:
  assumes "list_all is_name ns" "ns \<noteq> []"
  shows "render a ns \<noteq> [] \<and> last (render a ns) \<noteq> CHR ''/''"
proof -
  obtain ms n where ns: "ns = ms @ [n]" using assms(2) by (cases ns rule: rev_cases) auto
  then have "is_name n" using assms(1) by simp
  then have "n \<noteq> []" "last n \<noteq> CHR ''/''" unfolding is_name_def by (metis last_in_set)+
  then show ?thesis by (simp add: ns render_snoc)
qed

lemma trim_directory_render:
  assumes "list_all is_name ns" "ns \<noteq> []"
  shows "trim_directory (render a ns) = render a (butlast ns)"
proof -
  obtain ms n where ns: "ns = ms @ [n]" using assms(2) by (cases ns rule: rev_cases) auto
  then have n: "is_name n" "list_all is_name ms" using assms(1) by simp_all
  show ?thesis
  proof (cases "ms = []")
    case True
    then show ?thesis using trim_directory_first[OF n(1)] by (simp add: ns render_def)
  next
    case False
    then show ?thesis using trim_directory_slash[OF n(1)] last_render[OF n(2) False] by (simp add: ns render_snoc)
  qed
qed

text \<open>The states that the loop goes through: names of an absolute path, and names after some \<open>..\<close> of a relative one.\<close>

definition absolute_canon :: "string list \<Rightarrow> canon" where
  "absolute_canon ns =
     \<lparr>cstate = (if ns = [] then ABSOLUTE_PATH_INIT else ABSOLUTE_WITH_N_DEPTH), parsed = render True ns,
      pathdepth = int (length ns)\<rparr>"

definition relative_canon :: "nat \<Rightarrow> string list \<Rightarrow> canon" where
  "relative_canon k ns =
     \<lparr>cstate = (if ns \<noteq> [] then RELATIVE_WITH_N_DEPTH else if k = 0 then RELATIVE_PATH_INIT else RELATIVE_WITH_PARENT_REF),
      parsed = render False (replicate k ''..'' @ ns), pathdepth = int (length ns)\<rparr>"

lemmas canon_defs = canon_component_def append_subdir_to_path_def Let_def

definition plain_names :: "string list \<Rightarrow> bool" where
  "plain_names ns = (list_all is_name ns \<and> ''..'' \<notin> set ns)"

lemma plain_names_simps [simp]:
  "plain_names []" "plain_names (ns @ ms) \<longleftrightarrow> plain_names ns \<and> plain_names ms"
  "plain_names (n # ns) \<longleftrightarrow> is_name n \<and> n \<noteq> ''..'' \<and> plain_names ns"
  by (auto simp: plain_names_def)

lemma names_replicate: "list_all is_name (replicate k ''..'')"
  by (auto simp: list_all_iff is_name_def)

lemma canon_component_absolute:
  assumes "plain_names ns" "d \<noteq> ''.''"
  shows "canon_component d (absolute_canon ns) = absolute_canon (push_name True ns d)"
proof (cases ns rule: rev_cases)
  case Nil
  then show ?thesis using assms(2) by (simp add: canon_defs absolute_canon_def push_name_def render_def)
next
  case (snoc ms m)
  then have trim: "trim_directory (render True (ms @ [m])) = render True ms" "m \<noteq> ''..''"
    using trim_directory_render[of ns True] assms(1) by (auto simp: plain_names_def)
  show ?thesis
  proof (cases "d = ''..''")
    case True
    then show ?thesis using trim by (simp add: snoc canon_defs absolute_canon_def push_name_def)
  next
    case False
    then show ?thesis using assms(2) render_snoc[of True "ms @ [m]" d] by (simp add: snoc canon_defs absolute_canon_def push_name_def)
  qed
qed

lemma canon_component_relative:
  assumes "plain_names ns" "d \<noteq> ''.''"
  shows "canon_component d (relative_canon k ns) =
    (if d \<noteq> ''..'' then relative_canon k (ns @ [d])
     else if ns = [] then relative_canon (Suc k) [] else relative_canon k (butlast ns))"
proof (cases ns rule: rev_cases)
  case Nil
  have "render False (replicate (Suc k) ''..'') = (if k = 0 then ''..'' else render False (replicate k ''..'') @ ''/..'')"
    unfolding replicate_Suc replicate_append_same[symmetric] render_snoc by simp
  moreover have "render False (replicate k ''..'' @ [d]) = (if k = 0 then d else render False (replicate k ''..'') @ ''/'' @ d)"
    unfolding render_snoc by simp
  ultimately show ?thesis using Nil assms(2) by (simp add: canon_defs relative_canon_def render_def[of False "[]"])
next
  case (snoc ms m)
  have names: "list_all is_name (replicate k ''..'' @ ns)" using assms(1) by (simp add: plain_names_def names_replicate)
  have trim: "trim_directory (render False (replicate k ''..'' @ ms @ [m])) = render False (replicate k ''..'' @ ms)"
    using trim_directory_render[OF names, of False] by (simp add: snoc butlast_append)
  have "list_all is_name (replicate k ''..'' @ ms)" using assms(1) by (simp add: plain_names_def names_replicate snoc)
  from last_render[OF this, of False]
  have empty: "render False (replicate k ''..'' @ ms) = [] \<longleftrightarrow> k = 0 \<and> ms = []"
    by (cases "replicate k ''..'' @ ms = []") (auto simp: render_def)
  have add: "render False (replicate k ''..'' @ ms @ [m, d]) = render False (replicate k ''..'' @ ms @ [m]) @ ''/'' @ d"
    using render_snoc[of False "replicate k ''..'' @ ms @ [m]" d] by simp
  show ?thesis
  proof (cases "d = ''..''")
    case True
    then show ?thesis using trim empty by (cases "k = 0"; cases "ms = []") (simp_all add: snoc canon_defs relative_canon_def)
  next
    case False
    then show ?thesis using assms(2) add by (simp add: snoc canon_defs relative_canon_def)
  qed
qed

section \<open>The loop\<close>

lemma split_path_unfold:
  "split_path s = takeWhile (\<lambda>c. c \<noteq> CHR ''/'') s #
     (case dropWhile (\<lambda>c. c \<noteq> CHR ''/'') s of [] \<Rightarrow> [] | _ # r \<Rightarrow> split_path r)"
  by (induction s) auto

lemma split_path_not_Nil [simp]: "split_path s \<noteq> []"
  by (cases s) auto

lemma split_path_append: "split_path (x @ CHR ''/'' # y) = split_path x @ split_path y"
  by (induction x) auto

lemma split_path_names: "n \<in> set (split_path s) \<Longrightarrow> CHR ''/'' \<notin> set n"
proof (induction s arbitrary: n)
  case (Cons c s)
  have "set (split_path s) = insert (hd (split_path s)) (set (tl (split_path s)))"
    by (metis list.exhaust_sel list.simps(15) split_path_not_Nil)
  then show ?case using Cons by (auto split: if_splits)
qed simp

lemma components_names: "n \<in> set (components s) \<Longrightarrow> is_name n \<and> n \<noteq> ''.''"
  by (auto simp: components_def is_name_def dest: split_path_names)

lemma push_name_plain: "plain_names ns \<Longrightarrow> is_name d \<Longrightarrow> plain_names (push_name True ns d)"
  by (cases ns rule: rev_cases) (auto simp: push_name_def)

text \<open>What the loop does with a component, and with all of them if none is empty.\<close>

lemma canon_loop_components:
  assumes "s = [] \<or> [] \<notin> set (split_path s)"
  shows "canon_loop s st = foldl (\<lambda>st n. canon_component n st) st (filter (\<lambda>n. n \<noteq> ''.'') (if s = [] then [] else split_path s))"
  using assms
proof (induction "length s" arbitrary: s st rule: less_induct)
  case less
  show ?case
  proof (cases "s = []")
    case True
    then show ?thesis by (simp add: canon_loop.simps[of "[]"])
  next
    case False
    define d where "d = takeWhile (\<lambda>c. c \<noteq> CHR ''/'') s"
    define u where "u = tl (dropWhile (\<lambda>c. c \<noteq> CHR ''/'') s)"
    have loop: "canon_loop s st = canon_loop u (canon_component d st)"
      using False by (subst canon_loop.simps) (simp add: d_def u_def Let_def)
    have skip: "canon_component ''.'' x = x" for x by (simp add: canon_component_def)
    show ?thesis
    proof (cases "dropWhile (\<lambda>c. c \<noteq> CHR ''/'') s")
      case Nil
      have "u = []" by (simp add: u_def Nil)
      moreover have "split_path s = [d]" by (subst split_path_unfold) (simp add: d_def Nil)
      ultimately show ?thesis using False skip by (auto simp: loop canon_loop.simps[of "[]"])
    next
      case (Cons c r)
      then have sp: "split_path s = d # split_path u" by (subst split_path_unfold) (simp add: d_def u_def)
      then have u: "[] \<notin> set (split_path u)" using less.prems False by simp
      then have "u \<noteq> []" by auto
      have "length u < length s" using Cons by (metis length_Cons length_dropWhile_le less_eq_Suc_le list.sel(3) u_def)
      then have "canon_loop u (canon_component d st) =
          foldl (\<lambda>st n. canon_component n st) (canon_component d st) (filter (\<lambda>n. n \<noteq> ''.'') (split_path u))"
        using less.hyps[of u] u \<open>u \<noteq> []\<close> by simp
      then show ?thesis using False skip by (simp add: loop sp)
    qed
  qed
qed

lemma fold_absolute:
  assumes "plain_names ns" "\<forall>d\<in>set ds. is_name d \<and> d \<noteq> ''.''"
  shows "foldl (\<lambda>st n. canon_component n st) (absolute_canon ns) ds = absolute_canon (foldl (push_name True) ns ds) \<and>
    plain_names (foldl (push_name True) ns ds)"
  using assms
proof (induction ds arbitrary: ns)
  case (Cons d ds)
  then show ?case using canon_component_absolute[of ns d] push_name_plain[of ns d] by simp
qed simp

lemma fold_relative:
  assumes "plain_names ns" "\<forall>d\<in>set ds. is_name d \<and> d \<noteq> ''.''"
  shows "\<exists>j ms. foldl (\<lambda>st n. canon_component n st) (relative_canon k ns) ds = relative_canon j ms \<and> plain_names ms \<and>
    foldl (push_name False) (replicate k ''..'' @ ns) ds = replicate j ''..'' @ ms"
  using assms
proof (induction ds arbitrary: k ns)
  case (Cons d ds)
  define k' where "k' = (if d = ''..'' \<and> ns = [] then Suc k else k)"
  define ns' where "ns' = (if d \<noteq> ''..'' then ns @ [d] else butlast ns)"
  have step: "canon_component d (relative_canon k ns) = relative_canon k' ns'"
    using canon_component_relative[of ns d k] Cons.prems by (simp add: k'_def ns'_def)
  have ns': "plain_names ns'" using Cons.prems by (cases ns rule: rev_cases) (auto simp: ns'_def)
  have "push_name False (replicate k ''..'' @ ns) d = replicate k' ''..'' @ ns'"
    using Cons.prems
    by (cases ns rule: rev_cases; cases k)
      (auto simp: push_name_def k'_def ns'_def butlast_append replicate_append_same)
  then show ?case using Cons.IH[of ns' k'] ns' Cons.prems(2) by (simp add: step)
qed auto

section \<open>Separators\<close>

definition nonempty :: "string list \<Rightarrow> string list" where
  "nonempty ns = filter (\<lambda>n. n \<noteq> []) ns"

lemma nonempty_simps [simp]:
  "nonempty [] = []" "nonempty ([] # ns) = nonempty ns" "nonempty ((c # n) # ns) = (c # n) # nonempty ns"
  "nonempty (ns @ ms) = nonempty ns @ nonempty ms"
  by (simp_all add: nonempty_def)

lemma components_nonempty: "components s = filter (\<lambda>n. n \<noteq> ''.'') (nonempty (split_path s))"
  by (simp add: components_def nonempty_def filter_filter conj_commute)

lemma nonempty_eq: "[] \<notin> set ns \<Longrightarrow> nonempty ns = ns"
  by (auto simp: nonempty_def filter_id_conv)

lemma remove_adjacent_ok:
  assumes "t \<noteq> []" "last t \<noteq> CHR ''/''"
  shows "\<exists>s. remove_adjacent ws t = Inr s \<and> s \<noteq> [] \<and> (\<not> ws \<longrightarrow> hd s = hd t) \<and>
    nonempty (split_path s) = nonempty (split_path t) \<and> [] \<notin> set (tl (split_path s)) \<and> (ws \<longrightarrow> hd (split_path s) \<noteq> [])"
  using assms
proof (induction t arbitrary: ws)
  case (Cons c t)
  show ?case
  proof (cases "t = []")
    case True
    then show ?thesis using Cons.prems by simp
  next
    case False
    then have t: "last t \<noteq> CHR ''/''" using Cons.prems(2) by simp
    obtain s where s: "remove_adjacent (c = CHR ''/'') t = Inr s" "s \<noteq> []"
      "nonempty (split_path s) = nonempty (split_path t)" "[] \<notin> set (tl (split_path s))"
      "c = CHR ''/'' \<longrightarrow> hd (split_path s) \<noteq> []" "c \<noteq> CHR ''/'' \<longrightarrow> hd s = hd t"
      using Cons.IH[OF False t, of "c = CHR ''/''"] by blast
    have hd_tl: "split_path x = hd (split_path x) # tl (split_path x)" for x by simp
    show ?thesis
    proof (cases "c = CHR ''/''")
      case True
      have "[] \<notin> set (split_path s)" using s(4,5) True by (metis hd_tl set_ConsD)
      then show ?thesis using s True False by (cases ws) auto
    next
      case c: False
      have "nonempty (hd (split_path s) # tl (split_path s)) = nonempty (hd (split_path t) # tl (split_path t))"
        using s(3) by simp
      moreover have "hd (split_path s) = [] \<longleftrightarrow> hd (split_path t) = []"
        using s(6) c s(2) False by (cases s; cases t) auto
      ultimately have "hd (split_path s) = hd (split_path t) \<and> nonempty (tl (split_path s)) = nonempty (tl (split_path t))"
        by (cases "hd (split_path s)"; cases "hd (split_path t)") auto
      then show ?thesis using s c by auto
    qed
  qed
qed simp

lemma split_trailing: "nonempty (split_path (x @ replicate k (CHR ''/''))) = nonempty (split_path x)"
proof (induction k)
  case (Suc k)
  have "x @ replicate (Suc k) (CHR ''/'') = (x @ replicate k (CHR ''/'')) @ CHR ''/'' # []"
    by (simp add: replicate_append_same)
  then show ?case using Suc by (simp only: split_path_append nonempty_simps split_path.simps append_Nil2)
qed simp

lemma trim_trailing_separator_Cons:
  "\<exists>k t. cs = t @ replicate k (CHR ''/'') \<and> trim_trailing_separator (c # cs) = c # t \<and> (t = [] \<or> last t \<noteq> CHR ''/'')"
proof -
  define t where "t = rev (dropWhile (\<lambda>d. d = CHR ''/'') (rev cs))"
  define e where "e = takeWhile (\<lambda>d. d = CHR ''/'') (rev cs)"
  have "rev cs = e @ rev t" by (simp add: t_def e_def)
  then have "cs = t @ rev e" by (metis rev_append rev_rev_ident)
  moreover have "\<forall>d\<in>set e. d = CHR ''/''" by (auto simp: e_def dest: set_takeWhileD)
  then have "rev e = replicate (length e) (CHR ''/'')" by (metis length_rev replicate_length_same set_rev)
  moreover have "t = [] \<or> last t \<noteq> CHR ''/''"
    by (cases "dropWhile (\<lambda>d. d = CHR ''/'') (rev cs)") (auto simp: t_def last_rev dest: dropWhile_eq_Cons_conv[THEN iffD1])
  ultimately show ?thesis by (auto simp: trim_trailing_separator_def t_def)
qed

text \<open>The path without extra separators: it starts as before, has the same names, and no empty ones.\<close>

lemma separators_removed:
  "\<exists>s. remove_adjacent False (trim_trailing_separator (c # cs)) = Inr (c # s) \<and>
    nonempty (split_path (c # s)) = nonempty (split_path (c # cs)) \<and>
    (if c = CHR ''/'' then s = [] \<or> [] \<notin> set (split_path s) else [] \<notin> set (split_path (c # s)))"
proof -
  obtain k t where t: "cs = t @ replicate k (CHR ''/'')" "trim_trailing_separator (c # cs) = c # t" "t = [] \<or> last t \<noteq> CHR ''/''"
    using trim_trailing_separator_Cons by blast
  have same: "nonempty (split_path (c # cs)) = nonempty (split_path (c # t))"
    using split_trailing[of "c # t" k] by (simp only: t(1) append_Cons)
  show ?thesis
  proof (cases "t = [] \<and> c = CHR ''/''")
    case True
    then show ?thesis using same t(2) by auto
  next
    case False
    then have last: "last (c # t) \<noteq> CHR ''/''" using t(3) by auto
    obtain x where x: "remove_adjacent False (c # t) = Inr x" "x \<noteq> []" "hd x = c"
      "nonempty (split_path x) = nonempty (split_path (c # t))" "[] \<notin> set (tl (split_path x))"
      using remove_adjacent_ok[OF _ last, of False] by auto
    then obtain s where s: "x = c # s" by (cases x) auto
    have "if c = CHR ''/'' then [] \<notin> set (split_path s) else [] \<notin> set (split_path (c # s))"
      using x(5) by (auto simp: s)
    then show ?thesis using x s same t(2) by auto
  qed
qed

section \<open>Canonical paths\<close>

lemma canonicalize_eq: "canonicalize_path_15 path = Inr (canonical_path path)"
proof (cases path)
  case Nil
  then show ?thesis by (simp add: canonicalize_path_15_def canonical_path_def trim_trailing_separator_def)
next
  case (Cons c cs)
  obtain s where s: "remove_adjacent False (trim_trailing_separator (c # cs)) = Inr (c # s)"
    "nonempty (split_path (c # s)) = nonempty (split_path (c # cs))"
    "if c = CHR ''/'' then s = [] \<or> [] \<notin> set (split_path s) else [] \<notin> set (split_path (c # s))"
    using separators_removed by blast
  have comps: "components path = components (c # s)" using s(2) by (simp add: Cons components_nonempty)
  have names: "\<forall>d\<in>set (components x). is_name d \<and> d \<noteq> ''.''" for x using components_names by blast
  show ?thesis
  proof (cases "c = CHR ''/''")
    case True
    then have cs: "components (c # s) = filter (\<lambda>n. n \<noteq> ''.'') (if s = [] then [] else split_path s)"
      using s(3) nonempty_eq[of "split_path s"] by (cases "s = []") (simp_all add: components_nonempty)
    have "absolute_canon [] = \<lparr>cstate = ABSOLUTE_PATH_INIT, parsed = ''/'', pathdepth = 0\<rparr>"
      by (simp add: absolute_canon_def render_def)
    moreover have "canon_loop s (absolute_canon []) = absolute_canon (reduce_names True (components path))"
      using canon_loop_components[of s "absolute_canon []"] s(3) True fold_absolute[of "[]", OF _ names, of "c # s"]
      unfolding comps cs[symmetric] reduce_names_def by simp
    moreover have "render True ns \<noteq> []" for ns by (simp add: render_def)
    ultimately show ?thesis using s(1) True
      by (simp add: Cons canonicalize_path_15_def canonical_path_def absolute_canon_def is_absolute_def)
  next
    case False
    then have ne: "[] \<notin> set (split_path (c # s))" using s(3) by (simp only: if_False simp_thms)
    have "components (c # s) = filter (\<lambda>n. n \<noteq> ''.'') (split_path (c # s))"
      unfolding components_nonempty nonempty_eq[OF ne] by (rule refl)
    moreover have "relative_canon 0 [] = \<lparr>cstate = RELATIVE_PATH_INIT, parsed = [], pathdepth = 0\<rparr>"
      by (simp add: relative_canon_def render_def)
    ultimately obtain j ms where "canon_loop (c # s) \<lparr>cstate = RELATIVE_PATH_INIT, parsed = [], pathdepth = 0\<rparr> = relative_canon j ms"
      "reduce_names False (components path) = replicate j ''..'' @ ms"
      using canon_loop_components[of "c # s" "relative_canon 0 []"] s(3) False fold_relative[of "[]", OF _ names, of 0 "c # s"]
      by (auto simp: comps reduce_names_def simp del: split_path.simps)
    then show ?thesis using s(1) False
      by (simp add: Cons canonicalize_path_15_def canonical_path_def relative_canon_def is_absolute_def Let_def)
  qed
qed

lemma split_path_name: "CHR ''/'' \<notin> set n \<Longrightarrow> split_path n = [n]"
  by (induction n) auto

lemma split_path_join:
  assumes "list_all is_name ns" "ns \<noteq> []"
  shows "split_path (join ns) = ns"
  using assms
proof (induction ns rule: rev_induct)
  case (snoc n ns)
  then have "split_path n = [n]" by (simp add: is_name_def split_path_name)
  then show ?case using snoc by (cases "ns = []") (simp_all add: join_snoc split_path_append)
qed simp

lemma components_render:
  assumes "list_all is_name ns" "''.'' \<notin> set ns"
  shows "components (render a ns) = ns"
proof (cases "ns = []")
  case True
  then show ?thesis by (simp add: components_def render_def)
next
  case False
  have "filter (\<lambda>n. n \<noteq> [] \<and> n \<noteq> ''.'') ns = ns"
    using assms by (auto simp: filter_id_conv list_all_iff is_name_def)
  then show ?thesis using split_path_join[OF assms(1) False] by (simp add: components_def render_def)
qed

lemma is_absolute_render: "list_all is_name ns \<Longrightarrow> is_absolute (render a ns) = a"
  by (cases ns; cases "hd ns") (auto simp: is_absolute_def render_def is_name_def)

lemma foldl_push_plain: "plain_names ms \<Longrightarrow> foldl (push_name a) ns ms = ns @ ms"
  by (induction ms arbitrary: ns) (auto simp: push_name_def)

lemma foldl_push_parents: "foldl (push_name False) (replicate j ''..'') (replicate k ''..'') = replicate (j + k) ''..''"
proof (induction k arbitrary: j)
  case (Suc k)
  have "push_name False (replicate j ''..'') ''..'' = replicate (Suc j) ''..''"
    by (cases j) (simp_all add: push_name_def replicate_append_same)
  then show ?case using Suc[of "Suc j"] by simp
qed simp

text \<open>Names that are left: no \<open>..\<close> in an absolute path, and only at the start of a relative one.\<close>

lemma reduce_names_shape:
  assumes "\<forall>d\<in>set ds. is_name d \<and> d \<noteq> ''.''"
  shows "\<exists>k ms. reduce_names a ds = replicate k ''..'' @ ms \<and> plain_names ms \<and> (a \<longrightarrow> k = 0)"
proof (cases a)
  case True
  then show ?thesis using fold_absolute[of "[]", OF _ assms] by (auto simp: reduce_names_def)
next
  case False
  then show ?thesis using fold_relative[of "[]", OF _ assms, of 0] by (auto simp: reduce_names_def)
qed

lemma set_push_name: "set (push_name a ns d) \<subseteq> insert d (set ns)"
  by (auto simp: push_name_def dest: in_set_butlastD)

lemma set_reduce_names: "set (reduce_names a ds) \<subseteq> set ds"
proof -
  have "set (foldl (push_name a) ns ds) \<subseteq> set ns \<union> set ds" for ns
  proof (induction ds arbitrary: ns)
    case (Cons d ds)
    then show ?case using set_push_name[of a ns d] by fastforce
  qed simp
  from this[of "[]"] show ?thesis by (simp add: reduce_names_def)
qed

lemma reduce_names_components: "list_all is_name (reduce_names a (components s))" "''.'' \<notin> set (reduce_names a (components s))"
  using set_reduce_names[of a "components s"] components_names by (auto simp: list_all_iff)

lemma reduce_names_again: "reduce_names a (reduce_names a (components s)) = reduce_names a (components s)"
proof -
  obtain k ms where "reduce_names a (components s) = replicate k ''..'' @ ms" "plain_names ms" "a \<longrightarrow> k = 0"
    using reduce_names_shape[of "components s" a] components_names by blast
  then show ?thesis
    using foldl_push_parents[of 0 k] foldl_push_plain[of ms a] by (cases a) (simp_all add: reduce_names_def)
qed

lemma canonical_path_again: "canonical_path (canonical_path path) = canonical_path path"
proof (cases "path = [] \<or> render (is_absolute path) (reduce_names (is_absolute path) (components path)) = []")
  case True
  then show ?thesis by (auto simp: canonical_path_def is_absolute_def components_def reduce_names_def render_def)
next
  case False
  then show ?thesis
    using components_render[OF reduce_names_components] is_absolute_render[OF reduce_names_components(1)] reduce_names_again
    by (simp add: canonical_path_def Let_def)
qed

definition names_size :: "string list \<Rightarrow> nat" where
  "names_size ns = sum_list (map (\<lambda>n. Suc (length n)) ns)"

lemma names_size_simps [simp]: "names_size [] = 0" "names_size (n # ns) = Suc (length n) + names_size ns"
  "names_size (ns @ ms) = names_size ns + names_size ms"
  by (simp_all add: names_size_def)

lemma length_join: "length (join ns) = names_size ns - 1"
proof (cases ns)
  case (Cons n ms)
  have "length (concat (map (\<lambda>m. CHR ''/'' # m) ms)) = names_size ms" by (induction ms) auto
  then have "length (join ns) = length n + names_size ms" by (simp only: Cons join.simps length_append)
  then show ?thesis by (simp add: Cons)
qed simp

lemma size_reduce_names: "names_size (reduce_names a ds) \<le> names_size ds"
proof -
  have "names_size (push_name a ns d) \<le> names_size ns + Suc (length d)" for ns d
    by (cases ns rule: rev_cases) (auto simp: push_name_def)
  then have push: "names_size (push_name a ns d) \<le> Suc (names_size ns + length d)" for ns d by simp
  have "names_size (foldl (push_name a) ns ds) \<le> names_size ns + names_size ds" for ns
  proof (induction ds arbitrary: ns)
    case (Cons d ds)
    show ?case using Cons.IH[of "push_name a ns d"] push[of ns d] by simp
  qed simp
  from this[of "[]"] show ?thesis by (simp add: reduce_names_def)
qed

lemma size_components: "names_size (components s) \<le> Suc (length s)"
proof -
  have size: "names_size (split_path s) = Suc (length s)"
  proof (induction s)
    case (Cons c s)
    then show ?case by (cases "split_path s") auto
  qed simp
  have "names_size (filter P ns) \<le> names_size ns" for P ns by (induction ns) auto
  then show ?thesis unfolding components_def size[symmetric] .
qed

lemma length_canonical_path: "length (canonical_path path) \<le> length path"
proof (cases path)
  case (Cons c cs)
  have "names_size (components path) \<le> (if is_absolute path then length path else Suc (length path))"
    using size_components[of path] size_components[of cs] by (auto simp: Cons is_absolute_def components_def)
  then have "names_size (reduce_names (is_absolute path) (components path)) \<le> (if is_absolute path then length path else Suc (length path))"
    using size_reduce_names order_trans by blast
  then show ?thesis using Cons by (auto simp: canonical_path_def Let_def render_def length_join)
qed (simp add: canonical_path_def)

lemma canonical_absolute: "is_absolute path \<Longrightarrow> canonical_path path = render True (reduce_names True (components path))"
  by (auto simp: canonical_path_def is_absolute_def Let_def render_def)

lemma components_slash: "components (x @ CHR ''/'' # y) = components x @ components y"
  by (simp add: components_def split_path_append)

lemma make_absolute_path_eq:
  "make_absolute_path_15 getcwd path =
    (if is_absolute path then Inr (render True (reduce_names True (components path)))
     else bind_outcome getcwd (\<lambda>buf. Inr (canonical_path (buf @ ''/'' @ path))))"
  by (auto simp: make_absolute_path_15_def is_absolute_def[symmetric] canonicalize_eq canonical_absolute)

lemma set_components: "n \<in> set (components s) \<Longrightarrow> set n \<subseteq> set s"
proof -
  have "n \<in> set (split_path s) \<Longrightarrow> set n \<subseteq> set s"
  proof (induction s arbitrary: n)
    case (Cons c s)
    have "set (split_path s) = insert (hd (split_path s)) (set (tl (split_path s)))"
      by (metis list.exhaust_sel list.simps(15) split_path_not_Nil)
    then show ?case using Cons by (fastforce split: if_splits)
  qed simp
  then show "n \<in> set (components s) \<Longrightarrow> set n \<subseteq> set s" by (simp add: components_def)
qed

text \<open>
  C11: The function that makes a path canonical in place implements the removal of empty names, of \<open>.\<close> and of names before \<open>..\<close>; it never reads past
  the end of the path, does not make the path longer, and leaves a canonical path as it is.
\<close>

theorem canonicalize_is_reduction:
  "canonicalize_path_15 path = Inr (canonical_path path) \<and> length (canonical_path path) \<le> length path \<and>
   canonicalize_path_15 (canonical_path path) = Inr (canonical_path path)"
  using canonicalize_eq canonical_path_again length_canonical_path by simp

end
