(* ===== verification/Omni_Vfs.thy ===== *)
theory Omni_Vfs
  imports Omni_Path "HOL-Library.Sublist"
begin

text \<open>
  The local file system of \<open>omni_vfs\<close> (\<open>local_fs.c\<close>) and its path functions (\<open>omni_vfs.c\<close>).

  The table of mounts is a list of rows, the file system a table of nodes by their absolute path, without links.  Row security of the table,
  errors of the system, and the function of PostgreSQL that creates directories are fields of an environment; queries are taken to
  be executed without failure.
\<close>

section \<open>Paths\<close>

text \<open>The place of the last separator, and the path functions.\<close>

definition last_dir_separator :: "string \<Rightarrow> nat option" where
  "last_dir_separator path =
     (if CHR ''/'' \<in> set path then Some (length path - 1 - length (takeWhile (\<lambda>c. c \<noteq> CHR ''/'') (rev path))) else None)"

definition canonicalize_path_pg :: "string option \<Rightarrow> bool option \<Rightarrow> string option outcome" where
  "canonicalize_path_pg path absolute =
     (case path of
        None \<Rightarrow> Inr None
      | Some p \<Rightarrow>
          if p \<noteq> [] then
            bind_outcome (canonicalize_path_15 p) (\<lambda>cpath.
              Inr (Some (if absolute = Some True \<and> char_at cpath \<noteq> CHR ''/'' then ''/'' @ cpath else cpath)))
          else Inr (Some ''/''))"

definition file_basename :: "string option \<Rightarrow> string option" where
  "file_basename path =
     (case path of
        None \<Rightarrow> None
      | Some p \<Rightarrow> (case last_dir_separator p of None \<Rightarrow> Some p | Some i \<Rightarrow> Some (drop (i + 1) p)))"

definition file_dirname :: "string option \<Rightarrow> string option" where
  "file_dirname path =
     (case path of
        None \<Rightarrow> None
      | Some p \<Rightarrow> (case last_dir_separator p of None \<Rightarrow> Some p | Some i \<Rightarrow> Some (if i > 0 then take i p else ''/'')))"

definition PATH_LIMIT :: nat where "PATH_LIMIT = 4096"

text \<open>A path in a mount.  The last message is made of paths that have been freed.\<close>

definition subpath :: "string outcome \<Rightarrow> string \<Rightarrow> string \<Rightarrow> string outcome" where
  "subpath getcwd parent child =
     bind_outcome (make_absolute_path_15 getcwd parent) (\<lambda>absolute_parent.
       let tmp_parent = take (PATH_LIMIT - 1) (absolute_parent @ ''/'' @ child) in
       bind_outcome (make_absolute_path_15 getcwd tmp_parent) (\<lambda>sub.
         let parent_len = length absolute_parent in
         if parent_len > length sub then elog_error ''requested path is outside of the mount point''
         else if strncmp_equal absolute_parent sub parent_len then Inr sub
         else Inl (Crash ''freed paths in a message'')))"

section \<open>Mounts\<close>

datatype errno = EPERM | ENOENT | EACCES | EISDIR | OtherError

datatype access = Stat | OpenRead | OpenWrite | OpenDir

datatype node = Dir | File "byte list"

type_synonym nodes = "(string, node) htab"

datatype d_type = DT_DIR | DT_REG | DT_OTHER

record vfs_env =
  getcwd :: "string outcome"
  row_visible :: "int \<Rightarrow> bool"
  row_allowed :: "string \<Rightarrow> bool"
  access_error :: "string \<Rightarrow> access \<Rightarrow> errno option"
  dir_end :: int
  written :: "string \<Rightarrow> nat \<Rightarrow> nat"
  pg_mkdir_p :: "string \<Rightarrow> nodes \<Rightarrow> nodes"
  readdir :: "string \<Rightarrow> (string \<times> d_type) list"

record local_fs_mounts =
  mounts :: "(int \<times> string) list"
  next_id :: int

definition local_fs :: "vfs_env \<Rightarrow> string option \<Rightarrow> local_fs_mounts \<Rightarrow> (int \<times> local_fs_mounts) outcome" where
  "local_fs env mount db =
     (case mount of
        None \<Rightarrow> elog_error ''mount must not be NULL''
      | Some m \<Rightarrow>
          bind_outcome (subpath (getcwd env) m ''.'') (\<lambda>absolute_mount.
            case find (\<lambda>(i, p). p = absolute_mount \<and> row_visible env i) (mounts db) of
              Some (i, p) \<Rightarrow> Inr (i, db)
            | None \<Rightarrow>
                if \<not> row_allowed env absolute_mount then Inl (Ereport ERRCODE_OTHER ''row-level security policy'')
                else if absolute_mount \<in> set (map snd (mounts db)) then Inl (Ereport ERRCODE_OTHER ''unique constraint'')
                else Inr (next_id db,
                          db\<lparr>mounts := mounts db @ [(next_id db, absolute_mount)], next_id := next_id db + 1\<rparr>)))"

definition get_mount_path :: "vfs_env \<Rightarrow> local_fs_mounts \<Rightarrow> int \<Rightarrow> string outcome" where
  "get_mount_path env db fs_id =
     (case find (\<lambda>(i, p). i = fs_id \<and> row_visible env i) (mounts db) of
        None \<Rightarrow> elog_error ''fetching mount failed''
      | Some (i, p) \<Rightarrow> Inr p)"

text \<open>The start that the operations share: their first two arguments and the path they give.\<close>

definition fs_path ::
  "vfs_env \<Rightarrow> local_fs_mounts \<Rightarrow> string \<Rightarrow> int option option \<Rightarrow> string option \<Rightarrow> string outcome" where
  "fs_path env db what fs path =
     (case fs of
        None \<Rightarrow> elog_error ''fs must not be NULL''
      | Some fs_id \<Rightarrow>
          (case path of
             None \<Rightarrow> elog_error (what @ '' must not be NULL'')
           | Some p \<Rightarrow>
               (case fs_id of
                  None \<Rightarrow> elog_error ''filesystem ID must not be NULL''
                | Some i \<Rightarrow> bind_outcome (get_mount_path env db i) (\<lambda>mount_path. subpath (getcwd env) mount_path p))))"

section \<open>Files\<close>

record vfs =
  nodes :: nodes
  descriptors :: nat

definition stat :: "vfs_env \<Rightarrow> vfs \<Rightarrow> string \<Rightarrow> errno + node" where
  "stat env v path =
     (case access_error env path Stat of
        Some e \<Rightarrow> Inl e
      | None \<Rightarrow> (case hash_find (nodes v) path of None \<Rightarrow> Inl ENOENT | Some n \<Rightarrow> Inr n))"

text \<open>A file opened for reading: its bytes and where it ends.\<close>

definition fopen_read :: "vfs_env \<Rightarrow> vfs \<Rightarrow> string \<Rightarrow> errno + (byte list \<times> int)" where
  "fopen_read env v path =
     (case access_error env path OpenRead of
        Some e \<Rightarrow> Inl e
      | None \<Rightarrow>
          (case hash_find (nodes v) path of
             None \<Rightarrow> Inl ENOENT
           | Some (File bs) \<Rightarrow> Inr (bs, int (length bs))
           | Some Dir \<Rightarrow> Inr ([], dir_end env)))"

text \<open>A file opened for writing: what is kept of it.\<close>

definition fopen_write :: "vfs_env \<Rightarrow> vfs \<Rightarrow> string \<Rightarrow> bool \<Rightarrow> errno + byte list" where
  "fopen_write env v path app =
     (case access_error env path OpenWrite of
        Some e \<Rightarrow> Inl e
      | None \<Rightarrow>
          (case hash_find (nodes v) path of
             None \<Rightarrow>
               if map_option (hash_find (nodes v)) (file_dirname (Some path)) = Some (Some Dir) then Inr [] else Inl ENOENT
           | Some (File bs) \<Rightarrow> Inr (if app then bs else [])
           | Some Dir \<Rightarrow> Inl EISDIR))"

datatype file_kind = KindFile | KindDir

definition local_fs_list ::
  "vfs_env \<Rightarrow> local_fs_mounts \<Rightarrow> int option option \<Rightarrow> string option \<Rightarrow> bool option \<Rightarrow> vfs \<Rightarrow> (string \<times> file_kind) list outcome" where
  "local_fs_list env db fs given_path fail_unpermitted v =
     bind_outcome (fs_path env db ''dir'' fs given_path) (\<lambda>path.
       case stat env v path of
         Inl _ \<Rightarrow> Inr []
       | Inr (File _) \<Rightarrow> Inr [(the given_path, KindFile)]
       | Inr Dir \<Rightarrow>
           (case access_error env path OpenDir of
              None \<Rightarrow>
                Inr (map (\<lambda>(n, t). (n, if t = DT_DIR then KindDir else KindFile))
                  (filter (\<lambda>(n, t). \<not> (length n \<le> 2 \<and> strncmp_equal n ''..'' (length n))) (readdir env path)))
            | Some e \<Rightarrow> if e = EPERM \<and> fail_unpermitted = Some False then Inr [] else elog_error ''can't open directory''))"

definition MaxAllocSize :: nat where "MaxAllocSize = 0x3fffffff"

text \<open>
  Reading.  Bytes of the result that lie after the end of its memory are \<open>None\<close>.  A negative size is passed to \<open>fread\<close> as a huge one.
\<close>

definition local_fs_read ::
  "vfs_env \<Rightarrow> local_fs_mounts \<Rightarrow> int option option \<Rightarrow> string option \<Rightarrow> int option \<Rightarrow> int option \<Rightarrow> vfs \<Rightarrow>
   byte option list outcome \<times> vfs" where
  "local_fs_read env db fs path file_offset chunk_size v =
     (case fs_path env db ''path'' fs path of
        Inl e \<Rightarrow> (Inl e, v)
      | Inr fullpath \<Rightarrow>
          (case fopen_read env v fullpath of
             Inl e \<Rightarrow> (elog_error ''can't open file'', v)
           | Inr (bytes, end_pos) \<Rightarrow>
               let offset = (case file_offset of None \<Rightarrow> 0 | Some x \<Rightarrow> x) in
               if offset < 0 then (elog_error ''can't seek to a given offset'', v)
               else
                 let size = (case chunk_size of Some s \<Rightarrow> s | None \<Rightarrow> end_pos - offset) in
                 if size > 1024 * 1024 * 1024 then (elog_error ''chunk_size can't be over 1GB'', v)
                 else if unat (word_of_int (4 + size) :: 64 word) > MaxAllocSize
                 then (elog_error ''invalid memory alloc request size'', v\<lparr>descriptors := descriptors v + 1\<rparr>)
                 else if size < 0 then (Inl (Crash ''written past the end of the memory''), v)
                 else
                   let data = take (nat size) (drop (nat offset) bytes); actual_size = length data in
                   if int actual_size = size then (Inr (map Some data), v)
                   else if actual_size < 4 then (Inl (Crash ''header written past the end of the memory''), v)
                   else (Inr (map Some (take (actual_size - 4) data) @ replicate 4 None), v)))"

definition local_fs_write ::
  "vfs_env \<Rightarrow> local_fs_mounts \<Rightarrow> int option option \<Rightarrow> string option \<Rightarrow> byte list option \<Rightarrow> bool option \<Rightarrow> bool option \<Rightarrow> vfs \<Rightarrow>
   int outcome \<times> vfs" where
  "local_fs_write env db fs path content create_file append_file v =
     (case fs_path env db ''path'' fs path of
        Inl e \<Rightarrow> (Inl e, v)
      | Inr fullpath \<Rightarrow>
          let create = (create_file = Some True); app = (append_file = Some True) in
          case (if \<not> create then
                  (case fopen_read env v fullpath of
                     Inl e \<Rightarrow> elog_error ''can't open file''
                   | Inr _ \<Rightarrow> Inr (v\<lparr>descriptors := descriptors v + 1\<rparr>))
                else
                  (case last_dir_separator fullpath of
                     None \<Rightarrow> Inl (Crash ''null separator'')
                   | Some len \<Rightarrow>
                       Inr (v\<lparr>nodes := pg_mkdir_p env (if len > 0 then take len fullpath else ''/'') (nodes v)\<rparr>))) of
            Inl e \<Rightarrow> (Inl e, v)
          | Inr v1 \<Rightarrow>
              (case fopen_write env v1 fullpath app of
                 Inl e \<Rightarrow> (elog_error ''can't open file'', v1)
               | Inr kept \<Rightarrow>
                   let bytes = (case content of Some b \<Rightarrow> b | None \<Rightarrow> []);
                       actual_size = written env fullpath (length bytes) in
                   (Inr (int actual_size), v1\<lparr>nodes := hash_enter fullpath (File (kept @ take actual_size bytes)) (nodes v1)\<rparr>)))"

text \<open>
  Times of files: seconds and nanoseconds to microseconds since the year 2000.  After an overflow, the test for the range
  of a 64 bit integer never holds.
\<close>

definition int64_range :: "int \<Rightarrow> bool" where
  "int64_range x \<longleftrightarrow> - (2 ^ 63) \<le> x \<and> x < 2 ^ 63"

definition timespec_to_timestamp :: "int \<Rightarrow> int \<Rightarrow> int" where
  "timespec_to_timestamp tv_sec tv_nsec =
     (let product = (tv_sec - 946684800) * 1000000 in
      if \<not> int64_range product then -1
      else
        let microseconds = product + tv_nsec div 1000 in
        if \<not> int64_range microseconds then -1 else microseconds)"

text \<open>Size, times of access and change, and kind of a file.  The size of a directory and the times are given by \<open>meta\<close>.\<close>

definition local_fs_file_info ::
  "vfs_env \<Rightarrow> local_fs_mounts \<Rightarrow> int option option \<Rightarrow> string option \<Rightarrow> (string \<Rightarrow> int \<times> (int \<times> int) \<times> (int \<times> int)) \<Rightarrow> vfs \<Rightarrow>
   (int \<times> int \<times> int \<times> file_kind) option outcome" where
  "local_fs_file_info env db fs path meta v =
     bind_outcome (fs_path env db ''path'' fs path) (\<lambda>fullpath.
       case stat env v fullpath of
         Inl e \<Rightarrow> if e \<noteq> ENOENT then elog_error ''can't get file information'' else Inr None
       | Inr n \<Rightarrow>
           (case meta fullpath of
              (dir_size, atim, mtim) \<Rightarrow>
                Inr (Some (case n of File bs \<Rightarrow> int (length bs) | Dir \<Rightarrow> dir_size,
                           case_prod timespec_to_timestamp atim, case_prod timespec_to_timestamp mtim,
                           if n = Dir then KindDir else KindFile))))"

section \<open>Paths stay in the mount, or next to it\<close>

lemma null_free_render: "list_all null_free ns \<Longrightarrow> null_free (render True ns)"
proof -
  assume "list_all null_free ns"
  then have "set (join ns) \<subseteq> {c. c \<noteq> CHR 0x00}" by (cases ns) (auto simp: list_all_iff null_free_def)
  then show ?thesis by (auto simp: render_def null_free_def)
qed

text \<open>A mount as it is stored: an absolute path of names.\<close>

definition mount_names :: "string list \<Rightarrow> bool" where
  "mount_names ns = (plain_names ns \<and> ''.'' \<notin> set ns \<and> list_all null_free ns)"

lemma mount_names_components: "null_free s \<Longrightarrow> mount_names ms \<Longrightarrow> mount_names (foldl (push_name True) ms (components s))"
proof -
  assume s: "null_free s" and ms: "mount_names ms"
  have "mount_names (foldl (push_name True) ms ds)" if "\<forall>d\<in>set ds. is_name d \<and> d \<noteq> ''.'' \<and> null_free d" for ds
    using ms that
  proof (induction ds arbitrary: ms)
    case (Cons d ds)
    have "mount_names (push_name True ms d)"
      using Cons.prems by (cases ms rule: rev_cases) (auto simp: mount_names_def push_name_def)
    then show ?case using Cons by simp
  qed simp
  moreover have "null_free d" if "d \<in> set (components s)" for d
    using set_components[OF that] s by (auto simp: null_free_def)
  ultimately show ?thesis using components_names by blast
qed

lemma reduce_mount: "mount_names ms \<Longrightarrow> reduce_names True ms = ms"
  by (simp add: mount_names_def reduce_names_def foldl_push_plain)

lemma mount_names_list: "mount_names ms \<Longrightarrow> list_all is_name ms \<and> ''.'' \<notin> set ms \<and> list_all null_free ms"
  by (auto simp: mount_names_def plain_names_def)

lemma components_mount: "mount_names ms \<Longrightarrow> components (render True ms) = ms"
  using components_render mount_names_list by blast

lemma make_absolute_mount: "mount_names ms \<Longrightarrow> make_absolute_path_15 cwd (render True ms) = Inr (render True ms)"
  using is_absolute_render[of ms True] mount_names_list[of ms]
  by (simp add: make_absolute_path_eq components_mount reduce_mount)

text \<open>The text of one path starts with that of another: its names go on, or the last one is longer.\<close>

definition slash :: "string list \<Rightarrow> string" where
  "slash ns = concat (map (\<lambda>n. CHR ''/'' # n) ns)"

lemma slash_simps [simp]: "slash [] = []" "slash (n # ns) = CHR ''/'' # n @ slash ns"
  by (simp_all add: slash_def)

lemma render_slash: "ns \<noteq> [] \<Longrightarrow> render True ns = slash ns"
  by (cases ns) (simp_all add: render_def slash_def)

lemma name_then_slash:
  assumes "CHR ''/'' \<notin> set p" "CHR ''/'' \<notin> set m" "u = [] \<or> hd u = CHR ''/''" "v = [] \<or> hd v = CHR ''/''" "p @ u = m @ v"
  shows "p = m \<and> u = v"
proof -
  have "takeWhile (\<lambda>c. c \<noteq> CHR ''/'') (x @ y) = x" if "CHR ''/'' \<notin> set x" "y = [] \<or> hd y = CHR ''/''" for x y
    using that by (cases y) (auto simp: takeWhile_append takeWhile_eq_all_conv)
  from this[OF assms(1,3)] this[OF assms(2,4)] assms(5) show ?thesis by simp
qed

lemma hd_slash: "slash ns = [] \<or> hd (slash ns) = CHR ''/''"
  by (cases ns) auto

lemma name_prefix:
  assumes "CHR ''/'' \<notin> set m" "u = [] \<or> hd u = CHR ''/''" "p @ u = m @ r"
  shows "\<exists>x. p = m @ x"
proof (rule ccontr)
  assume "\<nexists>x. p = m @ x"
  then obtain y where "m = p @ y" "y \<noteq> []" "u = y @ r"
    using assms(3) by (auto simp: append_eq_append_conv2)
  then show False using assms(1,2) by (cases y) auto
qed

lemma slash_prefix_iff:
  assumes "list_all is_name ms" "list_all is_name ps" "ms \<noteq> []"
  shows "(\<exists>r. slash ps = slash ms @ r) \<longleftrightarrow> (\<exists>x. prefix (butlast ms @ [last ms @ x]) ps)"
  using assms
proof (induction ms arbitrary: ps)
  case (Cons m ms)
  have m: "CHR ''/'' \<notin> set m" using Cons.prems(1) by (simp add: is_name_def)
  show ?case
  proof (cases ps)
    case Nil
    then show ?thesis by auto
  next
    case ps: (Cons p qs)
    then have p: "CHR ''/'' \<notin> set p" "list_all is_name qs" using Cons.prems(2) is_name_def[of p] by auto
    show ?thesis
    proof (cases "ms = []")
      case True
      then show ?thesis using name_prefix[OF m hd_slash, of p qs] by (auto simp: ps)
    next
      case False
      have "(\<exists>r. slash ps = slash (m # ms) @ r) \<longleftrightarrow> p = m \<and> (\<exists>r. slash qs = slash ms @ r)"
        using name_then_slash[OF p(1) m hd_slash, of _ qs] False by (cases ms) (fastforce simp: ps)+
      then show ?thesis using Cons.IH[of qs] Cons.prems(1) p(2) False by (auto simp: ps)
    qed
  qed
qed simp

lemma prefix_render_iff:
  assumes "mount_names ms" "mount_names ps" "ms \<noteq> []"
  shows "(\<exists>r. render True ps = render True ms @ r) \<longleftrightarrow> (\<exists>x. prefix (butlast ms @ [last ms @ x]) ps)"
proof (cases "ps = []")
  case True
  have "last ms \<noteq> []" using assms(1,3) last_in_set[of ms] by (auto simp: mount_names_def plain_names_def list_all_iff is_name_def)
  moreover obtain m ns where "ms = m # ns" using assms(3) by (cases ms) auto
  moreover have "m \<noteq> []" using calculation assms(1) by (auto simp: mount_names_def is_name_def)
  ultimately show ?thesis using True by (auto simp: render_slash render_def)
next
  case False
  then show ?thesis using slash_prefix_iff[of ms ps] assms mount_names_list by (simp add: render_slash)
qed

lemma subpath_mount:
  assumes "mount_names ms" "null_free child" "length (render True ms) + 1 + length child < PATH_LIMIT"
    "ps = foldl (push_name True) ms (components child)"
  shows "subpath cwd (render True ms) child =
    (if \<exists>r. render True ps = render True ms @ r then Inr (render True ps)
     else if length (render True ps) < length (render True ms) then elog_error ''requested path is outside of the mount point''
     else Inl (Crash ''freed paths in a message''))"
proof -
  define path where "path = render True ms @ ''/'' @ child"
  have "is_absolute path" by (simp add: path_def is_absolute_def render_def)
  moreover have "reduce_names True (components path) = ps"
    using reduce_mount[OF assms(1)]
    by (simp add: path_def components_slash components_mount[OF assms(1)] reduce_names_def assms(4))
  ultimately have abs: "make_absolute_path_15 cwd path = Inr (render True ps)" by (simp add: make_absolute_path_eq)
  have take: "take (PATH_LIMIT - 1) path = path" using assms(3) by (simp add: path_def)
  have ps: "mount_names ps" unfolding assms(4) by (rule mount_names_components[OF assms(2,1)])
  have eq: "strncmp_equal (render True ms) (render True ps) (length (render True ms)) \<longleftrightarrow> (\<exists>r. render True ps = render True ms @ r)"
    using strncmp_equal_prefix null_free_render mount_names_list assms(1) ps by blast
  have "subpath cwd (render True ms) child =
      (if length (render True ms) > length (render True ps) then elog_error ''requested path is outside of the mount point''
       else if strncmp_equal (render True ms) (render True ps) (length (render True ms)) then Inr (render True ps)
       else Inl (Crash ''freed paths in a message''))"
    unfolding subpath_def make_absolute_mount[OF assms(1)] bind_outcome.simps Let_def path_def[symmetric] take abs by (rule refl)
  then show ?thesis unfolding eq by auto
qed

text \<open>
  C12: The paths that an operation may use.  For a path without null characters that is not cut at the limit, \<open>subpath\<close> gives the path that the names
  lead to from the mount, if this lies in the mount, but also if it lies in a directory next to the mount whose
  name starts with the name of the mount; all other paths are refused.
\<close>

theorem paths_in_mount_or_sibling:
  assumes "mount_names ms" "ms \<noteq> []" "null_free child" "length (render True ms) + 1 + length child < PATH_LIMIT"
    "ps = foldl (push_name True) ms (components child)"
  shows "subpath cwd (render True ms) child = Inr p \<longleftrightarrow>
    p = render True ps \<and> (prefix ms ps \<or> (\<exists>x. x \<noteq> [] \<and> prefix (butlast ms @ [last ms @ x]) ps))"
proof -
  have ps: "mount_names ps" unfolding assms(5) by (rule mount_names_components[OF assms(3,1)])
  have "(\<exists>x. prefix (butlast ms @ [last ms @ x]) ps) \<longleftrightarrow>
      prefix ms ps \<or> (\<exists>x. x \<noteq> [] \<and> prefix (butlast ms @ [last ms @ x]) ps)"
    using append_butlast_last_id[OF assms(2)] by (metis append_Nil2)
  then show ?thesis
    using prefix_render_iff[OF assms(1) ps assms(2)] by (auto simp: subpath_mount[OF assms(1,3,4,5)])
qed

theorem paths_in_mount_or_sibling_witness:
  "subpath (Inr ''/'') ''/srv/data'' ''../database/x'' = Inr ''/srv/database/x''"
proof -
  define child where "child = ''../database/x''"
  have c: "components child = [''..'', ''database'', ''x'']" by (simp add: child_def components_def)
  have "mount_names [''srv'', ''data'']" by (simp add: mount_names_def is_name_def null_free_def)
  moreover have "null_free child" "length (render True [''srv'', ''data'']) + 1 + length child < PATH_LIMIT"
    by (simp_all add: child_def null_free_def render_def PATH_LIMIT_def)
  moreover have "[''srv'', ''database'', ''x''] = foldl (push_name True) [''srv'', ''data''] (components child)"
    unfolding c by (simp add: push_name_def)
  ultimately have "subpath (Inr ''/'') (render True [''srv'', ''data'']) child = Inr (render True [''srv'', ''database'', ''x'']) \<longleftrightarrow>
      render True [''srv'', ''database'', ''x''] = render True [''srv'', ''database'', ''x''] \<and>
      (prefix [''srv'', ''data''] [''srv'', ''database'', ''x''] \<or>
       (\<exists>x. x \<noteq> [] \<and> prefix (butlast [''srv'', ''data''] @ [last [''srv'', ''data''] @ x]) [''srv'', ''database'', ''x'']))"
    by (intro paths_in_mount_or_sibling) simp_all
  moreover have "prefix (butlast [''srv'', ''data''] @ [last [''srv'', ''data''] @ ''base'']) [''srv'', ''database'', ''x'']" by simp
  ultimately have "subpath (Inr ''/'') (render True [''srv'', ''data'']) child = Inr (render True [''srv'', ''database'', ''x''])" by blast
  then show ?thesis by (simp add: child_def render_def)
qed

section \<open>Mounts\<close>

definition mounts_ok :: "local_fs_mounts \<Rightarrow> bool" where
  "mounts_ok db \<longleftrightarrow> distinct (map fst (mounts db)) \<and> distinct (map snd (mounts db)) \<and>
     (\<forall>(i, p)\<in>set (mounts db). i < next_id db \<and> (\<exists>ms. mount_names ms \<and> p = render True ms))"

lemma find_distinct:
  assumes "distinct (map fst xs)" "(i, p) \<in> set xs" "P i"
  shows "find (\<lambda>(j, q). j = i \<and> P j) xs = Some (i, p)"
  using assms by (induction xs) (auto simp: image_iff)

text \<open>
  C24: A mount gets its row.  After \<open>local_fs\<close> the row of the identifier that was returned has the canonical form of the path; a path
  that leads to the same directory gets the same identifier again, and the table keeps identifiers and paths distinct.
\<close>

theorem mounts_are_found:
  assumes "mounts_ok db" "is_absolute m" "null_free m" "ms = reduce_names True (components m)"
    "length (render True ms) + 2 < PATH_LIMIT" "local_fs env (Some m) db = Inr (i, db')" "row_visible env i"
    "is_absolute m2" "reduce_names True (components m2) = ms"
  shows "mounts_ok db' \<and> get_mount_path env db' i = Inr (render True ms) \<and> local_fs env (Some m2) db' = Inr (i, db')"
proof -
  have ms: "mount_names ms"
    using mount_names_components[OF assms(3), of "[]"] by (simp add: assms(4) reduce_names_def mount_names_def)
  have sub: "subpath (getcwd env) x ''.'' = Inr (render True ms)" if "is_absolute x" "reduce_names True (components x) = ms" for x
  proof -
    have "make_absolute_path_15 (getcwd env) x = Inr (render True ms)" using that by (simp add: make_absolute_path_eq)
    then have "subpath (getcwd env) x ''.'' = subpath (getcwd env) (render True ms) ''.''"
      by (simp add: subpath_def make_absolute_mount[OF ms])
    moreover have "components ''.'' = []" by (simp add: components_def)
    ultimately show ?thesis using subpath_mount[OF ms, of "''.''" ms] assms(5) by (simp add: null_free_def)
  qed
  have found: "find (\<lambda>(j, p). p = render True ms \<and> row_visible env j) (mounts db') = Some (i, render True ms) \<and> mounts_ok db'"
    if "(i, render True ms) \<in> set (mounts db')" "mounts_ok db'"
  proof -
    have "find (\<lambda>(j, p). p = render True ms \<and> row_visible env j) xs = Some (i, render True ms)"
      if "(i, render True ms) \<in> set xs" "distinct (map snd xs)" for xs
      using that assms(7) by (induction xs) (auto simp: image_iff)
    then show ?thesis using that by (simp add: mounts_ok_def)
  qed
  have new: "(i, render True ms) \<in> set (mounts db') \<and> mounts_ok db'"
    using assms(1,6) ms
    by (fastforce simp: local_fs_def sub[OF assms(2) assms(4)[symmetric]] mounts_ok_def find_Some_iff
        split: option.splits if_splits dest: nth_mem)
  then have "get_mount_path env db' i = Inr (render True ms)"
    using find_distinct[of "mounts db'" i "render True ms" "row_visible env"] assms(7)
    by (simp add: get_mount_path_def mounts_ok_def)
  then show ?thesis using found new by (simp add: local_fs_def sub[OF assms(8,9)])
qed

text \<open>An environment without errors, and the function that creates directories: those on the way that are missing.\<close>

definition make_dirs :: "string \<Rightarrow> nodes \<Rightarrow> nodes" where
  "make_dirs path ns =
     foldl (\<lambda>ns k. let d = render True (take k (components path)) in if hash_find ns d = None then hash_enter d Dir ns else ns) ns
       [0..<length (components path) + 1]"

definition plain_env :: vfs_env where
  "plain_env = \<lparr>getcwd = Inr ''/'', row_visible = (\<lambda>_. True), row_allowed = (\<lambda>_. True), access_error = (\<lambda>_ _. None), dir_end = 0,
     written = (\<lambda>_ n. n), pg_mkdir_p = make_dirs, readdir = (\<lambda>_. [(''.'', DT_DIR), (''b'', DT_REG), (''..'', DT_DIR), (''...'', DT_DIR)])\<rparr>"

lemma tmp_names: "components ''/tmp'' = [''tmp'']" "components ''/x/..//tmp/'' = [''x'', ''..'', ''tmp'']"
  by (simp_all add: components_def)

theorem mounts_are_found_witness:
  "\<exists>db'. local_fs plain_env (Some ''/tmp'') \<lparr>mounts = [], next_id = 1\<rparr> = Inr (1, db') \<and>
     get_mount_path plain_env db' 1 = Inr ''/tmp'' \<and> local_fs plain_env (Some ''/x/..//tmp/'') db' = Inr (1, db')"
proof -
  have ok: "mounts_ok \<lparr>mounts = [], next_id = 1\<rparr>" by (simp add: mounts_ok_def)
  have m: "is_absolute ''/tmp''" "null_free ''/tmp''" "[''tmp''] = reduce_names True (components ''/tmp'')"
    "length (render True [''tmp'']) + 2 < PATH_LIMIT" "is_absolute ''/x/..//tmp/''" "reduce_names True (components ''/x/..//tmp/'') = [''tmp'']"
    by (simp_all add: is_absolute_def null_free_def tmp_names reduce_names_def push_name_def render_def PATH_LIMIT_def)
  have r: "render True [''tmp''] = ''/tmp''" by (simp add: render_def)
  have "mount_names [''tmp'']" by (simp add: mount_names_def is_name_def null_free_def)
  from subpath_mount[OF this, of "''.''" "[''tmp'']" "Inr ''/''"]
  have "subpath (Inr ''/'') ''/tmp'' ''.'' = Inr ''/tmp''" by (simp add: null_free_def components_def PATH_LIMIT_def r)
  then obtain db' where db': "local_fs plain_env (Some ''/tmp'') \<lparr>mounts = [], next_id = 1\<rparr> = Inr (1, db')"
    by (simp add: local_fs_def plain_env_def)
  have "row_visible plain_env 1" by (simp add: plain_env_def)
  from mounts_are_found[OF ok m(1-4) db' this m(5,6)] db' show ?thesis by (auto simp: r)
qed

section \<open>Reading and writing\<close>

lemma unat_of_int64: "0 \<le> k \<Longrightarrow> k < 2 ^ 64 \<Longrightarrow> unat (word_of_int k :: 64 word) = nat k"
proof -
  assume "0 \<le> k" "k < 2 ^ 64"
  then have "uint (word_of_int k :: 64 word) = k" by (simp add: unsigned_of_int take_bit_int_eq_self)
  then show ?thesis by (metis nat_uint_eq)
qed

lemma small_alloc: "-4 \<le> sz \<Longrightarrow> 4 + sz \<le> int MaxAllocSize \<Longrightarrow> \<not> unat (word_of_int (4 + sz) :: 64 word) > MaxAllocSize"
  by (subst unat_of_int64) (simp_all add: MaxAllocSize_def)

lemma read_chunk:
  assumes "fs_path env db ''path'' fs path = Inr p" "hash_find (nodes v) p = Some (File bytes)" "access_error env p OpenRead = None"
    "offset = (case file_offset of None \<Rightarrow> 0 | Some x \<Rightarrow> x)" "0 \<le> offset"
    "sz = (case chunk_size of Some s \<Rightarrow> s | None \<Rightarrow> int (length bytes) - offset)" "0 \<le> sz" "4 + sz \<le> int MaxAllocSize"
  shows "local_fs_read env db fs path file_offset chunk_size v =
    (let data = take (nat sz) (drop (nat offset) bytes) in
     (if int (length data) = sz then Inr (map Some data)
      else if length data < 4 then Inl (Crash ''header written past the end of the memory'')
      else Inr (map Some (take (length data - 4) data) @ replicate 4 None), v))"
proof -
  have small: "\<not> sz > 1024 * 1024 * 1024" "\<not> unat (word_of_int (4 + sz) :: 64 word) > MaxAllocSize"
    using small_alloc[of sz] assms(7,8) by (simp_all add: MaxAllocSize_def)
  have opened: "fopen_read env v p = Inr (bytes, int (length bytes))" using assms(2,3) by (simp add: fopen_read_def)
  define data where "data = take (nat sz) (drop (nat offset) bytes)"
  show ?thesis
    unfolding local_fs_read_def assms(1) sum.case opened prod.case assms(4,6)[symmetric] Let_def data_def[symmetric]
    using assms(5,7) small by (simp del: of_int_add)
qed


text \<open>
  A file that does not exist is created if this is asked for.  Nothing is then left open.
\<close>

theorem create_then_read:
  assumes "fs_path env db ''path'' fs path = Inr p" "last_dir_separator p = Some len" "d = (if len > 0 then take len p else ''/'')"
    "hash_find (pg_mkdir_p env d (nodes v)) d = Some Dir" "hash_find (pg_mkdir_p env d (nodes v)) p = None"
    "\<And>a. access_error env p a = None" "written env p (length content) = length content" "length content + 4 \<le> MaxAllocSize"
  shows "\<exists>v'. local_fs_write env db fs path (Some content) (Some True) append_file v = (Inr (int (length content)), v') \<and>
    local_fs_read env db fs path None None v' = (Inr (map Some content), v') \<and> descriptors v' = descriptors v"
proof -
  define v' where "v' = v\<lparr>nodes := hash_enter p (File content) (pg_mkdir_p env d (nodes v))\<rparr>"
  have "file_dirname (Some p) = Some d" using assms(2,3) by (simp add: file_dirname_def)
  then have "local_fs_write env db fs path (Some content) (Some True) append_file v = (Inr (int (length content)), v')"
    using assms(2,4-7) by (simp add: local_fs_write_def assms(1) fopen_write_def assms(3)[symmetric] Let_def v'_def)
  moreover have "local_fs_read env db fs path None None v' = (Inr (map Some content), v')"
    using read_chunk[OF assms(1), of v' content 0 None "int (length content)" None] assms(6,8)
    by (simp add: v'_def hash_find_enter)
  ultimately show ?thesis by (auto simp: v'_def)
qed


section \<open>Times, lists and names\<close>

text \<open>
  The time of a file is given in microseconds since the year 2000, exactly if the result is a 64 bit integer, and as -1 without an error if
  not.
\<close>

theorem timestamps_exact:
  assumes "0 \<le> tv_nsec" "tv_nsec < 1000000000"
  shows "int64_range (timespec_to_timestamp tv_sec tv_nsec) \<and>
    timespec_to_timestamp tv_sec tv_nsec =
      (if int64_range ((tv_sec - 946684800) * 1000000) \<and> int64_range ((tv_sec - 946684800) * 1000000 + tv_nsec div 1000)
       then ((tv_sec - 946684800) * 1000000000 + tv_nsec) div 1000 else -1)"
proof -
  have "((tv_sec - 946684800) * 1000000000 + tv_nsec) div 1000 = (tv_sec - 946684800) * 1000000 + tv_nsec div 1000"
    using div_mult_self3[of "1000 :: int" "(tv_sec - 946684800) * 1000000" tv_nsec] by (simp add: algebra_simps)
  then show ?thesis by (auto simp: timespec_to_timestamp_def Let_def int64_range_def)
qed

text \<open>
  The name and the directory of a path.  Joined by a separator they are the path again, if there is a separator after its first
  character; the name has no separator.
\<close>

theorem dirname_basename:
  assumes "path = d @ ''/'' @ n" "CHR ''/'' \<notin> set n" "d \<noteq> []"
  shows "file_dirname (Some path) = Some d \<and> file_basename (Some path) = Some n"
proof -
  have "takeWhile (\<lambda>c. c \<noteq> CHR ''/'') (rev path) = rev n"
    using assms(1,2) by (auto simp: takeWhile_append)
  then have "last_dir_separator path = Some (length d)"
    by (simp add: last_dir_separator_def assms(1))
  then show ?thesis using assms(1,3) by (simp add: file_dirname_def file_basename_def)
qed

theorem dirname_basename_witness: "file_dirname (Some ''/a/b'') = Some ''/a'' \<and> file_basename (Some ''/a/b'') = Some ''b''"
  using dirname_basename[of "''/a/b''" "''/a''" "''b''"] by simp

text \<open>
  The list of a directory has the entries of the directory other than \<open>.\<close> and \<open>..\<close>, each once and in order, with its kind.
\<close>

theorem list_of_directory:
  assumes "fs_path env db ''dir'' fs path = Inr p" "hash_find (nodes v) p = Some Dir" "\<And>a. access_error env p a = None"
    "\<forall>(n, t)\<in>set (readdir env p). n \<noteq> [] \<and> null_free n"
  shows "local_fs_list env db fs path fail_unpermitted v =
    Inr (map (\<lambda>(n, t). (n, if t = DT_DIR then KindDir else KindFile))
      (filter (\<lambda>(n, t). n \<noteq> ''.'' \<and> n \<noteq> ''..'') (readdir env p)))"
proof -
  have "length n \<le> 2 \<and> strncmp_equal n ''..'' (length n) \<longleftrightarrow> n = ''.'' \<or> n = ''..''" if "n \<noteq> []" "null_free n" for n
  proof -
    have "strncmp_equal n ''..'' (length n) \<longleftrightarrow> (\<exists>r. ''..'' = n @ r)"
      using that(2) strncmp_equal_prefix[of n "''..''"] by (simp add: null_free_def)
    then show ?thesis using that(1) by (cases n; cases "tl n") (auto simp: Cons_eq_append_conv)
  qed
  then have "filter (\<lambda>(n, t). \<not> (length n \<le> 2 \<and> strncmp_equal n ''..'' (length n))) (readdir env p) =
      filter (\<lambda>(n, t). n \<noteq> ''.'' \<and> n \<noteq> ''..'') (readdir env p)"
    using assms(4) by (intro filter_cong) auto
  then show ?thesis unfolding local_fs_list_def assms(1) by (simp add: stat_def assms(2,3))
qed

section \<open>An example\<close>

definition tmp_db :: local_fs_mounts where "tmp_db = \<lparr>mounts = [(1, ''/tmp'')], next_id = 2\<rparr>"

definition tmp_files :: vfs where
  "tmp_files = \<lparr>nodes = [(''/'', Dir), (''/tmp'', Dir), (''/tmp/a'', File [1, 2, 3, 4, 5])], descriptors = 0\<rparr>"

lemma tmp_path: "fs_path plain_env tmp_db what (Some (Some 1)) (Some ''a'') = Inr ''/tmp/a''"
  "fs_path plain_env tmp_db what (Some (Some 1)) (Some ''.'') = Inr ''/tmp''"
proof -
  have m: "mount_names [''tmp'']" by (simp add: mount_names_def is_name_def null_free_def)
  have r: "render True [''tmp''] = ''/tmp''" "render True [''tmp'', ''a''] = ''/tmp/a''" by (simp_all add: render_def)
  have "subpath (Inr ''/'') ''/tmp'' ''a'' = Inr ''/tmp/a''"
    using subpath_mount[OF m, of "''a''" "[''tmp'', ''a'']" "Inr ''/''"]
    by (simp add: null_free_def components_def PATH_LIMIT_def push_name_def r)
  then show "fs_path plain_env tmp_db what (Some (Some 1)) (Some ''a'') = Inr ''/tmp/a''"
    by (simp add: fs_path_def get_mount_path_def tmp_db_def plain_env_def)
  have "subpath (Inr ''/'') ''/tmp'' ''.'' = Inr ''/tmp''"
    using subpath_mount[OF m, of "''.''" "[''tmp'']" "Inr ''/''"]
    by (simp add: null_free_def components_def PATH_LIMIT_def push_name_def r)
  then show "fs_path plain_env tmp_db what (Some (Some 1)) (Some ''.'') = Inr ''/tmp''"
    by (simp add: fs_path_def get_mount_path_def tmp_db_def plain_env_def)
qed

lemma tmp_nodes: "hash_find (nodes tmp_files) ''/tmp/a'' = Some (File [1, 2, 3, 4, 5])" "hash_find (nodes tmp_files) ''/tmp'' = Some Dir"
  by (simp_all add: tmp_files_def hash_find_Cons)

lemma plain_access: "access_error plain_env p a = None" "written plain_env p n = n"
  by (simp_all add: plain_env_def)



theorem list_of_directory_witness:
  "local_fs_list plain_env tmp_db (Some (Some 1)) (Some ''.'') None tmp_files = Inr [(''b'', KindFile), (''...'', KindDir)]"
proof -
  have r: "readdir plain_env ''/tmp'' = [(''.'', DT_DIR), (''b'', DT_REG), (''..'', DT_DIR), (''...'', DT_DIR)]"
    by (simp add: plain_env_def)
  then have "\<forall>(n, t)\<in>set (readdir plain_env ''/tmp''). n \<noteq> [] \<and> null_free n" by (simp add: null_free_def)
  from list_of_directory[OF tmp_path(2) tmp_nodes(2) plain_access(1) this, of None] show ?thesis by (simp add: r)
qed

theorem timestamps_exact_witness: "timespec_to_timestamp 946684801 5000 = 1000005"
  using timestamps_exact[of 5000 946684801] by (simp add: int64_range_def)

end
