(* ===== verification/Spec2Isabelle.thy ===== *)
theory Spec2Isabelle
  imports Omni_Prelude Omni_Cstring Omni_Var Omni_Hooks Omni_Alloc Omni_Loader
    Omni_Urlencode Omni_Seq_Id Omni_Uuid Omni_Ledger Omni_Linearize Omni_Retry
    Omni_Sum_Type Omni_Httpd_Fds Omni_Httpd_Listeners Omni_Httpd_Routes Omni_Httpd_Response Omni_Httpd_Websocket
    Omni_Httpd_Requests Omni_Path Omni_Vfs
begin

text \<open>
  Omnigres is a set of PostgreSQL extensions.  The extension \<open>omni\<close> is a loader: it loads
  other extensions as modules into every backend and gives them hooks, shared memory,
  switches and background workers.  The other extensions are used through SQL functions,
  triggers and, where they are modules of \<open>omni\<close>, through the hooks.  This development
  models the extensions written in C and proves what makes them correct.  Where the code falls short
  of that, a theorem states what it does instead.

  \<^bold>\<open>Conventions\<close> (\<open>Omni_Prelude\<close>).  A function that may raise an error returns an \<open>outcome\<close>, an error or a
  result; \<open>Crash\<close> marks an access that C leaves undefined.  Where the error leaves changes behind,
  the function also returns the state.  Machine integers are words of their width where overflow matters.
  Hash tables are association lists behind the interface \<open>hash_table\<close>.  What PostgreSQL, the C library or
  a client of the code does is an argument of the definitions, often a record named
  \<open>..._env\<close>; what is needed of it is a hypothesis of the theorem.  \<open>Omni_Cstring\<close> has the functions of the C library on strings that
  the sources call.

  \<^bold>\<open>Parts.\<close>

  \<^item> \<open>Omni_Var\<close>: \<open>omni_var\<close> (\<open>txn.c\<close>, \<open>session.c\<close>, \<open>statement.c\<close>).  A variable is a chain of values, one for each
    subtransaction that set it.  \<open>set\<close> and \<open>get\<close> of the three scopes share the interface
    \<open>variable_scope\<close>.  Shown: the last value set is returned; the chains stay ordered; a rolled back
    subtransaction leaves no trace, with the exact condition under which the code gets this right.

  \<^item> \<open>Omni_Hooks\<close>: the hook harness of \<open>omni\<close> (\<open>hook_harness.c\<close>).  Shown: hooks of a type run in order,
    a wrapping hook encloses the older ones, removal of a module's hooks keeps the others, one-shot callbacks
    fire once.

  \<^item> \<open>Omni_Alloc\<close>: named shared memory of modules (\<open>omni.c\<close>).  Backends are interleaved: a step relation on the
    shared table and the backends' lists.  Shown: what a backend holds is live and counted.

  \<^item> \<open>Omni_Loader\<close>: loading and reconciling of modules, switches and background worker requests (\<open>omni.c\<close>).
    Uses \<open>Omni_Hooks\<close> for the removal of hooks of unloaded modules.  Shown: one handle for each path, callbacks
    called once and in order, one winner for each switch.

  \<^item> \<open>Omni_Urlencode\<close>: \<open>omni_web\<close> (\<open>urlencode.c\<close>).  Shown: round trips, through the interface \<open>codec\<close>, and
    that the buffers are large enough.

  \<^item> \<open>Omni_Seq_Id\<close>: the identifier types of \<open>omni_seq\<close> (\<open>id.h\<close>), polymorphic in the widths the
    header is instantiated with.  Shown: round trips of the text and binary forms and what the comparisons do.

  \<^item> \<open>Omni_Uuid\<close>: \<open>omni_polyfill\<close> (\<open>uuidv7.c\<close>).  Shown: generated UUIDs increase, and give back their time.

  \<^item> \<open>Omni_Ledger\<close>: \<open>omni_ledger\<close>: the triggers, the cache of accounts and its invalidation.  Shown: a statement
    refines an abstract ledger that adds every transfer to two accounts; limits of accounts are respected; allowed
    transfers are accepted; the cases in which rows are dropped or a stale cache is used.

  \<^item> \<open>Omni_Linearize\<close> and \<open>Omni_Retry\<close>: \<open>omni_txn\<close>.  The first is a step relation over the shared array of
    backends; shown: a transaction that has read what a committed one wrote cannot commit.  The
    second models the retry loop, on an array of results of the attempts; shown: it returns what a
    reference definition gives, and bounds on the time slept.

  \<^item> \<open>Omni_Sum_Type\<close>: sum types of \<open>omni_types\<close> (\<open>sum_type.c\<close>).  Shown: casts to and from variants are sound, the comparison
    functions implement one order, the text and binary forms read back, and where malformed input or a stale cache leads.

  \<^item> \<open>Omni_Httpd_Fds\<close> and \<open>Omni_Httpd_Listeners\<close>: \<open>omni_httpd\<close> (\<open>fd.c\<close>, \<open>master_worker.c\<close>, \<open>http_worker.c\<close>).  The master worker opens
    sockets for the rows of a table and shares them over a socket; each worker keeps a context for
    each of them.  Shown: loading ends, the sockets arrive, and the contexts match the listeners.  The theorems of this theory
    join the three steps.

  \<^item> \<open>Omni_Httpd_Routes\<close> and \<open>Omni_Httpd_Response\<close>: the handler of requests (\<open>http_worker.c\<close>, \<open>urlpattern.cpp\<close>) and the SQL function
    \<open>http_response\<close> (\<open>omni_httpd.c\<close>).  The first reads the routes from the router tables, sorts them, and calls the functions of those
    that match; the second turns their outcome into an answer.  Shown: functions are called by priority, one handler at most, with
    arguments of the declared types; a request is answered once, and a body made by \<open>http_response\<close> arrives; which user later
    functions run as, which outcome counts, and which headers and bytes are lost.

  \<^item> \<open>Omni_Httpd_Websocket\<close>: messages from a backend to a WebSocket (\<open>omni_httpd.c\<close>, \<open>event_loop.c\<close>).  Shown: sender and worker use the
    same socket, and messages arrive in order and unchanged, however the stream is split.

  \<^item> \<open>Omni_Httpd_Requests\<close>: the two threads of a worker (\<open>event_loop.c\<close>, \<open>on_message\<close> in \<open>http_worker.c\<close>), as a step relation on their
    queues and the messages in memory.  Shown: requests are answered once and in order, and the count of requests in flight is right, as
    long as no connection is closed early; what happens if one is; the order of the calls for a WebSocket.  A theorem of this theory
    joins the answers of \<open>Omni_Httpd_Response\<close> with the queues.

  \<^item> \<open>Omni_Path\<close> and \<open>Omni_Vfs\<close>: \<open>omni_vfs\<close> (\<open>pg_path_v15.c\<close>, \<open>omni_vfs.c\<close>, \<open>local_fs.c\<close>).  The state machine that makes a path canonical, and the
    operations on files below a mount.  Shown: the state machine implements a reduction of lists of names; exactly which paths an
    operation can reach; mounts are found again; what is written is read; what reading in pieces does.

  \<^bold>\<open>Bounds and fuel.\<close>  No fuel is used.  Loops that may wait for ever for another process or the system (\<open>try_connect\<close>,
    \<open>receive_loop\<close>, \<open>try_listen\<close>, \<open>load_listeners\<close>) are partial functions, of which it is shown when they return; all other
    functions are total, the loops \<open>retry_loop\<close>, \<open>send_fds_with_buffer\<close>, \<open>relay\<close> and \<open>canon_loop\<close> by a measure.

  \<^bold>\<open>Not modelled.\<close>  Attaching to shared areas, declaration of GUC variables and waiting for background workers
    in \<open>omni\<close>; \<open>dshash.c\<close> and the deparsers, which are copies of PostgreSQL's files; code that mainly
    calls a library (HTTP, SQLite, PCRE2, boost, parsers of URLs, XML and CSV); the extensions in SQL and
    Python; the test runner.
\<close>

section \<open>Listeners, from the master worker to the workers\<close>

text \<open>An operating system that grants every request, and two listeners, as an example.\<close>

definition all_free :: os where
  "all_free = \<lparr>sys_socket = (\<lambda>t. Inr (100 + int t)), sys_setsockopt = (\<lambda>_. None), sys_bind = (\<lambda>_ _ _. None),
     sys_listen = (\<lambda>_. None), sys_getsockname_port = (\<lambda>t. 9000 + int t)\<rparr>"

definition two_listeners :: master where
  "two_listeners = \<lparr>portsocks = [], sockets = [], listeners =
     [\<lparr>l_id = 2, l_family = PGSQL_AF_INET, l_address = ''127.0.0.1'', l_port = Some 81, l_effective_port = None\<rparr>,
      \<lparr>l_id = 1, l_family = PGSQL_AF_INET, l_address = ''127.0.0.1'', l_port = Some 80, l_effective_port = None\<rparr>],
     port_ready = False, worker_reload = False, closed = [], leaked = []\<rparr>"

lemma create_all_free: "family \<noteq> AF_UNSPEC \<Longrightarrow>
   create_listening_socket all_free t family q address = (Inr (100 + int t, 9000 + int t), [])"
  by (cases family) (simp_all add: all_free_def create_listening_socket_def first_error_def)

lemma all_free_ok: "grants_ports all_free" "fresh_ports all_free t []"
  by (auto simp: grants_ports_def fresh_ports_def all_free_def create_listening_socket_def first_error_def Let_def hash_find_def split: sa_family.splits)

lemma two_listeners_loaded:
  "reload_listeners all_free 0 two_listeners = Some (two_listeners\<lparr>portsocks := [(9000, 100), (9001, 101)], sockets := [100, 101], port_ready := True,
     listeners := [\<lparr>l_id = 2, l_family = PGSQL_AF_INET, l_address = ''127.0.0.1'', l_port = Some 81, l_effective_port = Some 9001\<rparr>,
      \<lparr>l_id = 1, l_family = PGSQL_AF_INET, l_address = ''127.0.0.1'', l_port = Some 80, l_effective_port = Some 9000\<rparr>]\<rparr>, 2)"
  by (simp add: reload_listeners_def two_listeners_def try_listen.simps create_all_free MAX_N_FDS_def hash_find_def
      set_effective_port_def portsock_insert_def hash_enter_def remove_unused_def)



text \<open>
  C38: Two listeners with the same port and different addresses: the port is looked up without the address, so the second listener
  gets the socket of the first one, which is sent twice.  A new worker makes two contexts for it; the first gets the id
  of the second listener and the second gets none, so no context has the id of the first listener.
\<close>

theorem same_port_listener_lost:
  assumes "listeners m = [l1, l2]" "0 < l_id l1" "l_id l1 < l_id l2" "l_port l1 = Some p" "l_port l2 = Some p"
    "sockets m = []" "hash_find (portsocks m) p = None"
    "create_listening_socket os t (socket_family l1) p (l_address l1) = (Inr (s, p), [])"
    "\<And>k. send_ok k" "send_fds send_ok [s, s] = (r, messages)"
    "connect_result env 0 = None" "\<And>j. \<not> stopping env j" "available env 0 = map (transfer install) messages"
  shows "\<exists>m' t' fds ctxs'. reload_listeners os t m = Some (m', t') \<and> sockets m' = [s, s] \<and>
    accept_fds env = Some (Inr (fds, [])) \<and>
    reload_worker (map l_id (sort_key l_id (listeners m))) fds [] = Inr (ctxs', []) \<and>
    map listener_id ctxs' = [l_id l2, 0]"
proof -
  have "try_listen os (portsocks m) l1 p (l_effective_port l1) t [] = Some (Listening s p, t + 1, [])"
    using assms(8) by (simp add: try_listen.simps)
  then obtain m' t' where "reload_listeners os t m = Some (m', t')" "sockets m' = [s, s]"
    using assms(1-7)
    by (auto simp: reload_listeners_def Let_def MAX_N_FDS_def portsock_insert_find remove_unused_def)
  moreover have "accept_fds env = Some (Inr ([\<lparr>fd = install s, master_fd = s\<rparr>, \<lparr>fd = install s, master_fd = s\<rparr>], []))"
    using accept_fds_sent[where send_ok = send_ok and c = 0 and k = 0, OF _ assms(9,10) _ assms(11,12) _ assms(13)] by simp
  moreover have "reload_worker [l_id l1, l_id l2] [\<lparr>fd = install s, master_fd = s\<rparr>, \<lparr>fd = install s, master_fd = s\<rparr>] [] =
      Inr ([(create_listener \<lparr>fd = install s, master_fd = s\<rparr>)\<lparr>listener_id := l_id l2\<rparr>, create_listener \<lparr>fd = install s, master_fd = s\<rparr>], [])"
    using assms(2,3) by (simp add: reload_worker_def create_listener_def Let_def)
  ultimately show ?thesis using assms(1,3) by (simp add: create_listener_def)
qed

theorem same_port_listener_lost_witness:
  "\<exists>m' t' fds ctxs'. reload_listeners all_free 0
       (two_listeners\<lparr>listeners :=
          [\<lparr>l_id = 1, l_family = PGSQL_AF_INET, l_address = ''127.0.0.1'', l_port = Some 9000, l_effective_port = None\<rparr>,
           \<lparr>l_id = 2, l_family = PGSQL_AF_INET, l_address = ''10.0.0.1'', l_port = Some 9000, l_effective_port = None\<rparr>]\<rparr>) = Some (m', t') \<and>
     accept_fds \<lparr>connect_result = (\<lambda>_. None), stopping = (\<lambda>_. False),
       available = (\<lambda>_. map (transfer (\<lambda>f. f + 10)) (snd (send_fds (\<lambda>_. True) [100, 100])))\<rparr> = Some (Inr (fds, [])) \<and>
     reload_worker [1, 2] fds [] = Inr (ctxs', []) \<and> map listener_id ctxs' = [2, 0]"
  (is "\<exists>m' t' fds ctxs'. reload_listeners all_free 0 ?m = _ \<and> accept_fds ?env = _ \<and> _")
proof -
  obtain r messages where send: "send_fds (\<lambda>_. True) [100, 100] = (r, messages)" by fastforce
  then have "available ?env 0 = map (transfer (\<lambda>f. f + 10)) messages" by simp
  then show ?thesis
    using same_port_listener_lost[of ?m _ _ 9000 all_free 0 100 "\<lambda>_. True" r messages ?env "\<lambda>f. f + 10"] send
    by (auto simp: two_listeners_def create_all_free hash_find_def)
qed

section \<open>Answers, from the handler to the event loop\<close>

text \<open>What the handler queues for the event loop: the first of its replies, of which there is at most one.\<close>

definition reply_kind :: "reply \<Rightarrow> send_message_kind" where
  "reply_kind r = (case r of SendInline _ _ _ _ _ \<Rightarrow> MSG_KIND_SEND | QueueAbort \<Rightarrow> MSG_KIND_ABORT | QueueProxy _ _ \<Rightarrow> MSG_KIND_PROXY)"

definition queued_kind :: "delivery \<Rightarrow> send_message_kind option" where
  "queued_kind d = (case replies d of [] \<Rightarrow> None | r # _ \<Rightarrow> Some (reply_kind r))"

lemma queued_kind_None: "deliver clip head oc = Inr d \<Longrightarrow> queued_kind d = None \<longleftrightarrow> oc = Some OutUnknown"
  using deliver_once[of oc clip head] by (auto simp: queued_kind_def split: if_splits list.splits)

lemma handle_http:
  assumes "worker_reach True (Inr w)" "handler_queue w = HttpMessage i # ms"
  shows "\<exists>msg. handle_message reply w = Inr (queue_reply i msg reply (w\<lparr>handler_queue := ms\<rparr>))"
proof -
  have "i \<in> set (waiting w)" using assms(2) by (simp add: waiting_def)
  then obtain msg where "hash_find (memory w) i = Some msg" "has_req msg"
    using worker_reach_ok[OF assms(1)] by (auto simp: held_def)
  then show ?thesis using assms(2) by (intro exI[of _ msg]) (simp add: handle_message_def)
qed



end
